(* ===== verification/Prelude.thy ===== *)
theory Prelude
  imports Main
begin

text \<open>
  What the components share.

  \<^item> The outcome of Go code that may panic: \<open>'a go\<close> is a sum, \<open>Inl\<close> a run-time panic (index out
    of range, a nil pointer, an explicit \<^verbatim>\<open>panic\<close>, \<^verbatim>\<open>log.Fatal\<close>), \<open>Inr\<close> the value. \<open>go_bind\<close> sequences two
    such computations; \<open>go_index\<close>, \<open>go_store\<close>, \<open>go_from\<close> and \<open>go_upto\<close> are the slice operations
    \<^verbatim>\<open>s[i]\<close>, \<^verbatim>\<open>s[i] = v\<close>, \<^verbatim>\<open>s[i:]\<close> and \<^verbatim>\<open>s[:i]\<close> with their bounds checks.
  \<^item> Reachable states of a transition system and the locale of inductive invariants.
  \<^item> Majorities of a finite set of servers as a quorum system.
  \<^item> Collections of simplification rules used by the component proofs.
\<close>

named_theorems go_simps "rules that evaluate and invert computations of type go"

section \<open>Computations that may panic\<close>

datatype go_panic = IndexOutOfRange | NilDereference | DivideByZero | ExplicitPanic string | Fatal string

type_synonym 'a go = "go_panic + 'a"

definition go_bind :: "'a go \<Rightarrow> ('a \<Rightarrow> 'b go) \<Rightarrow> 'b go" where
  "go_bind m f = (case m of Inl e \<Rightarrow> Inl e | Inr a \<Rightarrow> f a)"

definition go_index :: "'a list \<Rightarrow> int \<Rightarrow> 'a go" where
  "go_index xs i = (if 0 \<le> i \<and> i < int (length xs) then Inr (xs ! nat i) else Inl IndexOutOfRange)"

definition go_store :: "'a list \<Rightarrow> int \<Rightarrow> 'a \<Rightarrow> 'a list go" where
  "go_store xs i v =
     (if 0 \<le> i \<and> i < int (length xs) then Inr (xs[nat i := v]) else Inl IndexOutOfRange)"

definition go_from :: "'a list \<Rightarrow> int \<Rightarrow> 'a list go" where
  "go_from xs i = (if 0 \<le> i \<and> i \<le> int (length xs) then Inr (drop (nat i) xs) else Inl IndexOutOfRange)"

definition go_upto :: "'a list \<Rightarrow> int \<Rightarrow> 'a list go" where
  "go_upto xs i = (if 0 \<le> i \<and> i \<le> int (length xs) then Inr (take (nat i) xs) else Inl IndexOutOfRange)"

text \<open>The loop \<^verbatim>\<open>for j := range peers { xs[j] = v }\<close> over \<open>n\<close> peers.\<close>

definition go_fill :: "nat \<Rightarrow> 'a \<Rightarrow> 'a list \<Rightarrow> 'a list go" where
  "go_fill n v xs = (if n \<le> length xs then Inr (replicate n v @ drop n xs) else Inl IndexOutOfRange)"

lemma go_bind_simps [simp]:
  "go_bind (Inl e) f = Inl e"
  "go_bind (Inr a) f = f a"
  by (simp_all add: go_bind_def)

lemma go_bind_eq_Inr [go_simps]:
  "go_bind m f = Inr b \<longleftrightarrow> (\<exists>a. m = Inr a \<and> f a = Inr b)"
  by (cases m) auto

lemma go_bind_assoc: "go_bind (go_bind m f) g = go_bind m (\<lambda>a. go_bind (f a) g)"
  by (cases m) auto

lemma go_index_eq_Inr [go_simps]:
  "go_index xs i = Inr v \<longleftrightarrow> 0 \<le> i \<and> i < int (length xs) \<and> v = xs ! nat i"
  by (auto simp: go_index_def)

lemma go_store_eq_Inr [go_simps]:
  "go_store xs i v = Inr ys \<longleftrightarrow> 0 \<le> i \<and> i < int (length xs) \<and> ys = xs[nat i := v]"
  by (auto simp: go_store_def)

lemma go_from_eq_Inr [go_simps]:
  "go_from xs i = Inr ys \<longleftrightarrow> 0 \<le> i \<and> i \<le> int (length xs) \<and> ys = drop (nat i) xs"
  by (auto simp: go_from_def)

lemma go_upto_eq_Inr [go_simps]:
  "go_upto xs i = Inr ys \<longleftrightarrow> 0 \<le> i \<and> i \<le> int (length xs) \<and> ys = take (nat i) xs"
  by (auto simp: go_upto_def)

lemma go_fill_eq_Inr [go_simps]:
  "go_fill n v xs = Inr ys \<longleftrightarrow> n \<le> length xs \<and> ys = replicate n v @ drop n xs"
  by (auto simp: go_fill_def)

lemma go_index_in [simp]: "0 \<le> i \<Longrightarrow> i < int (length xs) \<Longrightarrow> go_index xs i = Inr (xs ! nat i)"
  by (simp add: go_index_def)

lemma go_index_nat [simp]: "i < length xs \<Longrightarrow> go_index xs (int i) = Inr (xs ! i)"
  by (simp add: go_index_def)

lemma go_index_last: "xs \<noteq> [] \<Longrightarrow> go_index xs (int (length xs) - 1) = Inr (last xs)"
proof -
  assume ne: "xs \<noteq> []"
  then have "nat (int (length xs) - 1) = length xs - 1" by auto
  with ne show ?thesis by (auto simp: go_index_def last_conv_nth Suc_le_eq)
qed

lemma go_bind_cong [fundef_cong]:
  "m = m' \<Longrightarrow> (\<And>a. m' = Inr a \<Longrightarrow> f a = f' a) \<Longrightarrow> go_bind m f = go_bind m' f'"
  by (cases m') auto

section \<open>Transition systems and inductive invariants\<close>

inductive reach :: "('s \<Rightarrow> bool) \<Rightarrow> ('s \<Rightarrow> 's \<Rightarrow> bool) \<Rightarrow> 's \<Rightarrow> bool"
  for init step where
  reach_init: "init s \<Longrightarrow> reach init step s"
| reach_step: "reach init step s \<Longrightarrow> step s t \<Longrightarrow> reach init step t"

text \<open>
  An inductive invariant holds initially and is kept by every step from a state that satisfies it;
  it holds in every reachable state.
\<close>

locale inductive_invariant =
  fixes init :: "'s \<Rightarrow> bool"
    and step :: "'s \<Rightarrow> 's \<Rightarrow> bool"
    and inv :: "'s \<Rightarrow> bool"
  assumes inv_init: "init s \<Longrightarrow> inv s"
    and inv_step: "inv s \<Longrightarrow> step s t \<Longrightarrow> inv t"
begin

lemma inv_reach: "reach init step s \<Longrightarrow> inv s"
  by (induction rule: reach.induct) (auto intro: inv_init inv_step)

end

section \<open>Quorums\<close>

text \<open>Any two quorums share a member.\<close>

locale quorum_system =
  fixes quorum :: "'a set \<Rightarrow> bool"
  assumes quorum_intersect: "quorum Q \<Longrightarrow> quorum R \<Longrightarrow> Q \<inter> R \<noteq> {}"
begin

text \<open>If every member of a quorum has given its only vote to \<open>c\<close>, no other quorum votes for \<open>d\<close>.\<close>

lemma quorum_vote_unique:
  assumes "quorum Q" "quorum R"
    and "\<And>v. v \<in> Q \<Longrightarrow> vote v = Some c"
    and "\<And>v. v \<in> R \<Longrightarrow> vote v = Some d"
  shows "c = d"
proof -
  from quorum_intersect [OF assms(1,2)] obtain v where "v \<in> Q" "v \<in> R" by blast
  with assms(3,4) have "Some c = Some d" by metis
  then show ?thesis by simp
qed

end

definition majority :: "nat \<Rightarrow> nat set \<Rightarrow> bool" where
  "majority n Q \<longleftrightarrow> Q \<subseteq> {..<n} \<and> n < 2 * card Q"

interpretation majority_quorum: quorum_system "majority n" for n
proof unfold_locales
  fix Q R :: "nat set"
  assume "majority n Q" "majority n R"
  then have sub: "Q \<subseteq> {..<n}" "R \<subseteq> {..<n}" and big: "n < 2 * card Q" "n < 2 * card R"
    by (auto simp: majority_def)
  show "Q \<inter> R \<noteq> {}"
  proof
    assume "Q \<inter> R = {}"
    moreover have "finite Q" "finite R" using sub by (auto intro: finite_subset)
    ultimately have "card (Q \<union> R) = card Q + card R" by (simp add: card_Un_disjoint)
    moreover have "card (Q \<union> R) \<le> card {..<n}" using sub by (intro card_mono) auto
    ultimately show False using big by simp
  qed
qed

end
