(* ===== verification/RaftPersist.thy ===== *)
theory RaftPersist
  imports Prelude
begin

text \<open>
  Stable storage of a Raft peer (\<^verbatim>\<open>src/raft/persister.go\<close>) and the encoder it is used with
  (\<^verbatim>\<open>src/labgob/labgob.go\<close>, a wrapper of Go's \<^verbatim>\<open>encoding/gob\<close>).

  A gob stream is the list of the values that were encoded into it, in order: encoding appends a
  value, decoding takes the first one off and fails when the stream is used up or the value has
  another type. The integers the code encodes are \<open>GInt\<close>; every other value is \<open>GVal\<close> of a type
  the client of the stream chooses. The warnings labgob prints do not change a result.
\<close>

datatype 'x gobval = GInt int | GVal 'x

type_synonym 'x gob = "'x gobval list"

definition Encode :: "'x gob \<Rightarrow> 'x gobval \<Rightarrow> 'x gob" where
  "Encode w v = w @ [v]"

fun DecodeInt :: "'x gob \<Rightarrow> (int \<times> 'x gob) option" where
  "DecodeInt (GInt i # r) = Some (i, r)"
| "DecodeInt _ = None"

fun DecodeVal :: "'x gob \<Rightarrow> ('x \<times> 'x gob) option" where
  "DecodeVal (GVal x # r) = Some (x, r)"
| "DecodeVal _ = None"

record ('l, 'x) Persister =
  raftstate :: "'l gob"
  ps_snapshot :: "'x gob"

definition MakePersister :: "('l, 'x) Persister" where
  "MakePersister = \<lparr>raftstate = [], ps_snapshot = []\<rparr>"

definition Copy :: "('l, 'x) Persister \<Rightarrow> ('l, 'x) Persister" where
  "Copy ps = \<lparr>raftstate = raftstate ps, ps_snapshot = ps_snapshot ps\<rparr>"

definition ReadRaftState :: "('l, 'x) Persister \<Rightarrow> 'l gob" where
  "ReadRaftState ps = raftstate ps"

text \<open>The length in bytes of a gob value is a parameter: it is decided by \<^verbatim>\<open>encoding/gob\<close>.\<close>

definition RaftStateSize :: "('l gobval \<Rightarrow> nat) \<Rightarrow> ('l, 'x) Persister \<Rightarrow> nat" where
  "RaftStateSize bytes ps = sum_list (map bytes (raftstate ps))"

definition Save :: "('l, 'x) Persister \<Rightarrow> 'l gob \<Rightarrow> 'x gob \<Rightarrow> ('l, 'x) Persister" where
  "Save ps rs sn = ps\<lparr>raftstate := rs, ps_snapshot := sn\<rparr>"

definition ReadSnapshot :: "('l, 'x) Persister \<Rightarrow> 'x gob" where
  "ReadSnapshot ps = ps_snapshot ps"

definition SnapshotSize :: "('x gobval \<Rightarrow> nat) \<Rightarrow> ('l, 'x) Persister \<Rightarrow> nat" where
  "SnapshotSize bytes ps = sum_list (map bytes (ps_snapshot ps))"

named_theorems persist_simps "definitions of the persister and the gob stream"

lemmas persister_defs [persist_simps] =
  Encode_def MakePersister_def Copy_def ReadRaftState_def RaftStateSize_def Save_def
  ReadSnapshot_def SnapshotSize_def

text \<open>
  What a client of stable storage relies on: a read returns what the last save wrote, both parts
  of a save are written together, and a fresh storage is empty.
\<close>

locale stable_storage =
  fixes fresh :: "'p"
    and save :: "'p \<Rightarrow> 'a \<Rightarrow> 'b \<Rightarrow> 'p"
    and read_state :: "'p \<Rightarrow> 'a"
    and read_snap :: "'p \<Rightarrow> 'b"
    and empty_state :: "'a"
    and empty_snap :: "'b"
  assumes read_state_save: "read_state (save p a b) = a"
    and read_snap_save: "read_snap (save p a b) = b"
    and read_state_fresh: "read_state fresh = empty_state"
    and read_snap_fresh: "read_snap fresh = empty_snap"
begin

lemma last_save_wins:
  "read_state (fold (\<lambda>(a, b) p. save p a b) (ws @ [(a, b)]) p) = a"
  "read_snap (fold (\<lambda>(a, b) p. save p a b) (ws @ [(a, b)]) p) = b"
  by (simp_all add: read_state_save read_snap_save)

end

interpretation raft_storage: stable_storage
  "MakePersister :: ('l, 'x) Persister" Save ReadRaftState ReadSnapshot "[]" "[]"
  by unfold_locales (simp_all add: persister_defs)

end
