(* ===== verification/RaftDefs.thy ===== *)
theory RaftDefs
  imports RaftPersist
begin

text \<open>
  One Raft peer (\<^verbatim>\<open>src/raft/raft.go\<close>): its state, the RPC messages, and every operation that
  reads or changes the state. An operation is a function on the state record; the mutex makes each
  of them one atomic step. What a handler sends is returned as a list of messages, what it
  delivers on \<^verbatim>\<open>applyCh\<close> as a list of \<open>ApplyMsg\<close>. A Go run-time panic is an \<open>Inl\<close> outcome.

  Timers, condition variables and log output are left out of the state: when a timer fires is a
  choice of the environment (\<open>ticker_election\<close>, \<open>ticker_heartbeat\<close> may run at any time).
  Go's 64-bit \<^verbatim>\<open>int\<close> terms and indices are \<open>int\<close>: both only ever grow by one per election or per
  client command.
\<close>

section \<open>State and messages\<close>

record 'c LogEntry =
  Command :: "'c option"
  Term :: int

datatype server_identity = FOLLOWER | CANDIDATE | LEADER

definition Unvote :: int where
  "Unvote = -1"

definition InvalidIndex :: int where
  "InvalidIndex = -1"

record ('c, 'x) ApplyMsg =
  CommandValid :: bool
  am_Command :: "'c option"
  CommandIndex :: int
  SnapshotValid :: bool
  am_Snapshot :: "'x gob"
  SnapshotTerm :: int
  SnapshotIndex :: int

text \<open>
  \<open>votes t\<close> is the variable \<^verbatim>\<open>votes\<close> that the goroutines of one election share
  (\<^verbatim>\<open>kickOffNewElection\<close>); an election is named by its term, and a peer starts at most one election
  per term. \<open>peers\<close> is \<^verbatim>\<open>len(rf.peers)\<close>.
\<close>

record ('c, 'x) raft =
  peers :: nat
  persister :: "('c LogEntry list, 'x) Persister"
  me :: nat
  dead :: bool
  CurrentTerm :: int
  identity :: server_identity
  VoteFor :: int
  Logs :: "'c LogEntry list"
  committedIndex :: int
  lastApplied :: int
  nextIndex :: "int list"
  matchIndex :: "int list"
  DiscardCount :: int
  snapshot :: "'x gob"
  lastIncludedIndex :: int
  applySnappending :: bool
  votes :: "int \<Rightarrow> int"

record RequestVoteArgs =
  rv_Term :: int
  rv_CandidateId :: int
  rv_LastLogIndex :: int
  rv_LastLogTerm :: int

record RequestVoteReply =
  rvr_Term :: int
  rvr_VoteGranted :: bool

record 'c ApplyEntriesArgs =
  ae_Term :: int
  ae_LeaderId :: int
  ae_PrevLogIndex :: int
  ae_PrevLogTerm :: int
  ae_Entries :: "'c LogEntry list"
  ae_LeaderCommit :: int

record ApplyEntriesReply =
  aer_Term :: int
  aer_Success :: bool
  aer_XTerm :: int
  aer_XIndex :: int
  aer_XLen :: int

record 'x InstallSnapshotArgs =
  is_Term :: int
  is_LeaderId :: int
  is_LastIncludedIndex :: int
  is_LastIncludedTerm :: int
  is_Data :: "'x gob"

record InstallSnapshotReply =
  isr_Term :: int

datatype ('c, 'x) request =
    ReqVote RequestVoteArgs
  | ReqApply "'c ApplyEntriesArgs"
  | ReqInstall "'x InstallSnapshotArgs"

datatype reply =
    RepVote RequestVoteReply
  | RepApply ApplyEntriesReply
  | RepInstall InstallSnapshotReply

section \<open>Indices, persistence, snapshots\<close>

definition RealIndex :: "('c, 'x) raft \<Rightarrow> int \<Rightarrow> int" where
  "RealIndex rf raftIndex = raftIndex - DiscardCount rf"

definition RaftIndex :: "('c, 'x) raft \<Rightarrow> int \<Rightarrow> int" where
  "RaftIndex rf realIndex = realIndex + DiscardCount rf"

definition GetState :: "('c, 'x) raft \<Rightarrow> int \<times> bool" where
  "GetState rf = (CurrentTerm rf, identity rf = LEADER)"

definition persist :: "('c, 'x) raft \<Rightarrow> ('c, 'x) raft" where
  "persist rf =
     (let w0 = [];
          w1 = Encode w0 (GInt (CurrentTerm rf));
          w2 = Encode w1 (GInt (VoteFor rf));
          w3 = Encode w2 (GVal (Logs rf))
      in rf\<lparr>persister := Save (persister rf) w3 (snapshot rf)\<rparr>)"

definition readPersist :: "'c LogEntry list gob \<Rightarrow> ('c, 'x) raft \<Rightarrow> ('c, 'x) raft" where
  "readPersist data rf =
     (if data = [] then rf
      else case DecodeInt data of None \<Rightarrow> rf
      | Some (currentTerm, d1) \<Rightarrow> (case DecodeInt d1 of None \<Rightarrow> rf
        | Some (voteFor, d2) \<Rightarrow> (case DecodeVal d2 of None \<Rightarrow> rf
          | Some (logs, d3) \<Rightarrow>
              rf\<lparr>CurrentTerm := currentTerm, VoteFor := voteFor, Logs := logs\<rparr>)))"

definition readSnapShot :: "'x gob \<Rightarrow> ('c, 'x) raft \<Rightarrow> ('c, 'x) raft go" where
  "readSnapShot data rf =
     (if data = [] then Inr rf
      else case DecodeInt data of
        None \<Rightarrow> Inl (Fatal ''readSnapShot'')
      | Some (i, _) \<Rightarrow>
          Inr (rf\<lparr>committedIndex := i, lastApplied := i, DiscardCount := i,
                  snapshot := data, lastIncludedIndex := i\<rparr>))"

text \<open>The two loops of \<^verbatim>\<open>doSnapshot\<close>: count the covered entries, then shift the rest down.\<close>

function covered_loop :: "('c, 'x) raft \<Rightarrow> nat \<Rightarrow> nat \<Rightarrow> nat" where
  "covered_loop rf i cnt =
     (if i < length (Logs rf) \<and> RaftIndex rf (int i) \<le> lastIncludedIndex rf
      then covered_loop rf (Suc i) (Suc cnt) else cnt)"
  by pat_completeness auto
termination
  by (relation "measure (\<lambda>(rf, i, cnt). length (Logs rf) - i)") auto

function shift_loop :: "nat \<Rightarrow> nat \<Rightarrow> 'a list \<Rightarrow> 'a list" where
  "shift_loop cnt i xs =
     (if i + cnt < length xs then shift_loop cnt (Suc i) (xs[i := xs ! (i + cnt)]) else xs)"
  by pat_completeness auto
termination
  by (relation "measure (\<lambda>(cnt, i, xs). length xs - i)") auto

declare covered_loop.simps [simp del] shift_loop.simps [simp del]

definition doSnapshot :: "('c, 'x) raft \<Rightarrow> ('c, 'x) raft go" where
  "doSnapshot rf =
     (let cnt = covered_loop rf 1 0;
          shifted = shift_loop cnt 0 (Logs rf)
      in go_bind (go_upto shifted (int (length shifted) - int cnt)) (\<lambda>logs.
           Inr (persist (rf\<lparr>Logs := logs, DiscardCount := lastIncludedIndex rf\<rparr>))))"

definition Snapshot :: "int \<Rightarrow> 'x gob \<Rightarrow> ('c, 'x) raft \<Rightarrow> ('c, 'x) raft go" where
  "Snapshot index snap rf =
     (if index \<le> lastIncludedIndex rf then Inr rf
      else
        let rf1 = (if committedIndex rf \<le> index then rf\<lparr>committedIndex := index\<rparr> else rf);
            rf2 = (if lastApplied rf1 \<le> index then rf1\<lparr>lastApplied := index\<rparr> else rf1)
        in doSnapshot (rf2\<lparr>lastIncludedIndex := index, snapshot := snap\<rparr>))"

section \<open>Request handlers\<close>

definition RequestVote ::
    "RequestVoteArgs \<Rightarrow> ('c, 'x) raft \<Rightarrow> (RequestVoteReply \<times> ('c, 'x) raft) go" where
  "RequestVote args rf =
     (if rv_Term args < CurrentTerm rf \<or>
         (rv_Term args = CurrentTerm rf \<and> VoteFor rf \<noteq> Unvote \<and> VoteFor rf \<noteq> rv_CandidateId args)
      then Inr (\<lparr>rvr_Term = CurrentTerm rf, rvr_VoteGranted = False\<rparr>, persist rf)
      else
        let rf1 = (if rv_Term args > CurrentTerm rf
                   then rf\<lparr>CurrentTerm := rv_Term args, identity := FOLLOWER, VoteFor := Unvote\<rparr>
                   else rf);
            realIndex = int (length (Logs rf1)) - 1;
            lastLogIndex = RaftIndex rf1 realIndex
        in go_bind (go_index (Logs rf1) realIndex) (\<lambda>lastEntry.
             let lastLogTerm = Term lastEntry;
                 ok = (rv_LastLogTerm args > lastLogTerm \<or>
                       (rv_LastLogTerm args = lastLogTerm \<and> rv_LastLogIndex args \<ge> lastLogIndex))
             in if \<not> ok
                then Inr (\<lparr>rvr_Term = CurrentTerm rf1, rvr_VoteGranted = False\<rparr>, persist rf1)
                else Inr (\<lparr>rvr_Term = CurrentTerm rf1, rvr_VoteGranted = True\<rparr>,
                          persist (rf1\<lparr>CurrentTerm := rv_Term args, identity := FOLLOWER,
                                       VoteFor := rv_CandidateId args\<rparr>))))"

definition ReplicateCheck :: "'c ApplyEntriesArgs \<Rightarrow> ('c, 'x) raft \<Rightarrow> bool go" where
  "ReplicateCheck args rf =
     (let prevIndex = RealIndex rf (ae_PrevLogIndex args)
      in if prevIndex < 0 then Inr False
         else if prevIndex = 0
         then (if lastIncludedIndex rf = ae_PrevLogIndex args
               then go_bind (go_index (Logs rf) prevIndex) (\<lambda>e. Inr (Term e = ae_PrevLogTerm args))
               else Inr False)
         else if prevIndex < int (length (Logs rf))
         then go_bind (go_index (Logs rf) prevIndex) (\<lambda>e. Inr (Term e = ae_PrevLogTerm args))
         else Inr False)"

text \<open>Binary search for the first entry whose term is at least \<open>term\<close>.\<close>

function findFirst_loop :: "'c LogEntry list \<Rightarrow> int \<Rightarrow> int \<Rightarrow> int \<Rightarrow> int go" where
  "findFirst_loop logs term low high =
     (if low < high
      then let mid = (low + high) div 2
           in go_bind (go_index logs mid) (\<lambda>e.
                if Term e \<ge> term then findFirst_loop logs term low mid
                else findFirst_loop logs term (mid + 1) high)
      else Inr high)"
  by pat_completeness auto
termination
  by (relation "measure (\<lambda>(logs, term, low, high). nat (high - low))") auto

declare findFirst_loop.simps [simp del]

definition findFirstIndex :: "int \<Rightarrow> ('c, 'x) raft \<Rightarrow> int go" where
  "findFirstIndex term rf =
     go_bind (findFirst_loop (Logs rf) term 0 (int (length (Logs rf)) - 1)) (\<lambda>high.
     go_bind (go_index (Logs rf) high) (\<lambda>e.
       Inr (if Term e < term then int (length (Logs rf)) else high)))"

text \<open>
  The two loops over the received entries: the first cuts the log at the first entry whose term
  conflicts, the second writes the entries, appending where the log ends. \<open>k\<close> is the position
  \<^verbatim>\<open>rf.RealIndex(raftindex + i)\<close> of the current entry, which is at least 1 when the consistency
  check has passed.
\<close>

fun conflict_loop :: "int \<Rightarrow> 'c LogEntry list \<Rightarrow> 'c LogEntry list \<Rightarrow> 'c LogEntry list go" where
  "conflict_loop k logs [] = Inr logs"
| "conflict_loop k logs (e # es) =
     (if k < int (length logs)
      then go_bind (go_index logs k) (\<lambda>l.
             if Term l \<noteq> Term e then go_upto logs k else conflict_loop (k + 1) logs es)
      else Inr logs)"

fun copy_loop :: "int \<Rightarrow> 'c LogEntry list \<Rightarrow> 'c LogEntry list \<Rightarrow> 'c LogEntry list go" where
  "copy_loop k logs [] = Inr logs"
| "copy_loop k logs (e # es) =
     (if k \<ge> int (length logs) then copy_loop (k + 1) (logs @ [e]) es
      else go_bind (go_store logs k e) (\<lambda>logs'. copy_loop (k + 1) logs' es))"

definition ApplyEntries ::
    "'c ApplyEntriesArgs \<Rightarrow> ('c, 'x) raft \<Rightarrow> (ApplyEntriesReply \<times> ('c, 'x) raft) go" where
  "ApplyEntries args rf =
     (let zero = \<lparr>aer_Term = 0, aer_Success = False, aer_XTerm = 0, aer_XIndex = 0, aer_XLen = 0\<rparr>
      in if CurrentTerm rf > ae_Term args
      then Inr (zero\<lparr>aer_Term := CurrentTerm rf\<rparr>, persist rf)
      else
        let rf0 = rf\<lparr>identity := FOLLOWER\<rparr>;
            rf1 = (if CurrentTerm rf0 < ae_Term args
                   then rf0\<lparr>CurrentTerm := ae_Term args, VoteFor := Unvote\<rparr> else rf0);
            reply1 = zero\<lparr>aer_Term := CurrentTerm rf1\<rparr>;
            prevIndex = RealIndex rf1 (ae_PrevLogIndex args)
        in go_bind (ReplicateCheck args rf1) (\<lambda>matches.
           if \<not> matches then
             (if prevIndex < 0 then Inr (reply1\<lparr>aer_Success := True\<rparr>, persist rf1)
              else if prevIndex \<ge> int (length (Logs rf1))
              then Inr (reply1\<lparr>aer_XIndex := InvalidIndex,
                               aer_XLen := RaftIndex rf1 (int (length (Logs rf1)))\<rparr>, persist rf1)
              else
                go_bind (go_index (Logs rf1) prevIndex) (\<lambda>p.
                go_bind (findFirstIndex (Term p) rf1) (\<lambda>index.
                  if index \<ge> int (length (Logs rf1))
                  then Inl (ExplicitPanic ''rf.findFirstIndex: error!'')
                  else go_bind (go_index (Logs rf1) index) (\<lambda>f.
                    if Term f \<noteq> Term p then Inl (ExplicitPanic ''rf.findFirstIndex: error!'')
                    else Inr (reply1\<lparr>aer_XTerm := Term p, aer_XIndex := RaftIndex rf1 index,
                                     aer_XLen := RaftIndex rf1 (int (length (Logs rf1)))\<rparr>,
                              persist rf1)))))
           else
             let reply2 = reply1\<lparr>aer_Success := True\<rparr>
             in if ae_Entries args \<noteq> [] then
               let raftindex = ae_PrevLogIndex args + 1
               in go_bind (conflict_loop (RealIndex rf1 raftindex) (Logs rf1) (ae_Entries args)) (\<lambda>cut.
                  go_bind (copy_loop (RealIndex rf1 raftindex) cut (ae_Entries args)) (\<lambda>logs.
                    let rf2 = rf1\<lparr>Logs := logs\<rparr>;
                        rf3 = (if ae_LeaderCommit args > committedIndex rf2
                               then rf2\<lparr>committedIndex :=
                                      (if ae_LeaderCommit args > raftindex then raftindex
                                       else ae_LeaderCommit args)\<rparr>
                               else rf2)
                    in Inr (reply2, persist rf3)))
             else
               let lastIndex = RaftIndex rf1 (int (length (Logs rf1)) - 1);
                   rf3 = (if ae_LeaderCommit args > committedIndex rf1
                          then rf1\<lparr>committedIndex :=
                                 (if ae_LeaderCommit args \<ge> lastIndex then lastIndex
                                  else ae_LeaderCommit args)\<rparr>
                          else rf1)
               in Inr (reply2, persist rf3)))"

definition InstallSnapshot ::
    "'x InstallSnapshotArgs \<Rightarrow> ('c, 'x) raft \<Rightarrow> (InstallSnapshotReply \<times> ('c, 'x) raft) go" where
  "InstallSnapshot args rf =
     (if is_Term args < CurrentTerm rf then Inr (\<lparr>isr_Term = CurrentTerm rf\<rparr>, rf)
      else
        let rf0 = rf\<lparr>identity := FOLLOWER\<rparr>;
            rf1 = (if CurrentTerm rf0 < is_Term args
                   then rf0\<lparr>CurrentTerm := is_Term args, VoteFor := Unvote\<rparr> else rf0);
            reply = \<lparr>isr_Term = CurrentTerm rf1\<rparr>
        in if lastIncludedIndex rf1 \<ge> is_LastIncludedIndex args then Inr (reply, rf1)
        else
          let rf2 = rf1\<lparr>lastIncludedIndex := is_LastIncludedIndex args, snapshot := is_Data args\<rparr>;
              realIndex = RealIndex rf2 (is_LastIncludedIndex args);
              keep = (realIndex > 0 \<and> realIndex < int (length (Logs rf2)) \<and>
                      Term (Logs rf2 ! nat realIndex) = is_LastIncludedTerm args);
              rf3 = (if keep then rf2
                     else rf2\<lparr>Logs := [\<lparr>Command = None, Term = is_LastIncludedTerm args\<rparr>]\<rparr>)
          in go_bind (doSnapshot rf3) (\<lambda>rf4. Inr (reply, rf4\<lparr>applySnappending := True\<rparr>)))"

section \<open>Commit index\<close>

text \<open>The inner loop of \<^verbatim>\<open>updateCommittedIndex\<close> over the peers, with its early \<^verbatim>\<open>break\<close>.\<close>

fun count_loop :: "('c, 'x) raft \<Rightarrow> int \<Rightarrow> int \<Rightarrow> nat list \<Rightarrow> bool go" where
  "count_loop rf target cnt [] = Inr False"
| "count_loop rf target cnt (j # js) =
     (if j = me rf then count_loop rf target cnt js
      else go_bind (go_index (matchIndex rf) (int j)) (\<lambda>m.
        if m \<ge> target
        then (if cnt + 1 > int (peers rf) - (cnt + 1) then Inr True
              else count_loop rf target (cnt + 1) js)
        else count_loop rf target cnt js))"

text \<open>The outer loop, from the last entry of the current term downwards.\<close>

function commit_loop :: "('c, 'x) raft \<Rightarrow> int \<Rightarrow> int \<Rightarrow> int go" where
  "commit_loop rf low N =
     (if N \<ge> low \<and> RaftIndex rf N > committedIndex rf
      then go_bind (count_loop rf (RaftIndex rf N) 1 [0..<peers rf]) (\<lambda>ok.
             if ok then Inr (RaftIndex rf N) else commit_loop rf low (N - 1))
      else Inr (committedIndex rf))"
  by pat_completeness auto
termination
  by (relation "measure (\<lambda>(rf, low, N). nat (N - low + 1))") auto

declare commit_loop.simps [simp del]

definition updateCommittedIndex :: "('c, 'x) raft \<Rightarrow> ('c, 'x) raft go" where
  "updateCommittedIndex rf =
     go_bind (findFirstIndex (CurrentTerm rf) rf) (\<lambda>low.
       if low = int (length (Logs rf)) then Inr rf
       else go_bind (go_index (Logs rf) low) (\<lambda>e.
         if Term e \<noteq> CurrentTerm rf then Inr rf
         else go_bind (findFirstIndex (CurrentTerm rf + 1) rf) (\<lambda>high.
           if low \<ge> high then Inl (ExplicitPanic ''updateCommittedIndex'')
           else go_bind (go_index (Logs rf) (high - 1)) (\<lambda>h.
             if Term h \<noteq> CurrentTerm rf then Inl (ExplicitPanic ''updateCommittedIndex'')
             else go_bind (commit_loop rf low (high - 1)) (\<lambda>res.
               Inr (if committedIndex rf \<noteq> res then rf\<lparr>committedIndex := res\<rparr> else rf))))))"

section \<open>What a leader or candidate sends\<close>

definition heartbeat_request :: "('c, 'x) raft \<Rightarrow> nat \<Rightarrow> ('c, 'x) request go" where
  "heartbeat_request rf i =
     go_bind (go_index (nextIndex rf) (int i)) (\<lambda>next.
       if next \<le> lastIncludedIndex rf
       then go_bind (go_index (Logs rf) 0) (\<lambda>e0.
              Inr (ReqInstall \<lparr>is_Term = CurrentTerm rf, is_LeaderId = int (me rf),
                               is_LastIncludedIndex = lastIncludedIndex rf,
                               is_LastIncludedTerm = Term e0, is_Data = snapshot rf\<rparr>))
       else
         let lastLogIndex = RaftIndex rf (int (length (Logs rf)) - 1)
         in if lastLogIndex \<ge> next then
              (if next = 0 then Inl (ExplicitPanic ''nextIndex[i] == 0'')
               else let realPrevIndex = RealIndex rf (next - 1)
               in if realPrevIndex < 0 then Inl (ExplicitPanic ''realPrevIndex < 0'')
               else go_bind (go_index (Logs rf) realPrevIndex) (\<lambda>p.
                    go_bind (go_from (Logs rf) (RealIndex rf next)) (\<lambda>entries.
                      Inr (ReqApply \<lparr>ae_Term = CurrentTerm rf, ae_LeaderId = int (me rf),
                                     ae_PrevLogIndex = next - 1, ae_PrevLogTerm = Term p,
                                     ae_Entries = entries,
                                     ae_LeaderCommit = committedIndex rf\<rparr>))))
            else go_bind (go_index (Logs rf) (RealIndex rf lastLogIndex)) (\<lambda>p.
                   Inr (ReqApply \<lparr>ae_Term = CurrentTerm rf, ae_LeaderId = int (me rf),
                                  ae_PrevLogIndex = lastLogIndex, ae_PrevLogTerm = Term p,
                                  ae_Entries = [], ae_LeaderCommit = committedIndex rf\<rparr>)))"

fun heartbeat_loop :: "('c, 'x) raft \<Rightarrow> nat list \<Rightarrow> (nat \<times> ('c, 'x) request) list go" where
  "heartbeat_loop rf [] = Inr []"
| "heartbeat_loop rf (i # is) =
     (if i = me rf then heartbeat_loop rf is
      else go_bind (heartbeat_request rf i) (\<lambda>r.
           go_bind (heartbeat_loop rf is) (\<lambda>rs. Inr ((i, r) # rs))))"

definition sendHeartBeat :: "('c, 'x) raft \<Rightarrow> (nat \<times> ('c, 'x) request) list go" where
  "sendHeartBeat rf = heartbeat_loop rf [0..<peers rf]"

definition kickOffNewElection ::
    "('c, 'x) raft \<Rightarrow> ((nat \<times> ('c, 'x) request) list \<times> ('c, 'x) raft) go" where
  "kickOffNewElection rf =
     go_bind (go_index (Logs rf) (int (length (Logs rf)) - 1)) (\<lambda>lastEntry.
       let args = \<lparr>rv_Term = CurrentTerm rf, rv_CandidateId = int (me rf),
                   rv_LastLogIndex = RaftIndex rf (int (length (Logs rf)) - 1),
                   rv_LastLogTerm = Term lastEntry\<rparr>
       in Inr (map (\<lambda>i. (i, ReqVote args)) (filter (\<lambda>i. i \<noteq> me rf) [0..<peers rf]),
               rf\<lparr>votes := (votes rf)(CurrentTerm rf := 1)\<rparr>))"

definition ticker_election ::
    "('c, 'x) raft \<Rightarrow> ((nat \<times> ('c, 'x) request) list \<times> ('c, 'x) raft) go" where
  "ticker_election rf =
     (if identity rf \<noteq> LEADER
      then kickOffNewElection
             (persist (rf\<lparr>CurrentTerm := CurrentTerm rf + 1, identity := CANDIDATE,
                          VoteFor := int (me rf)\<rparr>))
      else Inr ([], rf))"

definition ticker_heartbeat :: "('c, 'x) raft \<Rightarrow> (nat \<times> ('c, 'x) request) list go" where
  "ticker_heartbeat rf = (if identity rf = LEADER then sendHeartBeat rf else Inr [])"

text \<open>\<^verbatim>\<open>Start\<close> returns index, term and whether this peer is the leader.\<close>

definition Start ::
    "'c \<Rightarrow> ('c, 'x) raft \<Rightarrow>
      ((int \<times> int \<times> bool) \<times> (nat \<times> ('c, 'x) request) list \<times> ('c, 'x) raft) go" where
  "Start command rf =
     (if dead rf then Inr ((-1, -1, False), [], rf)
      else if identity rf = LEADER
      then let index = RaftIndex rf (int (length (Logs rf)));
               rf1 = persist (rf\<lparr>Logs := Logs rf @ [\<lparr>Command = Some command,
                                                      Term = CurrentTerm rf\<rparr>]\<rparr>)
           in go_bind (sendHeartBeat rf1) (\<lambda>reqs.
                Inr ((index, CurrentTerm rf, True), reqs, rf1))
      else Inr ((-1, -1, False), [], rf))"

definition Kill :: "('c, 'x) raft \<Rightarrow> ('c, 'x) raft" where
  "Kill rf = rf\<lparr>dead := True\<rparr>"

section \<open>Replies\<close>

definition stepDown :: "int \<Rightarrow> ('c, 'x) raft \<Rightarrow> ('c, 'x) raft" where
  "stepDown t rf = persist (rf\<lparr>CurrentTerm := t, identity := FOLLOWER, VoteFor := Unvote\<rparr>)"

definition onRequestVoteReply ::
    "RequestVoteArgs \<Rightarrow> RequestVoteReply \<Rightarrow> ('c, 'x) raft \<Rightarrow> ('c, 'x) raft go" where
  "onRequestVoteReply args reply rf =
     (if rvr_Term reply < CurrentTerm rf then Inr rf
      else if rvr_Term reply > CurrentTerm rf then Inr (stepDown (rvr_Term reply) rf)
      else if rvr_VoteGranted reply
      then let v = votes rf (rv_Term args) + 1;
               rf1 = rf\<lparr>votes := (votes rf)(rv_Term args := v)\<rparr>
           in if v * 2 > int (peers rf) \<and> rvr_Term reply = CurrentTerm rf \<and> identity rf = CANDIDATE
              then go_bind (go_fill (peers rf) (RaftIndex rf (int (length (Logs rf)))) (nextIndex rf)) (\<lambda>next.
                   go_bind (go_fill (peers rf) 0 (matchIndex rf)) (\<lambda>mtch.
                     Inr (rf1\<lparr>identity := LEADER, nextIndex := next, matchIndex := mtch\<rparr>)))
              else Inr rf1
      else Inr rf)"

definition sendInstallSnapshotTo ::
    "nat \<Rightarrow> 'x InstallSnapshotArgs \<Rightarrow> InstallSnapshotReply \<Rightarrow> ('c, 'x) raft \<Rightarrow> ('c, 'x) raft go" where
  "sendInstallSnapshotTo server args reply rf =
     (if isr_Term reply < CurrentTerm rf then Inr rf
      else if isr_Term reply > CurrentTerm rf then Inr (stepDown (isr_Term reply) rf)
      else let index = is_LastIncludedIndex args
           in go_bind (go_index (matchIndex rf) (int server)) (\<lambda>m.
                if m \<le> index
                then go_bind (go_store (matchIndex rf) (int server) index) (\<lambda>mtch.
                     go_bind (go_store (nextIndex rf) (int server) (index + 1)) (\<lambda>next.
                       Inr (rf\<lparr>matchIndex := mtch, nextIndex := next\<rparr>)))
                else Inr rf))"

definition setNextIndex :: "nat \<Rightarrow> int \<Rightarrow> ('c, 'x) raft \<Rightarrow> ('c, 'x) raft go" where
  "setNextIndex server v rf =
     go_bind (go_store (nextIndex rf) (int server) v) (\<lambda>next. Inr (rf\<lparr>nextIndex := next\<rparr>))"

definition sendApplyEntriesTo ::
    "nat \<Rightarrow> 'c ApplyEntriesArgs \<Rightarrow> ApplyEntriesReply \<Rightarrow> ('c, 'x) raft \<Rightarrow> ('c, 'x) raft go" where
  "sendApplyEntriesTo server args reply rf =
     (if aer_Term reply < CurrentTerm rf then Inr rf
      else if \<not> aer_Success reply then
        (if aer_Term reply > ae_Term args then
           (if aer_Term reply > CurrentTerm rf then Inr (stepDown (aer_Term reply) rf) else Inr rf)
         else if aer_XIndex reply = InvalidIndex then setNextIndex server (aer_XLen reply) rf
         else
           go_bind (findFirstIndex (aer_XTerm reply) rf) (\<lambda>index.
           go_bind (if index = int (length (Logs rf)) then Inr True
                    else go_bind (go_index (Logs rf) index) (\<lambda>e. Inr (Term e \<noteq> aer_XTerm reply))) (\<lambda>absent.
             if absent then setNextIndex server (aer_XIndex reply) rf
             else
               go_bind (findFirstIndex (aer_XTerm reply + 1) rf) (\<lambda>index2.
               go_bind (go_index (Logs rf) (index2 - 1)) (\<lambda>l.
                 if Term l \<noteq> aer_XTerm reply then Inl (ExplicitPanic ''rf.Logs[index2 - 1].Term'')
                 else setNextIndex server (RaftIndex rf (index2 - 1)) rf)))))
      else if ae_Entries args \<noteq> [] then
        (let index = ae_PrevLogIndex args + 1
         in go_bind (go_index (nextIndex rf) (int server)) (\<lambda>next.
              if index = next
              then let m = index + int (length (ae_Entries args)) - 1
                   in go_bind (go_store (matchIndex rf) (int server) m) (\<lambda>mtch.
                      go_bind (go_store (nextIndex rf) (int server) (m + 1)) (\<lambda>next'.
                        updateCommittedIndex (rf\<lparr>matchIndex := mtch, nextIndex := next'\<rparr>)))
              else Inr rf))
      else Inr rf)"

section \<open>Delivery to the service, and creation\<close>

definition command_msg :: "'c option \<Rightarrow> int \<Rightarrow> ('c, 'x) ApplyMsg" where
  "command_msg cmd i =
     \<lparr>CommandValid = True, am_Command = cmd, CommandIndex = i, SnapshotValid = False,
      am_Snapshot = [], SnapshotTerm = 0, SnapshotIndex = 0\<rparr>"

definition snapshot_msg :: "'x gob \<Rightarrow> int \<Rightarrow> int \<Rightarrow> ('c, 'x) ApplyMsg" where
  "snapshot_msg data t i =
     \<lparr>CommandValid = False, am_Command = None, CommandIndex = 0, SnapshotValid = True,
      am_Snapshot = data, SnapshotTerm = t, SnapshotIndex = i\<rparr>"

function apply_loop ::
    "('c, 'x) raft \<Rightarrow> ('c, 'x) ApplyMsg list \<Rightarrow> (('c, 'x) ApplyMsg list \<times> ('c, 'x) raft) go" where
  "apply_loop rf msgs =
     (if lastApplied rf < committedIndex rf
      then let rf1 = rf\<lparr>lastApplied := lastApplied rf + 1\<rparr>
           in go_bind (go_index (Logs rf1) (RealIndex rf1 (lastApplied rf1))) (\<lambda>e.
                apply_loop rf1 (msgs @ [command_msg (Command e) (lastApplied rf1)]))
      else Inr (msgs, rf))"
  by pat_completeness auto
termination
  by (relation "measure (\<lambda>(rf, msgs). nat (committedIndex rf - lastApplied rf))") auto

declare apply_loop.simps [simp del]

text \<open>
  One round of \<^verbatim>\<open>applyLog\<close>: nothing when the peer is killed or has to wait, otherwise the messages
  it sends on the channel and the state it leaves.
\<close>

definition applyLog ::
    "('c, 'x) raft \<Rightarrow> (('c, 'x) ApplyMsg list \<times> ('c, 'x) raft) go" where
  "applyLog rf =
     (if dead rf \<or> (committedIndex rf \<le> lastApplied rf \<and> \<not> applySnappending rf) then Inr ([], rf)
      else
        go_bind (if applySnappending rf
                 then go_bind (go_index (Logs rf) 0) (\<lambda>e0.
                        Inr ([snapshot_msg (snapshot rf) (Term e0) (lastIncludedIndex rf)],
                             rf\<lparr>applySnappending := False\<rparr>))
                 else Inr ([], rf)) (\<lambda>(msgs, rf1).
          if lastApplied rf1 < committedIndex rf1
          then apply_loop (if lastApplied rf1 < lastIncludedIndex rf1
                           then rf1\<lparr>lastApplied := lastIncludedIndex rf1\<rparr> else rf1) msgs
          else Inr (msgs, rf1)))"

definition Make :: "nat \<Rightarrow> nat \<Rightarrow> ('c LogEntry list, 'x) Persister \<Rightarrow> ('c, 'x) raft go" where
  "Make npeers self ps =
     (let rf = \<lparr>peers = npeers, persister = ps, me = self, dead = False, CurrentTerm = 0,
                identity = FOLLOWER, VoteFor = Unvote, Logs = [\<lparr>Command = None, Term = 0\<rparr>],
                committedIndex = 0, lastApplied = 0, nextIndex = replicate npeers 0,
                matchIndex = replicate npeers 0, DiscardCount = 0, snapshot = [],
                lastIncludedIndex = 0, applySnappending = False, votes = (\<lambda>_. 0)\<rparr>
      in readSnapShot (ReadSnapshot ps) (readPersist (ReadRaftState ps) rf))"

end
