(* ===== verification/RaftLog.thy ===== *)
theory RaftLog
  imports RaftDefs
begin

text \<open>
  The loops over the log of a Raft peer, each equated with what it computes:
  the binary search \<open>findFirstIndex\<close>, the two loops of \<open>ApplyEntries\<close> that merge received entries,
  the two loops of \<open>doSnapshot\<close> that trim the log, and the loops of \<open>updateCommittedIndex\<close> and
  \<open>applyLog\<close>. All other theories about Raft use these equations and never unfold a loop.
\<close>

abbreviation sorted_terms :: "'c LogEntry list \<Rightarrow> bool" where
  "sorted_terms logs \<equiv> sorted (map Term logs)"

definition first_geq :: "int \<Rightarrow> 'c LogEntry list \<Rightarrow> nat" where
  "first_geq t logs = length (takeWhile (\<lambda>e. Term e < t) logs)"

text \<open>What the two loops of \<open>ApplyEntries\<close> do to the part of the log after the matched entry.\<close>

fun merge_entries :: "'c LogEntry list \<Rightarrow> 'c LogEntry list \<Rightarrow> 'c LogEntry list" where
  "merge_entries ls [] = ls"
| "merge_entries [] es = es"
| "merge_entries (l # ls) (e # es) =
     (if Term l = Term e then e # merge_entries ls es else e # es)"

text \<open>The number of entries \<open>doSnapshot\<close> drops.\<close>

definition covered :: "('c, 'x) raft \<Rightarrow> nat" where
  "covered rf = min (length (Logs rf) - 1) (nat (lastIncludedIndex rf - DiscardCount rf))"

text \<open>The peers, this one included, known to hold the entry at \<open>target\<close>.\<close>

definition holders :: "('c, 'x) raft \<Rightarrow> int \<Rightarrow> nat set" where
  "holders rf target = insert (me rf) {j. j < peers rf \<and> matchIndex rf ! j \<ge> target}"

section \<open>Binary search\<close>

lemma first_geq_le: "first_geq t logs \<le> length logs"
  by (simp add: first_geq_def length_takeWhile_le)

lemma first_geq_less_iff:
  assumes "sorted_terms logs" "i < length logs"
  shows "Term (logs ! i) < t \<longleftrightarrow> i < first_geq t logs"
  using assms
proof (induction logs arbitrary: i)
  case (Cons l ls)
  show ?case
  proof (cases "Term l < t")
    case True
    with Cons show ?thesis by (cases i) (auto simp: first_geq_def)
  next
    case False
    with Cons.prems have "\<not> Term ((l # ls) ! i) < t"
      by (cases i) (fastforce simp: all_set_conv_all_nth)+
    with False show ?thesis by (simp add: first_geq_def)
  qed
qed simp

lemma first_geq_term_ge:
  "sorted_terms logs \<Longrightarrow> first_geq t logs < length logs \<Longrightarrow> t \<le> Term (logs ! first_geq t logs)"
  using first_geq_less_iff [of logs "first_geq t logs" t] by auto

lemma findFirst_loop_eq:
  assumes "sorted_terms logs" "0 \<le> low" "high < int (length logs)"
    and "low \<le> min (int (first_geq t logs)) (int (length logs) - 1)"
    and "min (int (first_geq t logs)) (int (length logs) - 1) \<le> high"
  shows "findFirst_loop logs t low high = Inr (min (int (first_geq t logs)) (int (length logs) - 1))"
  using assms
proof (induction logs t low high rule: findFirst_loop.induct)
  case (1 logs t low high)
  let ?mid = "(low + high) div 2"
  show ?case
  proof (cases "low < high")
    case True
    then have mid: "low \<le> ?mid" "?mid < high" by auto
    then have ix: "go_index logs ?mid = Inr (logs ! nat ?mid)" using "1.prems" by simp
    have cmp: "Term (logs ! nat ?mid) < t \<longleftrightarrow> nat ?mid < first_geq t logs"
      using "1.prems" mid by (intro first_geq_less_iff) auto
    show ?thesis
    proof (cases "t \<le> Term (logs ! nat ?mid)")
      case t: True
      with cmp mid "1.prems"(2) have "int (first_geq t logs) \<le> ?mid" by linarith
      then show ?thesis
        using "1.IH"(1) [OF True refl ix t] "1.prems" mid True t ix
        by (simp add: findFirst_loop.simps [of logs t low high] Let_def)
    next
      case t: False
      with cmp mid "1.prems"(2) have "?mid < int (first_geq t logs)" by linarith
      then show ?thesis
        using "1.IH"(2) [OF True refl ix t] "1.prems" mid True t ix
        by (simp add: findFirst_loop.simps [of logs t low high] Let_def)
    qed
  next
    case False
    with "1.prems"(4,5) have "high = min (int (first_geq t logs)) (int (length logs) - 1)" by linarith
    moreover have "findFirst_loop logs t low high = Inr high"
      using False by (subst findFirst_loop.simps) simp
    ultimately show ?thesis by simp
  qed
qed

lemma findFirstIndex_eq:
  assumes "sorted_terms (Logs rf)" "Logs rf \<noteq> []"
  shows "findFirstIndex t rf = Inr (int (first_geq t (Logs rf)))"
proof -
  let ?p = "first_geq t (Logs rf)" and ?n = "length (Logs rf)"
  let ?q = "min (int ?p) (int ?n - 1)"
  have n: "0 < ?n" using assms by simp
  have loop: "findFirst_loop (Logs rf) t 0 (int ?n - 1) = Inr ?q"
    using assms n by (intro findFirst_loop_eq) auto
  have ix: "go_index (Logs rf) ?q = Inr (Logs rf ! nat ?q)" using n by (intro go_index_in) auto
  have "nat ?q < ?n" using n by linarith
  with assms(1) have "Term (Logs rf ! nat ?q) < t \<longleftrightarrow> nat ?q < ?p"
    by (rule first_geq_less_iff)
  moreover have "?p \<le> ?n" by (rule first_geq_le)
  ultimately have "(if Term (Logs rf ! nat ?q) < t then int ?n else ?q) = int ?p"
    using n by (cases "?p = ?n") auto
  then show ?thesis by (simp add: findFirstIndex_def loop ix)
qed

section \<open>Merging received entries\<close>

lemma copy_loop_eq:
  "k \<le> length logs \<Longrightarrow>
   copy_loop (int k) logs es = Inr (take k logs @ es @ drop (k + length es) logs)"
proof (induction es arbitrary: k logs)
  case (Cons e es)
  show ?case
  proof (cases "k = length logs")
    case True
    with Cons.IH [of "Suc k" "logs @ [e]"] show ?thesis by (simp add: add.commute)
  next
    case False
    with Cons.prems have k: "k < length logs" by simp
    with Cons.IH [of "Suc k" "logs[k := e]"] show ?thesis
      by (simp add: go_store_def add.commute take_Suc_conv_app_nth)
  qed
qed simp

lemma conflict_copy_eq:
  "k0 + length es0 = k \<Longrightarrow> k \<le> length logs \<Longrightarrow>
   go_bind (conflict_loop (int k) logs es) (\<lambda>cut. copy_loop (int k0) cut (es0 @ es)) =
   Inr (take k0 logs @ es0 @ merge_entries (drop k logs) es)"
proof (induction es arbitrary: k es0)
  case Nil
  then show ?case by (simp add: copy_loop_eq)
next
  case (Cons e es)
  show ?case
  proof (cases "k < length logs")
    case False
    with Cons.prems show ?thesis by (simp add: copy_loop_eq)
  next
    case True
    then have dr: "drop k logs = logs ! k # drop (Suc k) logs" by (simp add: Cons_nth_drop_Suc)
    show ?thesis
    proof (cases "Term (logs ! k) = Term e")
      case False
      with True Cons.prems dr show ?thesis by (simp add: go_upto_def copy_loop_eq)
    next
      case eq: True
      with Cons.IH [of "es0 @ [e]" "Suc k"] True Cons.prems dr show ?thesis
        by (simp add: add.commute)
    qed
  qed
qed

lemma merge_loops_eq:
  assumes "k \<le> length logs"
  shows "go_bind (conflict_loop (int k) logs es) (\<lambda>cut. copy_loop (int k) cut es) =
         Inr (take k logs @ merge_entries (drop k logs) es)"
  using conflict_copy_eq [of k "[]" k logs es] assms by simp

lemma merge_entries_length: "length (merge_entries ls es) = max (length ls) (length es) \<or>
    length (merge_entries ls es) = length es"
  by (induction ls es rule: merge_entries.induct) auto

lemma merge_entries_prefix: "take (length es) (merge_entries ls es) = es"
  by (induction ls es rule: merge_entries.induct) auto

lemma merge_entries_eq:
  "merge_entries ls es =
     es @ (if map Term (take (length es) ls) = map Term (take (length ls) es) then drop (length es) ls else [])"
  by (induction ls es rule: merge_entries.induct) auto

lemma sorted_terms_merge:
  assumes "sorted_terms (pre @ ls)" "sorted_terms (pre @ es)"
  shows "sorted_terms (pre @ merge_entries ls es)"
proof (cases "map Term (take (length es) ls) = map Term (take (length ls) es) \<and> length es < length ls")
  case True
  then have "map Term (es @ drop (length es) ls) = map Term ls"
    by (metis append_take_drop_id map_append take_all less_imp_le_nat)
  with True assms(1) show ?thesis by (simp add: merge_entries_eq)
next
  case False
  then have "merge_entries ls es = es" by (auto simp: merge_entries_eq)
  with assms(2) show ?thesis by simp
qed

lemma set_merge_entries: "set (merge_entries ls es) \<subseteq> set ls \<union> set es"
  by (induction ls es rule: merge_entries.induct) auto

section \<open>Trimming the log\<close>

lemma covered_loop_eq:
  "Logs rf \<noteq> [] \<Longrightarrow> 1 \<le> i \<Longrightarrow> i \<le> length (Logs rf) \<Longrightarrow>
   covered_loop rf i cnt =
     cnt + (min (length (Logs rf) - 1) (nat (lastIncludedIndex rf - DiscardCount rf)) - (i - 1))"
proof (induction rf i cnt rule: covered_loop.induct)
  case (1 rf i cnt)
  show ?case
  proof (cases "i < length (Logs rf) \<and> RaftIndex rf (int i) \<le> lastIncludedIndex rf")
    case True
    with "1.IH" [OF True] "1.prems" show ?thesis
      by (simp add: covered_loop.simps [of rf i cnt] RaftIndex_def) linarith
  next
    case False
    with "1.prems" show ?thesis
      by (auto simp: covered_loop.simps [of rf i cnt] RaftIndex_def)
  qed
qed

lemma covered_loop_covered: "Logs rf \<noteq> [] \<Longrightarrow> covered_loop rf (Suc 0) 0 = covered rf"
  by (simp add: covered_loop_eq covered_def Suc_le_eq)

lemma shift_loop_eq:
  "i + cnt \<le> length xs \<Longrightarrow>
   shift_loop cnt i xs = take i xs @ drop (i + cnt) xs @ drop (length xs - cnt) xs"
proof (induction cnt i xs rule: shift_loop.induct)
  case (1 cnt i xs)
  show ?case
  proof (cases "i + cnt < length xs")
    case True
    let ?ys = "xs[i := xs ! (i + cnt)]"
    have "shift_loop cnt (Suc i) ?ys =
        take (Suc i) ?ys @ drop (Suc i + cnt) ?ys @ drop (length ?ys - cnt) ?ys"
      using "1.IH" [OF True] True by simp
    moreover have "take (Suc i) ?ys = take i xs @ [xs ! (i + cnt)]"
      using True by (simp add: take_Suc_conv_app_nth)
    moreover have "drop (i + cnt) xs = xs ! (i + cnt) # drop (Suc i + cnt) xs"
      using True by (simp add: Cons_nth_drop_Suc)
    ultimately show ?thesis using True by (simp add: shift_loop.simps [of cnt i xs])
  next
    case False
    with "1.prems" have "length xs = i + cnt" by simp
    then show ?thesis by (simp add: shift_loop.simps [of cnt i xs])
  qed
qed

lemma shift_upto_eq:
  assumes "cnt \<le> length xs"
  shows "go_upto (shift_loop cnt 0 xs) (int (length (shift_loop cnt 0 xs)) - int cnt) = Inr (drop cnt xs)"
proof -
  have "shift_loop cnt 0 xs = drop cnt xs @ drop (length xs - cnt) xs"
    using shift_loop_eq [of 0 cnt xs] assms by simp
  with assms show ?thesis by (simp add: go_upto_def)
qed

lemma covered_less: "Logs rf \<noteq> [] \<Longrightarrow> covered rf < length (Logs rf)"
  by (cases "Logs rf") (auto simp: covered_def)

lemma doSnapshot_eq:
  assumes "Logs rf \<noteq> []"
  shows "doSnapshot rf =
    Inr (persist (rf\<lparr>Logs := drop (covered rf) (Logs rf), DiscardCount := lastIncludedIndex rf\<rparr>))"
  using shift_upto_eq [of "covered rf" "Logs rf"] covered_less [OF assms]
  by (simp add: doSnapshot_def covered_loop_covered [OF assms] Let_def)

section \<open>Counting matches and advancing the commit index\<close>

lemma count_loop_True:
  "count_loop rf target cnt js = Inr True \<Longrightarrow> distinct js \<Longrightarrow> me rf \<notin> S \<Longrightarrow> finite S \<Longrightarrow>
   set js \<inter> S = {} \<Longrightarrow> cnt = int (card S) + 1 \<Longrightarrow>
   int (peers rf) < 2 * int (card (insert (me rf) (S \<union> {j \<in> set js. matchIndex rf ! j \<ge> target})))"
proof (induction js arbitrary: cnt S)
  case (Cons j js)
  show ?case
  proof (cases "j = me rf")
    case True
    have "insert (me rf) (S \<union> {i \<in> set (j # js). matchIndex rf ! i \<ge> target}) =
        insert (me rf) (S \<union> {i \<in> set js. matchIndex rf ! i \<ge> target})" using True by auto
    with Cons.IH [of cnt S] Cons.prems True show ?thesis by simp
  next
    case j: False
    from Cons.prems(1) j obtain m where
      m: "go_index (matchIndex rf) (int j) = Inr m" by (auto simp: go_bind_eq_Inr)
    then have mj: "m = matchIndex rf ! j" by (simp add: go_index_eq_Inr)
    show ?thesis
    proof (cases "m \<ge> target")
      case False
      then have "{i \<in> set (j # js). matchIndex rf ! i \<ge> target} = {i \<in> set js. matchIndex rf ! i \<ge> target}"
        using mj by auto
      with Cons.IH [of cnt S] Cons.prems m j False show ?thesis by simp
    next
      case ge: True
      let ?T = "insert j S"
      have T: "me rf \<notin> ?T" "finite ?T" "card ?T = card S + 1"
        using Cons.prems j by auto
      show ?thesis
      proof (cases "cnt + 1 > int (peers rf) - (cnt + 1)")
        case True
        have "card (insert (me rf) ?T) \<le>
            card (insert (me rf) (S \<union> {i \<in> set (j # js). matchIndex rf ! i \<ge> target}))"
          using ge mj Cons.prems(4) by (intro card_mono) auto
        with True T Cons.prems(6) show ?thesis by simp
      next
        case False
        have "?T \<union> {i \<in> set js. matchIndex rf ! i \<ge> target} =
            S \<union> {i \<in> set (j # js). matchIndex rf ! i \<ge> target}" using ge mj by auto
        with Cons.IH [of "cnt + 1" ?T] Cons.prems m j ge False T show ?thesis by simp
      qed
    qed
  qed
qed simp

lemma count_loop_majority:
  assumes "count_loop rf target 1 [0..<peers rf] = Inr True" "me rf < peers rf"
  shows "majority (peers rf) (holders rf target)"
proof -
  have "int (peers rf) < 2 * int (card (insert (me rf) ({} \<union> {j \<in> set [0..<peers rf]. matchIndex rf ! j \<ge> target})))"
    by (rule count_loop_True [OF assms(1)]) auto
  then show ?thesis using assms(2) by (auto simp: majority_def holders_def)
qed

lemma count_loop_total:
  "set js \<subseteq> {..<length (matchIndex rf)} \<Longrightarrow> \<exists>b. count_loop rf target cnt js = Inr b"
  by (induction js arbitrary: cnt) auto

lemma count_loop_False:
  "count_loop rf target cnt js = Inr False \<Longrightarrow> distinct js \<Longrightarrow> 2 * cnt \<le> int (peers rf) \<Longrightarrow>
   2 * (cnt + int (card {j \<in> set js. j \<noteq> me rf \<and> matchIndex rf ! j \<ge> target})) \<le> int (peers rf)"
proof (induction js arbitrary: cnt)
  case (Cons j js)
  let ?A = "{i \<in> set js. i \<noteq> me rf \<and> matchIndex rf ! i \<ge> target}"
  show ?case
  proof (cases "j \<noteq> me rf \<and> matchIndex rf ! j \<ge> target")
    case False
    then have "{i \<in> set (j # js). i \<noteq> me rf \<and> matchIndex rf ! i \<ge> target} = ?A" by auto
    with Cons.IH [of cnt] Cons.prems False show ?thesis
      by (auto simp: go_bind_eq_Inr go_index_eq_Inr split: if_splits)
  next
    case True
    then have "{i \<in> set (j # js). i \<noteq> me rf \<and> matchIndex rf ! i \<ge> target} = insert j ?A" by auto
    moreover have "card (insert j ?A) = card ?A + 1" using Cons.prems(2) by simp
    moreover have "2 * (cnt + 1) \<le> int (peers rf)" "count_loop rf target (cnt + 1) js = Inr False"
      using Cons.prems(1) True by (auto simp: go_bind_eq_Inr go_index_eq_Inr split: if_splits)
    ultimately show ?thesis using Cons.IH [of "cnt + 1"] Cons.prems(2) by simp
  qed
qed simp

lemma count_loop_minority:
  assumes "count_loop rf target 1 [0..<peers rf] = Inr False" "me rf < peers rf" "2 \<le> peers rf"
  shows "\<not> majority (peers rf) (holders rf target)"
proof -
  let ?A = "{j \<in> set [0..<peers rf]. j \<noteq> me rf \<and> matchIndex rf ! j \<ge> target}"
  have "2 * (1 + int (card ?A)) \<le> int (peers rf)"
    using assms by (intro count_loop_False) auto
  moreover have "holders rf target = insert (me rf) ?A" by (auto simp: holders_def)
  moreover have "card (insert (me rf) ?A) = card ?A + 1" by simp
  ultimately show ?thesis by (simp add: majority_def)
qed

lemma commit_loop_result:
  assumes "commit_loop rf low N = Inr res" "me rf < peers rf" "2 \<le> peers rf"
  shows "(res = committedIndex rf \<and>
           (\<forall>M. low \<le> M \<and> M \<le> N \<and> committedIndex rf < RaftIndex rf M
                \<longrightarrow> \<not> majority (peers rf) (holders rf (RaftIndex rf M)))) \<or>
         (\<exists>M. low \<le> M \<and> M \<le> N \<and> res = RaftIndex rf M \<and> committedIndex rf < res \<and>
              majority (peers rf) (holders rf res) \<and>
              (\<forall>M'. M < M' \<and> M' \<le> N \<longrightarrow> \<not> majority (peers rf) (holders rf (RaftIndex rf M'))))"
  using assms
proof (induction rf low N rule: commit_loop.induct)
  case (1 rf low N)
  show ?case
  proof (cases "N \<ge> low \<and> RaftIndex rf N > committedIndex rf")
    case False
    with "1.prems" show ?thesis
      by (auto simp: commit_loop.simps [of rf low N] RaftIndex_def)
  next
    case True
    with "1.prems"(1) obtain ok where
      ok: "count_loop rf (RaftIndex rf N) 1 [0..<peers rf] = Inr ok"
      and res: "(if ok then Inr (RaftIndex rf N) else commit_loop rf low (N - 1)) = Inr res"
      by (auto simp: commit_loop.simps [of rf low N] go_bind_eq_Inr)
    show ?thesis
    proof (cases ok)
      case T: True
      have "majority (peers rf) (holders rf (RaftIndex rf N))"
        using count_loop_majority [of rf "RaftIndex rf N"] ok T "1.prems"(2) by simp
      with True res T show ?thesis by (intro disjI2 exI [of _ N]) auto
    next
      case F: False
      have min: "\<not> majority (peers rf) (holders rf (RaftIndex rf N))"
        using count_loop_minority [of rf "RaftIndex rf N"] ok F "1.prems"(2,3) by simp
      have le: "M \<le> N \<longleftrightarrow> M = N \<or> M \<le> N - 1" for M by linarith
      from res F have "commit_loop rf low (N - 1) = Inr res" by simp
      from "1.IH" [OF True ok F this "1.prems"(2,3)] show ?thesis
        using min unfolding le by blast
    qed
  qed
qed

lemma commit_loop_total:
  "length (matchIndex rf) = peers rf \<Longrightarrow> \<exists>res. commit_loop rf low N = Inr res"
proof (induction rf low N rule: commit_loop.induct)
  case (1 rf low N)
  obtain b where b: "count_loop rf (RaftIndex rf N) 1 [0..<peers rf] = Inr b"
    using count_loop_total [of "[0..<peers rf]" rf "RaftIndex rf N" 1] "1.prems"
    by (auto simp: atLeast0LessThan)
  show ?case
  proof (cases "(N \<ge> low \<and> RaftIndex rf N > committedIndex rf) \<and> \<not> b")
    case True
    with "1.IH" [of b] "1.prems" b show ?thesis by (simp add: commit_loop.simps [of rf low N])
  next
    case False
    with b show ?thesis by (auto simp: commit_loop.simps [of rf low N])
  qed
qed

section \<open>Delivering committed entries\<close>

lemma apply_loop_eq:
  "DiscardCount rf \<le> lastApplied rf \<Longrightarrow>
   committedIndex rf < DiscardCount rf + int (length (Logs rf)) \<Longrightarrow>
   apply_loop rf msgs =
     Inr (msgs @ map (\<lambda>i. command_msg (Command (Logs rf ! nat (RealIndex rf i))) i)
                     [lastApplied rf + 1..committedIndex rf],
          rf\<lparr>lastApplied := max (lastApplied rf) (committedIndex rf)\<rparr>)"
proof (induction rf msgs rule: apply_loop.induct)
  case (1 rf msgs)
  show ?case
  proof (cases "lastApplied rf < committedIndex rf")
    case True
    let ?rf1 = "rf\<lparr>lastApplied := lastApplied rf + 1\<rparr>"
    have ix: "go_index (Logs ?rf1) (RealIndex ?rf1 (lastApplied ?rf1)) =
        Inr (Logs rf ! nat (RealIndex rf (lastApplied rf + 1)))"
      using True "1.prems" by (simp add: RealIndex_def)
    have up: "[lastApplied rf + 1..committedIndex rf] =
        (lastApplied rf + 1) # [lastApplied rf + 1 + 1..committedIndex rf]"
      using True by (simp add: upto_rec1)
    show ?thesis
      using "1.IH" [OF True refl ix] "1.prems" True
      by (simp add: apply_loop.simps [of rf msgs] ix up RealIndex_def del: upto.simps)
  next
    case False
    then show ?thesis by (simp add: apply_loop.simps [of rf msgs])
  qed
qed

end
