(* ===== verification/RaftServer.thy ===== *)
theory RaftServer
  imports RaftLog
begin

text \<open>
  The invariant of one Raft peer and its preservation. \<open>raft_inv n s\<close> holds for peer \<open>s\<close> of \<open>n\<close>:
  its log is non-empty and its terms never decrease and never exceed the current term, the
  replication arrays have one slot per peer, the number of discarded entries is the index of the
  snapshot, a non-follower has voted for itself, and stable storage holds every vote the peer has
  given. For every operation one lemma shows that, on a peer that satisfies the invariant and a
  well-formed request, the operation does not panic and leaves a peer that satisfies it again;
  a second group shows that terms never go back and that a vote, once given, is kept for the
  term.
\<close>

definition log_ok :: "int \<Rightarrow> 'c LogEntry list \<Rightarrow> bool" where
  "log_ok t logs \<longleftrightarrow> logs \<noteq> [] \<and> sorted_terms logs \<and> 0 \<le> Term (hd logs) \<and> Term (last logs) \<le> t"

definition snap_ok :: "int \<Rightarrow> 'x gob \<Rightarrow> bool" where
  "snap_ok i data \<longleftrightarrow> 0 \<le> i \<and> (if data = [] then i = 0 else hd data = GInt i)"

definition storage_ok :: "('c LogEntry list, 'x) Persister \<Rightarrow> bool" where
  "storage_ok ps \<longleftrightarrow>
     (raftstate ps = [] \<or> (\<exists>t v l. raftstate ps = [GInt t, GInt v, GVal l] \<and> log_ok t l)) \<and>
     (\<exists>i. snap_ok i (ps_snapshot ps))"

text \<open>The term and the vote a restarted peer finds in stable storage.\<close>

fun stored_vote :: "'l gob \<Rightarrow> int \<times> int" where
  "stored_vote (GInt t # GInt v # r) = (t, v)"
| "stored_vote _ = (0, Unvote)"

definition durable_vote :: "('c, 'x) raft \<Rightarrow> bool" where
  "durable_vote rf \<longleftrightarrow>
     (case stored_vote (raftstate (persister rf)) of (t, v) \<Rightarrow>
        t \<le> CurrentTerm rf \<and> (t = CurrentTerm rf \<longrightarrow> v = VoteFor rf) \<and>
        (VoteFor rf \<noteq> Unvote \<longrightarrow> t = CurrentTerm rf))"

definition raft_core :: "nat \<Rightarrow> nat \<Rightarrow> ('c, 'x) raft \<Rightarrow> bool" where
  "raft_core n s rf \<longleftrightarrow>
     peers rf = n \<and> me rf = s \<and> s < n \<and> log_ok (CurrentTerm rf) (Logs rf) \<and>
     length (nextIndex rf) = n \<and> length (matchIndex rf) = n \<and>
     DiscardCount rf = lastIncludedIndex rf \<and> snap_ok (lastIncludedIndex rf) (snapshot rf) \<and>
     (identity rf \<noteq> FOLLOWER \<longrightarrow> VoteFor rf = int s)"

definition raft_inv :: "nat \<Rightarrow> nat \<Rightarrow> ('c, 'x) raft \<Rightarrow> bool" where
  "raft_inv n s rf \<longleftrightarrow> raft_core n s rf \<and> storage_ok (persister rf) \<and> durable_vote rf"

text \<open>Requests as a peer that satisfies the invariant sends them.\<close>

fun request_ok :: "('c, 'x) request \<Rightarrow> bool" where
  "request_ok (ReqVote a) = True"
| "request_ok (ReqApply a) =
     (sorted (ae_PrevLogTerm a # map Term (ae_Entries a)) \<and> 0 \<le> ae_PrevLogTerm a \<and>
      (\<forall>t \<in> insert (ae_PrevLogTerm a) (Term ` set (ae_Entries a)). t \<le> ae_Term a))"
| "request_ok (ReqInstall a) =
     (0 \<le> is_LastIncludedTerm a \<and> is_LastIncludedTerm a \<le> is_Term a \<and>
      snap_ok (is_LastIncludedIndex a) (is_Data a))"

text \<open>
  Terms never go back; a vote is kept until the term changes; the stable storage is left alone or
  holds the term and the vote of the new state.
\<close>

definition durable_step :: "('c, 'x) raft \<Rightarrow> ('c, 'x) raft \<Rightarrow> bool" where
  "durable_step rf rf' \<longleftrightarrow>
     raftstate (persister rf') = raftstate (persister rf) \<or>
     stored_vote (raftstate (persister rf')) = (CurrentTerm rf', VoteFor rf')"

definition vote_step :: "('c, 'x) raft \<Rightarrow> ('c, 'x) raft \<Rightarrow> bool" where
  "vote_step rf rf' \<longleftrightarrow>
     CurrentTerm rf \<le> CurrentTerm rf' \<and> durable_step rf rf' \<and>
     (CurrentTerm rf' = CurrentTerm rf \<and> VoteFor rf \<noteq> Unvote \<longrightarrow> VoteFor rf' = VoteFor rf)"

text \<open>A step that gives no vote and wins no election.\<close>

definition quiet_step :: "('c, 'x) raft \<Rightarrow> ('c, 'x) raft \<Rightarrow> bool" where
  "quiet_step rf rf' \<longleftrightarrow>
     CurrentTerm rf \<le> CurrentTerm rf' \<and> durable_step rf rf' \<and>
     VoteFor rf' = (if CurrentTerm rf' = CurrentTerm rf then VoteFor rf else Unvote) \<and>
     (identity rf' \<noteq> FOLLOWER \<longrightarrow> identity rf' = identity rf \<and> CurrentTerm rf' = CurrentTerm rf) \<and>
     votes rf' = votes rf"

section \<open>Writing stable storage\<close>

lemma persist_fields [simp]:
  "peers (persist rf) = peers rf" "me (persist rf) = me rf" "dead (persist rf) = dead rf"
  "CurrentTerm (persist rf) = CurrentTerm rf" "identity (persist rf) = identity rf"
  "VoteFor (persist rf) = VoteFor rf" "Logs (persist rf) = Logs rf"
  "committedIndex (persist rf) = committedIndex rf" "lastApplied (persist rf) = lastApplied rf"
  "nextIndex (persist rf) = nextIndex rf" "matchIndex (persist rf) = matchIndex rf"
  "DiscardCount (persist rf) = DiscardCount rf" "snapshot (persist rf) = snapshot rf"
  "lastIncludedIndex (persist rf) = lastIncludedIndex rf"
  "applySnappending (persist rf) = applySnappending rf" "votes (persist rf) = votes rf"
  by (simp_all add: persist_def Let_def)

lemma persister_persist [simp]:
  "raftstate (persister (persist rf)) = [GInt (CurrentTerm rf), GInt (VoteFor rf), GVal (Logs rf)]"
  "ps_snapshot (persister (persist rf)) = snapshot rf"
  by (simp_all add: persist_def Let_def persist_simps)

lemma durable_step_persist [simp]: "durable_step rf (persist rf')"
  by (simp add: durable_step_def)

lemma durable_step_same [simp]: "persister rf' = persister rf \<Longrightarrow> durable_step rf rf'"
  by (simp add: durable_step_def)

lemma durable_step_votes [simp]: "durable_step rf (rf'\<lparr>votes := v\<rparr>) = durable_step rf rf'"
  by (simp add: durable_step_def)

lemma raft_inv_persist: "raft_core n s rf \<Longrightarrow> raft_inv n s (persist rf)"
  by (auto simp: raft_inv_def raft_core_def storage_ok_def durable_vote_def)

lemma raft_inv_core: "raft_inv n s rf \<Longrightarrow> raft_core n s rf"
  by (simp add: raft_inv_def)

lemma raft_inv_simps:
  assumes "raft_inv n s rf"
  shows "peers rf = n" "me rf = s" "s < n" "log_ok (CurrentTerm rf) (Logs rf)"
    "length (nextIndex rf) = n" "length (matchIndex rf) = n"
    "DiscardCount rf = lastIncludedIndex rf"
  using assms by (auto simp: raft_inv_def raft_core_def)

lemma log_okD:
  assumes "log_ok t logs"
  shows "logs \<noteq> []" "sorted_terms logs" "0 \<le> Term (hd logs)" "Term (last logs) \<le> t"
  using assms by (auto simp: log_ok_def)

lemma log_ok_term_bounds:
  assumes "log_ok t logs" "e \<in> set logs"
  shows "0 \<le> Term e" "Term e \<le> t"
proof -
  from assms(2) obtain i where i: "i < length logs" "e = logs ! i" by (auto simp: in_set_conv_nth)
  have s: "sorted_terms logs" and ne: "logs \<noteq> []" using assms(1) by (auto dest: log_okD)
  have "Term (logs ! 0) \<le> Term (logs ! i)"
    using sorted_nth_mono [OF s, of 0 i] i ne by simp
  then show "0 \<le> Term e" using log_okD(3) [OF assms(1)] i ne by (simp add: hd_conv_nth)
  have "Term (logs ! i) \<le> Term (logs ! (length logs - 1))"
    using sorted_nth_mono [OF s, of i "length logs - 1"] i by simp
  then show "Term e \<le> t" using log_okD(4) [OF assms(1)] i ne by (simp add: last_conv_nth)
qed

lemma log_okI:
  assumes "logs \<noteq> []" "sorted_terms logs" "\<And>e. e \<in> set logs \<Longrightarrow> 0 \<le> Term e \<and> Term e \<le> t"
  shows "log_ok t logs"
  using assms by (simp add: log_ok_def)

lemma log_ok_nonneg: "log_ok t logs \<Longrightarrow> 0 \<le> t"
  using log_ok_term_bounds [of t logs "hd logs"] by (auto dest: log_okD)

lemma log_ok_mono: "log_ok t logs \<Longrightarrow> t \<le> u \<Longrightarrow> log_ok u logs"
  by (auto simp: log_ok_def)

lemma log_ok_drop: "log_ok t logs \<Longrightarrow> k < length logs \<Longrightarrow> log_ok t (drop k logs)"
  by (rule log_okI) (auto simp: drop_map [symmetric] sorted_wrt_drop dest: log_okD in_set_dropD log_ok_term_bounds)

lemma log_ok_snoc:
  assumes "log_ok t logs" shows "log_ok t (logs @ [\<lparr>Command = c, Term = t\<rparr>])"
  using assms log_ok_term_bounds [OF assms] log_ok_nonneg [OF assms] log_okD [OF assms]
  by (intro log_okI) (auto simp: sorted_append)

lemma quiet_step_refl [simp]: "quiet_step rf rf"
  by (simp add: quiet_step_def)

lemma quiet_vote_step: "quiet_step rf rf' \<Longrightarrow> vote_step rf rf'"
  by (auto simp: quiet_step_def vote_step_def)

lemma quiet_step_left:
  assumes "quiet_step rf0 rf'" "persister rf0 = persister rf" "CurrentTerm rf0 = CurrentTerm rf"
    and "VoteFor rf0 = VoteFor rf" "identity rf0 = identity rf" "votes rf0 = votes rf"
  shows "quiet_step rf rf'"
  using assms by (auto simp: quiet_step_def durable_step_def)

section \<open>Requests\<close>

lemma RequestVote_inv:
  assumes inv: "raft_inv n s rf"
  shows "\<exists>reply rf'. RequestVote args rf = Inr (reply, rf') \<and> raft_inv n s rf' \<and> vote_step rf rf' \<and>
    votes rf' = votes rf \<and>
    (identity rf' \<noteq> FOLLOWER \<longrightarrow> identity rf' = identity rf \<and> CurrentTerm rf' = CurrentTerm rf) \<and>
    (if rvr_VoteGranted reply
     then rvr_Term reply = rv_Term args \<and> CurrentTerm rf' = rv_Term args \<and>
          VoteFor rf' = rv_CandidateId args
     else quiet_step rf rf')"
proof (cases "rv_Term args < CurrentTerm rf \<or>
    (rv_Term args = CurrentTerm rf \<and> VoteFor rf \<noteq> Unvote \<and> VoteFor rf \<noteq> rv_CandidateId args)")
  case True
  then show ?thesis
    using raft_inv_persist [OF raft_inv_core [OF inv]]
    by (simp add: RequestVote_def vote_step_def quiet_step_def)
next
  case False
  define rf1 where "rf1 = (if rv_Term args > CurrentTerm rf
      then rf\<lparr>CurrentTerm := rv_Term args, identity := FOLLOWER, VoteFor := Unvote\<rparr> else rf)"
  from False have fresh: "CurrentTerm rf1 = rv_Term args"
    "VoteFor rf1 = Unvote \<or> VoteFor rf1 = rv_CandidateId args" by (auto simp: rf1_def)
  have core: "raft_core n s rf1" and q: "quiet_step rf rf1"
    using raft_inv_core [OF inv] False
    by (auto simp: rf1_def raft_core_def quiet_step_def intro: log_ok_mono)
  have ne: "Logs rf1 \<noteq> []" using core by (auto simp: raft_core_def dest: log_okD)
  let ?grant = "rf1\<lparr>CurrentTerm := rv_Term args, identity := FOLLOWER, VoteFor := rv_CandidateId args\<rparr>"
  have g: "raft_core n s ?grant" using core fresh(1) by (simp add: raft_core_def)
  have "RequestVote args rf =
      (if rv_LastLogTerm args > Term (last (Logs rf1)) \<or> (rv_LastLogTerm args = Term (last (Logs rf1)) \<and>
           rv_LastLogIndex args \<ge> RaftIndex rf1 (int (length (Logs rf1)) - 1))
       then Inr (\<lparr>rvr_Term = CurrentTerm rf1, rvr_VoteGranted = True\<rparr>, persist ?grant)
       else Inr (\<lparr>rvr_Term = CurrentTerm rf1, rvr_VoteGranted = False\<rparr>, persist rf1))"
    unfolding RequestVote_def if_not_P [OF False] Let_def rf1_def [symmetric] go_index_last [OF ne]
    by simp
  moreover have "vote_step rf (persist ?grant)" "votes ?grant = votes rf"
    using q fresh by (auto simp: vote_step_def quiet_step_def)
  ultimately show ?thesis
    using raft_inv_persist [OF core] raft_inv_persist [OF g] q fresh quiet_vote_step [OF q]
    by (auto simp: quiet_step_def vote_step_def)
qed

lemma ReplicateCheck_eq:
  assumes "Logs rf \<noteq> []" "DiscardCount rf = lastIncludedIndex rf"
  shows "ReplicateCheck args rf =
    Inr (let k = ae_PrevLogIndex args - DiscardCount rf
         in 0 \<le> k \<and> k < int (length (Logs rf)) \<and> Term (Logs rf ! nat k) = ae_PrevLogTerm args)"
  using assms by (auto simp: ReplicateCheck_def RealIndex_def Let_def)

lemma first_geq_self:
  assumes "sorted_terms logs" "i < length logs"
  shows "first_geq (Term (logs ! i)) logs < length logs"
    "Term (logs ! first_geq (Term (logs ! i)) logs) = Term (logs ! i)"
    "first_geq (Term (logs ! i)) logs \<le> i"
proof -
  let ?t = "Term (logs ! i)" and ?f = "first_geq (Term (logs ! i)) logs"
  show f: "?f \<le> i" using first_geq_less_iff [OF assms, of ?t] by auto
  then show l: "?f < length logs" using assms by simp
  have "?t \<le> Term (logs ! ?f)" by (rule first_geq_term_ge [OF assms(1) l])
  moreover have "Term (logs ! ?f) \<le> ?t"
    using sorted_nth_mono [OF assms(1), of ?f i] f assms(2) l by simp
  ultimately show "Term (logs ! ?f) = ?t" by simp
qed

text \<open>The state in which \<open>ApplyEntries\<close> and \<open>InstallSnapshot\<close> go on after the term check.\<close>

definition adopt_term :: "int \<Rightarrow> ('c, 'x) raft \<Rightarrow> ('c, 'x) raft" where
  "adopt_term t rf =
     (if CurrentTerm rf < t then rf\<lparr>identity := FOLLOWER, CurrentTerm := t, VoteFor := Unvote\<rparr>
      else rf\<lparr>identity := FOLLOWER\<rparr>)"

lemma adopt_term_fields [simp]:
  "peers (adopt_term t rf) = peers rf" "me (adopt_term t rf) = me rf" "dead (adopt_term t rf) = dead rf"
  "identity (adopt_term t rf) = FOLLOWER" "Logs (adopt_term t rf) = Logs rf"
  "committedIndex (adopt_term t rf) = committedIndex rf" "lastApplied (adopt_term t rf) = lastApplied rf"
  "nextIndex (adopt_term t rf) = nextIndex rf" "matchIndex (adopt_term t rf) = matchIndex rf"
  "DiscardCount (adopt_term t rf) = DiscardCount rf" "snapshot (adopt_term t rf) = snapshot rf"
  "lastIncludedIndex (adopt_term t rf) = lastIncludedIndex rf" "votes (adopt_term t rf) = votes rf"
  "applySnappending (adopt_term t rf) = applySnappending rf" "persister (adopt_term t rf) = persister rf"
  "CurrentTerm (adopt_term t rf) = max (CurrentTerm rf) t"
  by (simp_all add: adopt_term_def)

lemma adopt_term_inv:
  assumes "raft_inv n s rf"
  shows "raft_inv n s (adopt_term t rf)" "quiet_step rf (adopt_term t rf)"
proof -
  show "quiet_step rf (adopt_term t rf)" by (auto simp: quiet_step_def adopt_term_def)
  show "raft_inv n s (adopt_term t rf)"
    using assms
    by (auto simp: raft_inv_def raft_core_def durable_vote_def adopt_term_def intro: log_ok_mono)
qed

lemma log_ok_merge:
  assumes log: "log_ok t logs" and k: "0 < k" "k \<le> length logs"
    and prev: "Term (logs ! (k - 1)) = pt"
    and es: "sorted (pt # map Term es)" "\<And>e. e \<in> set es \<Longrightarrow> Term e \<le> t"
  shows "log_ok t (take k logs @ merge_entries (drop k logs) es)"
proof (rule log_okI)
  let ?pre = "take k logs"
  have srt: "sorted_terms logs" using log by (rule log_okD)
  have pre: "?pre = take (k - 1) logs @ [logs ! (k - 1)]"
    using k take_Suc_conv_app_nth [of "k - 1" logs] by simp
  have "sorted_terms ?pre" using srt by (simp add: take_map [symmetric] sorted_wrt_take)
  moreover have "\<forall>x \<in> set ?pre. \<forall>e \<in> set es. Term x \<le> Term e"
  proof (intro ballI)
    fix x e assume x: "x \<in> set ?pre" and e: "e \<in> set es"
    from x obtain i where i: "i < k" "i < length logs" "x = logs ! i"
      by (auto simp: in_set_conv_nth)
    then have "Term x \<le> Term (logs ! (k - 1))"
      using sorted_nth_mono [OF srt, of i "k - 1"] k by simp
    also have "\<dots> \<le> Term e" using es(1) e prev by auto
    finally show "Term x \<le> Term e" .
  qed
  ultimately have "sorted_terms (?pre @ es)" using es(1) by (auto simp: sorted_append)
  moreover have "sorted_terms (?pre @ drop k logs)" using srt by simp
  ultimately show "sorted_terms (?pre @ merge_entries (drop k logs) es)"
    by (intro sorted_terms_merge)
  have pt: "0 \<le> pt" using log_ok_term_bounds(1) [OF log, of "logs ! (k - 1)"] prev k by simp
  fix e assume "e \<in> set (?pre @ merge_entries (drop k logs) es)"
  then have "e \<in> set logs \<or> e \<in> set es"
    using set_merge_entries [of "drop k logs" es] by (auto dest: in_set_takeD in_set_dropD)
  then show "0 \<le> Term e \<and> Term e \<le> t"
    using log_ok_term_bounds [OF log] es pt by (fastforce intro: order_trans)
qed (use k in auto)

text \<open>
  What \<open>ApplyEntries\<close> does, branch by branch, with its loops replaced by what they compute.
  \<open>prev_pos\<close> is the position of the previous entry in the peer's slice.
\<close>

definition prev_pos :: "'c ApplyEntriesArgs \<Rightarrow> ('c, 'x) raft \<Rightarrow> int" where
  "prev_pos args rf = ae_PrevLogIndex args - DiscardCount rf"

definition matches_prev :: "'c ApplyEntriesArgs \<Rightarrow> ('c, 'x) raft \<Rightarrow> bool" where
  "matches_prev args rf \<longleftrightarrow>
     0 \<le> prev_pos args rf \<and> prev_pos args rf < int (length (Logs rf)) \<and>
     Term (Logs rf ! nat (prev_pos args rf)) = ae_PrevLogTerm args"

definition blank_reply :: "int \<Rightarrow> ApplyEntriesReply" where
  "blank_reply t = \<lparr>aer_Term = t, aer_Success = False, aer_XTerm = 0, aer_XIndex = 0, aer_XLen = 0\<rparr>"

lemma adopt_term_fold:
  "(if CurrentTerm (rf\<lparr>identity := FOLLOWER\<rparr>) < t
    then rf\<lparr>identity := FOLLOWER, CurrentTerm := t, VoteFor := Unvote\<rparr>
    else rf\<lparr>identity := FOLLOWER\<rparr>) = adopt_term t rf"
  by (simp add: adopt_term_def)

lemma ApplyEntries_stale:
  "ae_Term args < CurrentTerm rf \<Longrightarrow>
   ApplyEntries args rf = Inr (blank_reply (CurrentTerm rf), persist rf)"
  by (simp add: ApplyEntries_def blank_reply_def)

lemma ApplyEntries_mismatch:
  assumes "CurrentTerm rf \<le> ae_Term args" "\<not> matches_prev args rf"
    and "Logs rf \<noteq> []" "sorted_terms (Logs rf)" "DiscardCount rf = lastIncludedIndex rf"
  shows "ApplyEntries args rf =
    (let k = prev_pos args rf; n = int (length (Logs rf)); reply = blank_reply (ae_Term args)
     in Inr (if k < 0 then reply\<lparr>aer_Success := True\<rparr>
             else if n \<le> k then reply\<lparr>aer_XIndex := InvalidIndex, aer_XLen := RaftIndex rf n\<rparr>
             else reply\<lparr>aer_XTerm := Term (Logs rf ! nat k),
                        aer_XIndex := RaftIndex rf (int (first_geq (Term (Logs rf ! nat k)) (Logs rf))),
                        aer_XLen := RaftIndex rf n\<rparr>,
             persist (adopt_term (ae_Term args) rf)))"
proof -
  let ?rf1 = "adopt_term (ae_Term args) rf"
  have chk: "ReplicateCheck args ?rf1 = Inr False"
    using ReplicateCheck_eq [of ?rf1 args] assms
    by (auto simp: matches_prev_def prev_pos_def Let_def)
  have ns: "\<not> ae_Term args < CurrentTerm rf" using assms(1) by simp
  have ff: "findFirstIndex t ?rf1 = Inr (int (first_geq t (Logs rf)))" for t
    using findFirstIndex_eq [of ?rf1 t] assms by simp
  have pos: "RealIndex ?rf1 (ae_PrevLogIndex args) = prev_pos args rf"
    by (simp add: RealIndex_def prev_pos_def)
  have "go_index (Logs rf) (int (first_geq (Term (Logs rf ! nat k)) (Logs rf))) =
      Inr (Logs rf ! first_geq (Term (Logs rf ! nat k)) (Logs rf))"
    if "0 \<le> k" "k < int (length (Logs rf))" for k
    using first_geq_self [OF assms(4), of "nat k"] that by simp
  moreover have "nat (prev_pos args rf) < length (Logs rf)"
    if "prev_pos args rf < int (length (Logs rf))"
    using that assms(3) length_greater_0_conv [of "Logs rf"] by linarith
  ultimately show ?thesis
    using first_geq_self [OF assms(4), of "nat (prev_pos args rf)"] ns assms(1)
    unfolding ApplyEntries_def Let_def adopt_term_fold chk pos
    by (auto simp: ff blank_reply_def RaftIndex_def not_le)
qed

lemma ApplyEntries_match:
  assumes "CurrentTerm rf \<le> ae_Term args" "matches_prev args rf"
    and "DiscardCount rf = lastIncludedIndex rf"
  shows "ApplyEntries args rf =
    (let k = nat (prev_pos args rf) + 1; raftindex = ae_PrevLogIndex args + 1;
         lastIndex = RaftIndex rf (int (length (Logs rf)) - 1);
         bound = (if ae_Entries args \<noteq> [] then raftindex else lastIndex)
     in Inr ((blank_reply (ae_Term args))\<lparr>aer_Success := True\<rparr>,
         persist ((adopt_term (ae_Term args) rf)
           \<lparr>Logs := take k (Logs rf) @ merge_entries (drop k (Logs rf)) (ae_Entries args),
            committedIndex := (if committedIndex rf < ae_LeaderCommit args
                               then min (ae_LeaderCommit args) bound else committedIndex rf)\<rparr>)))"
proof -
  let ?rf1 = "adopt_term (ae_Term args) rf" and ?k = "nat (prev_pos args rf) + 1"
  have k: "0 \<le> prev_pos args rf" "?k \<le> length (Logs rf)" using assms(2) by (auto simp: matches_prev_def)
  then have ne: "Logs rf \<noteq> []" by auto
  have chk: "ReplicateCheck args ?rf1 = Inr True"
    using ReplicateCheck_eq [of ?rf1 args] assms ne
    by (auto simp: matches_prev_def prev_pos_def Let_def)
  have ns: "\<not> ae_Term args < CurrentTerm rf" using assms(1) by simp
  have pos: "RealIndex ?rf1 (ae_PrevLogIndex args + 1) = int ?k"
    using k by (simp add: RealIndex_def prev_pos_def)
  note loops = merge_loops_eq [OF k(2), of "ae_Entries args"]
  show ?thesis
  proof (cases "ae_Entries args = []")
    case True
    with ns assms(1) show ?thesis
      unfolding ApplyEntries_def Let_def adopt_term_fold chk
      by (auto simp: blank_reply_def RaftIndex_def min_def)
  next
    case False
    from loops obtain cut where "conflict_loop (int ?k) (Logs rf) (ae_Entries args) = Inr cut"
      "copy_loop (int ?k) cut (ae_Entries args) =
        Inr (take ?k (Logs rf) @ merge_entries (drop ?k (Logs rf)) (ae_Entries args))"
      by (auto simp: go_bind_eq_Inr)
    with False ns assms(1) show ?thesis
      unfolding ApplyEntries_def Let_def adopt_term_fold chk pos
      by (auto simp: blank_reply_def min_def)
  qed
qed

lemma ApplyEntries_inv:
  assumes inv: "raft_inv n s rf" and ok: "request_ok (ReqApply args)"
  shows "\<exists>reply rf'. ApplyEntries args rf = Inr (reply, rf') \<and> raft_inv n s rf' \<and> quiet_step rf rf' \<and>
    (aer_Success reply \<longrightarrow> aer_Term reply = ae_Term args)"
proof (cases "ae_Term args < CurrentTerm rf")
  case True
  then show ?thesis
    using raft_inv_persist [OF raft_inv_core [OF inv]]
    by (simp add: ApplyEntries_stale blank_reply_def quiet_step_def)
next
  case False
  let ?rf1 = "adopt_term (ae_Term args) rf"
  have inv1: "raft_inv n s ?rf1" and q: "quiet_step rf ?rf1"
    using adopt_term_inv [OF inv] by blast+
  note log = raft_inv_simps(4) [OF inv1] and log0 = log_okD [OF raft_inv_simps(4) [OF inv]]
  show ?thesis
  proof (cases "matches_prev args rf")
    case m: False
    have "quiet_step rf (persist ?rf1)" using q by (simp add: quiet_step_def)
    with ApplyEntries_mismatch [OF _ m log0(1,2) raft_inv_simps(7) [OF inv]] False
      raft_inv_persist [OF raft_inv_core [OF inv1]]
    show ?thesis by (auto simp: Let_def blank_reply_def)
  next
    case m: True
    let ?k = "nat (prev_pos args rf) + 1"
    let ?logs = "take ?k (Logs rf) @ merge_entries (drop ?k (Logs rf)) (ae_Entries args)"
    have "log_ok (CurrentTerm ?rf1) ?logs"
    proof (rule log_ok_merge)
      show "log_ok (CurrentTerm ?rf1) (Logs rf)" using log by simp
      show "Term (Logs rf ! (?k - 1)) = ae_PrevLogTerm args" "?k \<le> length (Logs rf)"
        using m by (auto simp: matches_prev_def)
      show "Term e \<le> CurrentTerm ?rf1" if "e \<in> set (ae_Entries args)" for e
        using ok that by (auto intro: le_max_iff_disj [THEN iffD2])
    qed (use ok in auto)
    then have "raft_core n s (?rf1\<lparr>Logs := ?logs, committedIndex := c\<rparr>)" for c
      using raft_inv_core [OF inv1] by (simp add: raft_core_def)
    then have "raft_inv n s (persist (?rf1\<lparr>Logs := ?logs, committedIndex := c\<rparr>))" for c
      by (rule raft_inv_persist)
    moreover have "quiet_step rf (persist (?rf1\<lparr>Logs := ?logs, committedIndex := c\<rparr>))" for c
      using q by (simp add: quiet_step_def)
    ultimately show ?thesis
      using ApplyEntries_match [OF _ m raft_inv_simps(7) [OF inv]] False
      by (auto simp: Let_def blank_reply_def)
  qed
qed

section \<open>Snapshots\<close>

text \<open>Trimming keeps the invariant when the snapshot fields are already those of the new snapshot.\<close>

lemma doSnapshot_inv:
  assumes "peers rf = n" "me rf = s" "s < n" "log_ok (CurrentTerm rf) (Logs rf)"
    and "length (nextIndex rf) = n" "length (matchIndex rf) = n"
    and "snap_ok (lastIncludedIndex rf) (snapshot rf)"
    and "identity rf \<noteq> FOLLOWER \<longrightarrow> VoteFor rf = int s"
  shows "\<exists>rf'. doSnapshot rf = Inr rf' \<and> raft_inv n s rf' \<and> quiet_step rf rf' \<and>
    Logs rf' = drop (covered rf) (Logs rf)"
proof -
  have ne: "Logs rf \<noteq> []" using assms(4) by (rule log_okD)
  let ?rf' = "rf\<lparr>Logs := drop (covered rf) (Logs rf), DiscardCount := lastIncludedIndex rf\<rparr>"
  have "raft_core n s ?rf'"
    using assms log_ok_drop [OF assms(4) covered_less [OF ne]] by (simp add: raft_core_def)
  then show ?thesis
    using raft_inv_persist by (auto simp: doSnapshot_eq [OF ne] quiet_step_def)
qed

lemma Snapshot_inv:
  assumes "raft_inv n s rf" "snap_ok index snap"
  shows "\<exists>rf'. Snapshot index snap rf = Inr rf' \<and> raft_inv n s rf' \<and> quiet_step rf rf'"
proof (cases "index \<le> lastIncludedIndex rf")
  case True
  with assms show ?thesis by (simp add: Snapshot_def)
next
  case False
  let ?rf1 = "if committedIndex rf \<le> index then rf\<lparr>committedIndex := index\<rparr> else rf"
  let ?rf2 = "if lastApplied ?rf1 \<le> index then ?rf1\<lparr>lastApplied := index\<rparr> else ?rf1"
  let ?rf3 = "?rf2\<lparr>lastIncludedIndex := index, snapshot := snap\<rparr>"
  have "\<exists>rf'. doSnapshot ?rf3 = Inr rf' \<and> raft_inv n s rf' \<and> quiet_step ?rf3 rf' \<and>
      Logs rf' = drop (covered ?rf3) (Logs ?rf3)"
    using assms raft_inv_core [OF assms(1)] by (intro doSnapshot_inv) (auto simp: raft_core_def)
  then obtain rf' where rf': "doSnapshot ?rf3 = Inr rf'" "raft_inv n s rf'" "quiet_step ?rf3 rf'"
    by blast
  have "quiet_step rf rf'" by (rule quiet_step_left [OF rf'(3)]) simp_all
  with False rf' show ?thesis by (simp add: Snapshot_def Let_def)
qed

lemma InstallSnapshot_inv:
  assumes inv: "raft_inv n s rf" and ok: "request_ok (ReqInstall args)"
  shows "\<exists>reply rf'. InstallSnapshot args rf = Inr (reply, rf') \<and> raft_inv n s rf' \<and> quiet_step rf rf'"
proof (cases "is_Term args < CurrentTerm rf")
  case True
  with inv show ?thesis by (simp add: InstallSnapshot_def)
next
  case False
  let ?rf1 = "adopt_term (is_Term args) rf"
  have inv1: "raft_inv n s ?rf1" and q: "quiet_step rf ?rf1" using adopt_term_inv [OF inv] by blast+
  show ?thesis
  proof (cases "lastIncludedIndex rf \<ge> is_LastIncludedIndex args")
    case True
    with False inv1 q show ?thesis
      unfolding InstallSnapshot_def Let_def adopt_term_fold by simp
  next
    case new: False
    define rf2 where "rf2 = ?rf1\<lparr>lastIncludedIndex := is_LastIncludedIndex args, snapshot := is_Data args\<rparr>"
    define keep where "keep = (RealIndex rf2 (is_LastIncludedIndex args) > 0 \<and>
      RealIndex rf2 (is_LastIncludedIndex args) < int (length (Logs rf2)) \<and>
      Term (Logs rf2 ! nat (RealIndex rf2 (is_LastIncludedIndex args))) = is_LastIncludedTerm args)"
    define rf3 where "rf3 = (if keep then rf2
      else rf2\<lparr>Logs := [\<lparr>Command = None, Term = is_LastIncludedTerm args\<rparr>]\<rparr>)"
    have "\<exists>rf'. doSnapshot rf3 = Inr rf' \<and> raft_inv n s rf' \<and> quiet_step rf3 rf' \<and>
        Logs rf' = drop (covered rf3) (Logs rf3)"
      using raft_inv_core [OF inv1] ok
      by (intro doSnapshot_inv) (auto simp: rf3_def rf2_def raft_core_def log_ok_def)
    then obtain rf4 where rf4: "doSnapshot rf3 = Inr rf4" "raft_inv n s rf4" "quiet_step rf3 rf4"
      by blast
    have "InstallSnapshot args rf =
        Inr (\<lparr>isr_Term = CurrentTerm ?rf1\<rparr>, rf4\<lparr>applySnappending := True\<rparr>)"
      using False new rf4(1)
      unfolding InstallSnapshot_def Let_def adopt_term_fold rf2_def [symmetric] keep_def [symmetric]
        rf3_def [symmetric] by simp
    moreover have "raft_inv n s (rf4\<lparr>applySnappending := True\<rparr>)"
      using rf4(2) by (simp add: raft_inv_def raft_core_def durable_vote_def)
    moreover have "durable_step rf (rf4\<lparr>applySnappending := True\<rparr>)"
      using rf4(3) by (auto simp: rf3_def rf2_def quiet_step_def durable_step_def split: if_splits)
    then have "quiet_step rf (rf4\<lparr>applySnappending := True\<rparr>)"
      using q rf4(3) by (auto simp: rf3_def rf2_def quiet_step_def split: if_splits)
    ultimately show ?thesis by blast
  qed
qed

section \<open>Replies\<close>

lemma stepDown_inv:
  assumes "raft_inv n s rf" "CurrentTerm rf < t"
  shows "raft_inv n s (stepDown t rf)" "quiet_step rf (stepDown t rf)"
proof -
  show "raft_inv n s (stepDown t rf)"
    using raft_inv_core [OF assms(1)] assms(2)
    unfolding stepDown_def by (intro raft_inv_persist) (auto simp: raft_core_def intro: log_ok_mono)
  show "quiet_step rf (stepDown t rf)" using assms(2) by (simp add: stepDown_def quiet_step_def)
qed

text \<open>Changing only the replication arrays or the commit index is no concern of the invariant.\<close>

lemma raft_inv_arrays:
  assumes "raft_inv n s rf" "length nx = n" "length mx = n"
  shows "raft_inv n s (rf\<lparr>matchIndex := mx, nextIndex := nx\<rparr>)"
    "raft_inv n s (rf\<lparr>nextIndex := nx\<rparr>)"
  using assms by (auto simp: raft_inv_def raft_core_def durable_vote_def)

lemma raft_inv_committedIndex: "raft_inv n s rf \<Longrightarrow> raft_inv n s (rf\<lparr>committedIndex := c\<rparr>)"
  by (simp add: raft_inv_def raft_core_def durable_vote_def)

lemma setNextIndex_inv:
  assumes "raft_inv n s rf" "d < n"
  shows "\<exists>rf'. setNextIndex d v rf = Inr rf' \<and> raft_inv n s rf' \<and> quiet_step rf rf'"
  using assms raft_inv_arrays(2) [OF assms(1), of "(nextIndex rf)[d := v]"] raft_inv_simps [OF assms(1)]
  by (simp add: setNextIndex_def go_store_def quiet_step_def)

lemma sendInstallSnapshotTo_inv:
  assumes "raft_inv n s rf" "d < n"
  shows "\<exists>rf'. sendInstallSnapshotTo d args reply rf = Inr rf' \<and> raft_inv n s rf' \<and> quiet_step rf rf'"
proof -
  note [simp] = raft_inv_simps [OF assms(1)]
  have "raft_inv n s (rf\<lparr>matchIndex := (matchIndex rf)[d := i], nextIndex := (nextIndex rf)[d := j]\<rparr>)" for i j
    by (intro raft_inv_arrays [OF assms(1)]) simp_all
  with assms stepDown_inv [OF assms(1)] show ?thesis
    by (auto simp: sendInstallSnapshotTo_def Let_def go_store_def quiet_step_def)
qed

text \<open>
  The entry at position \<open>i\<close> may be committed: it is of the current term, not yet committed, and a
  majority is known to hold it.
\<close>

definition commit_ready :: "('c, 'x) raft \<Rightarrow> nat \<Rightarrow> bool" where
  "commit_ready rf i \<longleftrightarrow>
     i < length (Logs rf) \<and> Term (Logs rf ! i) = CurrentTerm rf \<and>
     committedIndex rf < RaftIndex rf (int i) \<and>
     majority (peers rf) (holders rf (RaftIndex rf (int i)))"

lemma term_range:
  assumes "sorted_terms logs" "i < length logs"
  shows "Term (logs ! i) = t \<longleftrightarrow> first_geq t logs \<le> i \<and> i < first_geq (t + 1) logs"
  using first_geq_less_iff [OF assms, of t] first_geq_less_iff [OF assms, of "t + 1"] by linarith

lemma updateCommittedIndex_unfold:
  assumes inv: "raft_inv n s rf"
  shows "(\<exists>res. commit_loop rf (int (first_geq (CurrentTerm rf) (Logs rf)))
            (int (first_geq (CurrentTerm rf + 1) (Logs rf)) - 1) = Inr res \<and>
          updateCommittedIndex rf = Inr (rf\<lparr>committedIndex := res\<rparr>)) \<or>
         ((\<forall>i < length (Logs rf). Term (Logs rf ! i) \<noteq> CurrentTerm rf) \<and> updateCommittedIndex rf = Inr rf)"
proof -
  note log = log_okD [OF raft_inv_simps(4) [OF inv]]
  note ff = findFirstIndex_eq [OF log(2,1)]
  let ?l = "first_geq (CurrentTerm rf) (Logs rf)" and ?h = "first_geq (CurrentTerm rf + 1) (Logs rf)"
  have hb: "?h \<le> length (Logs rf)" and lb: "?l \<le> length (Logs rf)" by (rule first_geq_le)+
  show ?thesis
  proof (cases "?l < length (Logs rf) \<and> Term (Logs rf ! ?l) = CurrentTerm rf")
    case False
    then have "\<forall>i < length (Logs rf). Term (Logs rf ! i) \<noteq> CurrentTerm rf"
      using first_geq_self [OF log(2)] by metis
    moreover have "updateCommittedIndex rf = Inr rf"
      using False lb by (cases "?l = length (Logs rf)") (simp_all add: updateCommittedIndex_def ff)
    ultimately show ?thesis by blast
  next
    case True
    then have lh: "?l < ?h" using term_range [OF log(2), of ?l] by blast
    have last: "go_index (Logs rf) (int ?h - 1) = Inr (Logs rf ! (?h - 1))"
      using lh hb by (simp add: go_index_def nat_diff_distrib)
    have "Term (Logs rf ! (?h - 1)) = CurrentTerm rf"
      using term_range [OF log(2), of "?h - 1"] lh hb by simp
    moreover obtain res where res: "commit_loop rf (int ?l) (int ?h - 1) = Inr res"
      using commit_loop_total [of rf] raft_inv_simps [OF inv] by auto
    ultimately have "updateCommittedIndex rf = Inr (rf\<lparr>committedIndex := res\<rparr>)"
      using True lh last by (auto simp: updateCommittedIndex_def ff)
    with res show ?thesis by blast
  qed
qed

lemma updateCommittedIndex_spec:
  assumes inv: "raft_inv n s rf" and n: "2 \<le> n"
  shows "\<exists>res. updateCommittedIndex rf = Inr (rf\<lparr>committedIndex := res\<rparr>) \<and>
    ((res = committedIndex rf \<and> (\<forall>i. \<not> commit_ready rf i)) \<or>
     (\<exists>i. commit_ready rf i \<and> res = RaftIndex rf (int i) \<and> (\<forall>j. commit_ready rf j \<longrightarrow> j \<le> i)))"
  using updateCommittedIndex_unfold [OF inv]
proof (elim disjE exE conjE)
  assume none: "\<forall>i < length (Logs rf). Term (Logs rf ! i) \<noteq> CurrentTerm rf"
    and eq: "updateCommittedIndex rf = Inr rf"
  then show ?thesis by (intro exI [of _ "committedIndex rf"]) (auto simp: commit_ready_def)
next
  fix res
  let ?l = "first_geq (CurrentTerm rf) (Logs rf)" and ?h = "first_geq (CurrentTerm rf + 1) (Logs rf)"
  assume loop: "commit_loop rf (int ?l) (int ?h - 1) = Inr res"
    and eq: "updateCommittedIndex rf = Inr (rf\<lparr>committedIndex := res\<rparr>)"
  have srt: "sorted_terms (Logs rf)" using raft_inv_simps(4) [OF inv] by (rule log_okD)
  have hb: "?h \<le> length (Logs rf)" by (rule first_geq_le)
  have ready: "commit_ready rf i \<longleftrightarrow> int ?l \<le> int i \<and> int i \<le> int ?h - 1 \<and>
      committedIndex rf < RaftIndex rf (int i) \<and> majority n (holders rf (RaftIndex rf (int i)))" for i
    using term_range [OF srt, of i "CurrentTerm rf"] hb raft_inv_simps [OF inv]
    by (auto simp: commit_ready_def)
  have "me rf < peers rf" "2 \<le> peers rf" using raft_inv_simps [OF inv] n by auto
  from commit_loop_result [OF loop this] show ?thesis
  proof (elim disjE conjE exE)
    assume "res = committedIndex rf"
      "\<forall>M. int ?l \<le> M \<and> M \<le> int ?h - 1 \<and> committedIndex rf < RaftIndex rf M
         \<longrightarrow> \<not> majority (peers rf) (holders rf (RaftIndex rf M))"
    with eq show ?thesis using raft_inv_simps(1) [OF inv] ready by blast
  next
    fix M
    assume M: "int ?l \<le> M" "M \<le> int ?h - 1" "res = RaftIndex rf M" "committedIndex rf < res"
      "majority (peers rf) (holders rf res)"
      and max: "\<forall>M'. M < M' \<and> M' \<le> int ?h - 1 \<longrightarrow> \<not> majority (peers rf) (holders rf (RaftIndex rf M'))"
    then have "commit_ready rf (nat M)" "res = RaftIndex rf (int (nat M))"
      using raft_inv_simps(1) [OF inv] by (auto simp: ready)
    moreover have "j \<le> nat M" if "commit_ready rf j" for j
    proof (rule ccontr)
      assume "\<not> j \<le> nat M"
      then have "M < int j" by linarith
      with max that raft_inv_simps(1) [OF inv] show False unfolding ready by blast
    qed
    ultimately show ?thesis using eq by blast
  qed
qed

lemma updateCommittedIndex_inv:
  assumes "raft_inv n s rf"
  shows "\<exists>rf'. updateCommittedIndex rf = Inr rf' \<and> raft_inv n s rf' \<and> quiet_step rf rf' \<and>
    Logs rf' = Logs rf"
  using updateCommittedIndex_unfold [OF assms] assms raft_inv_committedIndex [OF assms]
  by (auto simp: quiet_step_def)

lemma sendApplyEntriesTo_inv:
  assumes inv: "raft_inv n s rf" and d: "d < n"
  shows "\<exists>rf'. sendApplyEntriesTo d args reply rf = Inr rf' \<and> raft_inv n s rf' \<and> quiet_step rf rf'"
proof -
  note log = log_okD [OF raft_inv_simps(4) [OF inv]]
  note ff = findFirstIndex_eq [OF log(2,1)] and [simp] = raft_inv_simps [OF inv]
  let ?x = "aer_XTerm reply"
  let ?l = "first_geq ?x (Logs rf)" and ?h = "first_geq (?x + 1) (Logs rf)"
  have hb: "?h \<le> length (Logs rf)" and lb: "?l \<le> length (Logs rf)" by (rule first_geq_le)+
  have present: "go_index (Logs rf) (int ?h - 1) = Inr (Logs rf ! (?h - 1)) \<and>
      Term (Logs rf ! (?h - 1)) = ?x"
    if "?l < length (Logs rf)" "Term (Logs rf ! ?l) = ?x"
  proof -
    have "?l < ?h" using term_range [OF log(2) that(1)] that(2) by blast
    then show ?thesis
      using term_range [OF log(2), of "?h - 1"] hb by (simp add: go_index_def nat_diff_distrib)
  qed
  have upd: "\<exists>rf'. updateCommittedIndex (rf\<lparr>matchIndex := (matchIndex rf)[d := i], nextIndex := (nextIndex rf)[d := j]\<rparr>)
      = Inr rf' \<and> raft_inv n s rf' \<and> quiet_step rf rf'" for i j
    using updateCommittedIndex_inv [OF raft_inv_arrays(1) [OF inv, of "(nextIndex rf)[d := j]" "(matchIndex rf)[d := i]"]]
    by (auto simp: quiet_step_def durable_step_def)
  show ?thesis
    using d inv stepDown_inv [OF inv] setNextIndex_inv [OF inv d] present upd lb
    by (auto simp: sendApplyEntriesTo_def ff go_store_def Let_def)
qed

lemma onRequestVoteReply_inv:
  assumes inv: "raft_inv n s rf"
  shows "\<exists>rf'. onRequestVoteReply args reply rf = Inr rf' \<and> raft_inv n s rf' \<and>
    (if rvr_Term reply = CurrentTerm rf \<and> rvr_VoteGranted reply
     then persister rf' = persister rf \<and> CurrentTerm rf' = CurrentTerm rf \<and> VoteFor rf' = VoteFor rf \<and>
          votes rf' = (votes rf)(rv_Term args := votes rf (rv_Term args) + 1) \<and>
          (identity rf' = identity rf \<or>
           (identity rf = CANDIDATE \<and> identity rf' = LEADER \<and>
            int n < 2 * (votes rf (rv_Term args) + 1)))
     else quiet_step rf rf')"
proof -
  note [simp] = raft_inv_simps [OF inv]
  have "raft_inv n s (rf\<lparr>votes := v\<rparr>)" for v
    using inv by (simp add: raft_inv_def raft_core_def durable_vote_def)
  moreover have "raft_inv n s (rf\<lparr>votes := v, identity := LEADER, nextIndex := nx, matchIndex := mx\<rparr>)"
    if "identity rf = CANDIDATE" "length nx = n" "length mx = n" for v nx mx
    using inv that by (auto simp: raft_inv_def raft_core_def durable_vote_def)
  ultimately show ?thesis
    using inv stepDown_inv [OF inv]
    by (auto simp: onRequestVoteReply_def Let_def go_fill_def)
qed

section \<open>Timers, client commands, delivery\<close>

lemma ticker_election_inv:
  assumes inv: "raft_inv n s rf"
  shows "\<exists>reqs rf'. ticker_election rf = Inr (reqs, rf') \<and> raft_inv n s rf' \<and>
    (if identity rf = LEADER then reqs = [] \<and> rf' = rf
     else durable_step rf rf' \<and> CurrentTerm rf' = CurrentTerm rf + 1 \<and> VoteFor rf' = int s \<and> identity rf' = CANDIDATE \<and>
          votes rf' = (votes rf)(CurrentTerm rf' := 1) \<and>
          (\<exists>a. reqs = map (\<lambda>i. (i, ReqVote a)) (filter (\<lambda>i. i \<noteq> s) [0..<n]) \<and>
               rv_Term a = CurrentTerm rf' \<and> rv_CandidateId a = int s))"
proof (cases "identity rf = LEADER")
  case True
  with inv show ?thesis by (simp add: ticker_election_def)
next
  case False
  note [simp] = raft_inv_simps [OF inv]
  let ?rf1 = "rf\<lparr>CurrentTerm := CurrentTerm rf + 1, identity := CANDIDATE, VoteFor := int (me rf)\<rparr>"
  have "log_ok (CurrentTerm rf + 1) (Logs rf)"
    by (rule log_ok_mono [OF raft_inv_simps(4) [OF inv]]) simp
  then have "raft_core n s ?rf1" using raft_inv_core [OF inv] by (simp add: raft_core_def)
  then have "raft_inv n s (persist ?rf1)" by (rule raft_inv_persist)
  then have "raft_inv n s ((persist ?rf1)\<lparr>votes := v\<rparr>)" for v
    by (simp add: raft_inv_def raft_core_def durable_vote_def)
  moreover have ne: "Logs rf \<noteq> []" using raft_inv_simps(4) [OF inv] by (rule log_okD)
  moreover let ?a = "\<lparr>rv_Term = CurrentTerm rf + 1, rv_CandidateId = int s,
      rv_LastLogIndex = RaftIndex (persist ?rf1) (int (length (Logs rf)) - 1),
      rv_LastLogTerm = Term (last (Logs rf))\<rparr>"
  have "ticker_election rf = Inr (map (\<lambda>i. (i, ReqVote ?a)) (filter (\<lambda>i. i \<noteq> s) [0..<n]),
      (persist ?rf1)\<lparr>votes := (votes rf)(CurrentTerm rf + 1 := 1)\<rparr>)"
    using False go_index_last [OF ne]
    by (simp add: ticker_election_def kickOffNewElection_def Let_def)
  moreover have "\<exists>a. map (\<lambda>i. (i, ReqVote ?a)) (filter (\<lambda>i. i \<noteq> s) [0..<n]) =
      map (\<lambda>i. (i, ReqVote a)) (filter (\<lambda>i. i \<noteq> s) [0..<n]) \<and>
      rv_Term a = CurrentTerm rf + 1 \<and> rv_CandidateId a = int s"
    by (rule exI [of _ ?a]) simp
  ultimately show ?thesis using False by simp
qed

lemma nth_term_bounds:
  "log_ok t logs \<Longrightarrow> i < length logs \<Longrightarrow> 0 \<le> Term (logs ! i) \<and> Term (logs ! i) \<le> t"
  using log_ok_term_bounds [of t logs "logs ! i"] by simp

lemma heartbeat_request_inv:
  assumes inv: "raft_inv n s rf" and i: "i < n"
  shows "\<exists>r. heartbeat_request rf i = Inr r \<and> request_ok r \<and> (\<forall>a. r \<noteq> ReqVote a)"
proof -
  note [simp] = raft_inv_simps [OF inv]
  note log = raft_inv_simps(4) [OF inv]
  have ne: "Logs rf \<noteq> []" and srt: "sorted_terms (Logs rf)" using log by (rule log_okD)+
  have snap: "snap_ok (lastIncludedIndex rf) (snapshot rf)"
    using raft_inv_core [OF inv] by (simp add: raft_core_def)
  let ?next = "nextIndex rf ! i" and ?D = "lastIncludedIndex rf" and ?m = "int (length (Logs rf))"
  have m: "0 < ?m" using ne by simp
  consider (snap) "?next \<le> ?D" | (send) "?D < ?next" "?next \<le> ?m - 1 + ?D"
    | (beat) "?D < ?next" "?m - 1 + ?D < ?next" by linarith
  then show ?thesis
  proof cases
    case snap
    with i ne nth_term_bounds [OF log, of 0] \<open>snap_ok _ _\<close> show ?thesis
      by (simp add: heartbeat_request_def)
  next
    case beat
    have "go_index (Logs rf) (?m - 1) = Inr (last (Logs rf))" by (rule go_index_last [OF ne])
    moreover have "0 \<le> Term (last (Logs rf)) \<and> Term (last (Logs rf)) \<le> CurrentTerm rf"
      using log_ok_term_bounds [OF log, of "last (Logs rf)"] ne by simp
    ultimately show ?thesis
      using i beat by (simp add: heartbeat_request_def RaftIndex_def RealIndex_def)
  next
    case send
    let ?k = "nat (?next - ?D)"
    have k: "0 < ?k" "?k < length (Logs rf)" using send by linarith+
    have "nat (?next - 1 - ?D) = ?k - 1" using send by linarith
    then have p: "go_index (Logs rf) (?next - 1 - ?D) = Inr (Logs rf ! (?k - 1))"
      using send by (simp add: go_index_def)
    have fr: "go_from (Logs rf) (?next - ?D) = Inr (drop ?k (Logs rf))"
      using send by (simp add: go_from_def)
    have "0 \<le> ?D" using snap by (simp add: snap_ok_def)
    moreover have "drop (?k - 1) (Logs rf) = Logs rf ! (?k - 1) # drop ?k (Logs rf)"
      using k Cons_nth_drop_Suc [of "?k - 1" "Logs rf"] by simp
    then have "sorted (Term (Logs rf ! (?k - 1)) # map Term (drop ?k (Logs rf)))"
      using sorted_wrt_drop [OF srt, of "?k - 1"] by (simp add: drop_map)
    moreover have "t \<le> CurrentTerm rf" if "t \<in> insert (Term (Logs rf ! (?k - 1))) (Term ` set (drop ?k (Logs rf)))" for t
      using that log_ok_term_bounds [OF log] k by (auto dest: in_set_dropD)
    moreover have "0 \<le> Term (Logs rf ! (?k - 1))" using nth_term_bounds [OF log, of "?k - 1"] k by simp
    ultimately show ?thesis
      using i send p fr by (auto simp: heartbeat_request_def RaftIndex_def RealIndex_def Let_def)
  qed
qed

lemma heartbeat_loop_inv:
  assumes "raft_inv n s rf" "set is \<subseteq> {..<n}"
  shows "\<exists>rs. heartbeat_loop rf is = Inr rs \<and>
    (\<forall>(d, r) \<in> set rs. d < n \<and> d \<noteq> s \<and> request_ok r \<and> (\<forall>a. r \<noteq> ReqVote a))"
  using assms(2)
proof (induction "is")
  case (Cons i "is")
  then show ?case
    using heartbeat_request_inv [OF assms(1), of i] raft_inv_simps(2) [OF assms(1)] by fastforce
qed simp

lemma sendHeartBeat_inv:
  assumes "raft_inv n s rf"
  shows "\<exists>rs. sendHeartBeat rf = Inr rs \<and>
    (\<forall>(d, r) \<in> set rs. d < n \<and> d \<noteq> s \<and> request_ok r \<and> (\<forall>a. r \<noteq> ReqVote a))"
  using heartbeat_loop_inv [OF assms, of "[0..<n]"] raft_inv_simps(1) [OF assms]
  by (simp add: sendHeartBeat_def atLeast0LessThan)

lemma ticker_heartbeat_inv:
  assumes "raft_inv n s rf"
  shows "\<exists>rs. ticker_heartbeat rf = Inr rs \<and>
    (\<forall>(d, r) \<in> set rs. d < n \<and> d \<noteq> s \<and> request_ok r \<and> (\<forall>a. r \<noteq> ReqVote a))"
  using sendHeartBeat_inv [OF assms] by (simp add: ticker_heartbeat_def)

lemma Start_inv:
  assumes inv: "raft_inv n s rf"
  shows "\<exists>res rs rf'. Start cmd rf = Inr (res, rs, rf') \<and> raft_inv n s rf' \<and> quiet_step rf rf' \<and>
    (\<forall>(d, r) \<in> set rs. d < n \<and> d \<noteq> s \<and> request_ok r \<and> (\<forall>a. r \<noteq> ReqVote a))"
proof (cases "dead rf \<or> identity rf \<noteq> LEADER")
  case True
  with inv show ?thesis
    by (intro exI [of _ "(-1, -1, False)"] exI [of _ "[]"] exI [of _ rf]) (auto simp: Start_def)
next
  case False
  let ?rf1 = "rf\<lparr>Logs := Logs rf @ [\<lparr>Command = Some cmd, Term = CurrentTerm rf\<rparr>]\<rparr>"
  have "raft_core n s ?rf1"
    using raft_inv_core [OF inv] log_ok_snoc [OF raft_inv_simps(4) [OF inv]] by (simp add: raft_core_def)
  then have inv1: "raft_inv n s (persist ?rf1)" by (rule raft_inv_persist)
  from sendHeartBeat_inv [OF inv1] obtain rs where rs: "sendHeartBeat (persist ?rf1) = Inr rs"
    "\<forall>(d, r) \<in> set rs. d < n \<and> d \<noteq> s \<and> request_ok r \<and> (\<forall>a. r \<noteq> ReqVote a)" by blast
  then have "Start cmd rf =
      Inr ((RaftIndex rf (int (length (Logs rf))), CurrentTerm rf, True), rs, persist ?rf1)"
    using False by (simp add: Start_def Let_def)
  moreover have "quiet_step rf (persist ?rf1)" by (simp add: quiet_step_def)
  ultimately show ?thesis using inv1 rs(2) by blast
qed

lemma apply_loop_frame:
  "apply_loop rf msgs = Inr (msgs', rf') \<Longrightarrow> \<exists>a. rf' = rf\<lparr>lastApplied := a\<rparr>"
proof (induction rf msgs rule: apply_loop.induct)
  case (1 rf msgs)
  show ?case
  proof (cases "lastApplied rf < committedIndex rf")
    case True
    let ?rf1 = "rf\<lparr>lastApplied := lastApplied rf + 1\<rparr>"
    from True "1.prems" obtain e where
      e: "go_index (Logs ?rf1) (RealIndex ?rf1 (lastApplied ?rf1)) = Inr e"
      and rec: "apply_loop ?rf1 (msgs @ [command_msg (Command e) (lastApplied ?rf1)]) = Inr (msgs', rf')"
      by (auto simp: apply_loop.simps [of rf msgs] Let_def go_bind_eq_Inr)
    from "1.IH" [OF True refl e rec] show ?thesis by auto
  next
    case False
    with "1.prems" show ?thesis
      by (intro exI [of _ "lastApplied rf"]) (simp add: apply_loop.simps [of rf msgs])
  qed
qed

lemma applyLog_frame:
  assumes "applyLog rf = Inr (msgs, rf')"
  shows "\<exists>a p. rf' = rf\<lparr>lastApplied := a, applySnappending := p\<rparr>"
proof (cases "dead rf \<or> (committedIndex rf \<le> lastApplied rf \<and> \<not> applySnappending rf)")
  case True
  with assms show ?thesis
    by (intro exI [of _ "lastApplied rf"] exI [of _ "applySnappending rf"]) (simp add: applyLog_def)
next
  case False
  obtain p m rf1 where rf1: "rf1 = rf\<lparr>applySnappending := p\<rparr>"
    and eq: "(if lastApplied rf1 < committedIndex rf1
      then apply_loop (if lastApplied rf1 < lastIncludedIndex rf1
                       then rf1\<lparr>lastApplied := lastIncludedIndex rf1\<rparr> else rf1) m
      else Inr (m, rf1)) = Inr (msgs, rf')"
  proof (cases "applySnappending rf")
    case True
    with False assms obtain e where "go_index (Logs rf) 0 = Inr e"
      by (auto simp: applyLog_def go_bind_eq_Inr)
    with True False assms show ?thesis
      by (intro that [of "rf\<lparr>applySnappending := False\<rparr>" False
            "[snapshot_msg (snapshot rf) (Term e) (lastIncludedIndex rf)]"]) (auto simp: applyLog_def)
  next
    case pend: False
    with False assms show ?thesis
      by (intro that [of rf "applySnappending rf" "[]"]) (auto simp: applyLog_def)
  qed
  have "\<exists>a. rf' = rf1\<lparr>lastApplied := a\<rparr>" (is "\<exists>a. ?P a")
  proof (cases "lastApplied rf1 < committedIndex rf1")
    case True
    with eq apply_loop_frame show ?thesis by (fastforce split: if_splits)
  next
    case False
    with eq show ?thesis by (intro exI [of _ "lastApplied rf1"]) simp
  qed
  then obtain a where "?P a" ..
  then show ?thesis by (intro exI [of _ a] exI [of _ p]) (simp add: rf1)
qed

lemma applyLog_inv:
  assumes "raft_inv n s rf" "applyLog rf = Inr (msgs, rf')"
  shows "raft_inv n s rf'" "quiet_step rf rf'"
  using assms(1) applyLog_frame [OF assms(2)]
  by (auto simp: raft_inv_def raft_core_def durable_vote_def quiet_step_def)

lemma Kill_inv: "raft_inv n s rf \<Longrightarrow> raft_inv n s (Kill rf) \<and> quiet_step rf (Kill rf)"
  by (simp add: Kill_def raft_inv_def raft_core_def durable_vote_def quiet_step_def)

section \<open>Restart\<close>

text \<open>
  A peer made from storage that satisfies the invariant starts as a follower with exactly the term,
  the vote, the log and the snapshot found there.
\<close>

lemma Make_inv:
  assumes ok: "storage_ok ps" and s: "s < n"
  shows "\<exists>rf. Make n s ps = Inr rf \<and> raft_inv n s rf \<and> identity rf = FOLLOWER \<and>
    (CurrentTerm rf, VoteFor rf) = stored_vote (raftstate ps) \<and> persister rf = ps \<and>
    snapshot rf = ps_snapshot ps \<and> (\<forall>t. votes rf t = 0)"
proof -
  from ok obtain i where i: "snap_ok i (ps_snapshot ps)" by (auto simp: storage_ok_def)
  have init: "log_ok 0 [\<lparr>Command = None, Term = 0\<rparr> :: 'a LogEntry]" by (simp add: log_ok_def)
  from i have snap: "ps_snapshot ps = [] \<or> (\<exists>r. ps_snapshot ps = GInt i # r)"
    by (cases "ps_snapshot ps") (auto simp: snap_ok_def)
  from ok have state: "raftstate ps = [] \<or>
      (\<exists>t v l. raftstate ps = [GInt t, GInt v, GVal l] \<and> log_ok t l)"
    by (simp add: storage_ok_def)
  note made = Make_def Let_def ReadSnapshot_def ReadRaftState_def readSnapShot_def readPersist_def
  from snap have "\<exists>rf :: ('a, 'b) raft. Make n s ps = Inr rf" by (auto simp: made)
  then obtain rf :: "('a, 'b) raft" where rf: "Make n s ps = Inr rf" by blast
  have "raft_core n s rf" "durable_vote rf" "identity rf = FOLLOWER \<and> persister rf = ps \<and>
    (CurrentTerm rf, VoteFor rf) = stored_vote (raftstate ps) \<and> snapshot rf = ps_snapshot ps \<and>
    (\<forall>t. votes rf t = 0)"
    using state snap i s init rf
    by (auto simp: made raft_core_def durable_vote_def snap_ok_def)
  with ok rf show ?thesis by (auto simp: raft_inv_def)
qed

lemma storage_ok_fresh: "storage_ok MakePersister"
  by (simp add: storage_ok_def MakePersister_def snap_ok_def)

end
