(* ===== verification/RaftCluster.thy ===== *)
theory RaftCluster
  imports RaftServer
begin

text \<open>
  A cluster of Raft peers and the network between them, as a transition system. The state of every
  peer is the record of \<open>RaftDefs\<close>; a step is one event of the environment (a timer that fires, a
  client command, the delivery or loss of a packet, a snapshot taken by the service, a crash and
  restart) and runs one operation of the code. The network may lose, delay and reorder requests
  and replies but delivers each at most once, as \<^verbatim>\<open>src/labrpc/labrpc.go\<close> does; a reply reaches only
  the incarnation of the peer that made the call. A crash keeps what \<^verbatim>\<open>persister\<close> holds and
  nothing else.

  The history variables \<open>vote_hist\<close> (every vote ever given), \<open>counted\<close> (the voters whose granted
  replies an election has counted), \<open>elected\<close> (every peer that ever was leader, with its term) and
  \<open>applied\<close> (what each peer has delivered to its service) are written by the steps and never read by them. The main result is election safety: two peers
  are never leaders of the same term, at the same time or at different times.
\<close>

section \<open>Packets, events and steps\<close>

text \<open>Caller, incarnation of the caller, callee, the request, and for a reply what was answered.\<close>

datatype ('c, 'x) packet =
    Request nat nat nat "('c, 'x) request"
  | Reply nat nat nat "('c, 'x) request" reply

record ('c, 'x) cluster =
  servers :: "('c, 'x) raft list"
  incarnation :: "nat list"
  net :: "('c, 'x) packet list"
  vote_hist :: "nat \<Rightarrow> int \<Rightarrow> int option"
  counted :: "nat \<Rightarrow> int \<Rightarrow> nat list"
  elected :: "(int \<times> nat) list"
  applied :: "nat \<Rightarrow> ('c, 'x) ApplyMsg list"

datatype ('c, 'x) event =
    Election nat
  | HeartBeat nat
  | Propose nat 'c
  | Deliver nat
  | Drop nat
  | TakeSnapshot nat int "'x gob"
  | ApplyRound nat
  | Crash nat
  | KillPeer nat

fun handle_request :: "('c, 'x) request \<Rightarrow> ('c, 'x) raft \<Rightarrow> (reply \<times> ('c, 'x) raft) go" where
  "handle_request (ReqVote a) rf = go_bind (RequestVote a rf) (\<lambda>(r, rf'). Inr (RepVote r, rf'))"
| "handle_request (ReqApply a) rf = go_bind (ApplyEntries a rf) (\<lambda>(r, rf'). Inr (RepApply r, rf'))"
| "handle_request (ReqInstall a) rf =
     go_bind (InstallSnapshot a rf) (\<lambda>(r, rf'). Inr (RepInstall r, rf'))"

fun handle_reply ::
    "nat \<Rightarrow> ('c, 'x) request \<Rightarrow> reply \<Rightarrow> ('c, 'x) raft \<Rightarrow> ('c, 'x) raft go" where
  "handle_reply d (ReqVote a) (RepVote r) rf = onRequestVoteReply a r rf"
| "handle_reply d (ReqApply a) (RepApply r) rf = sendApplyEntriesTo d a r rf"
| "handle_reply d (ReqInstall a) (RepInstall r) rf = sendInstallSnapshotTo d a r rf"
| "handle_reply d _ _ rf = Inr rf"

definition put :: "nat \<Rightarrow> ('c, 'x) raft \<Rightarrow> ('c, 'x) cluster \<Rightarrow> ('c, 'x) cluster" where
  "put s rf c =
     c\<lparr>servers := (servers c)[s := rf],
       vote_hist := (if VoteFor rf = Unvote then vote_hist c
                     else (vote_hist c)(s := (vote_hist c s)(CurrentTerm rf \<mapsto> VoteFor rf))),
       elected := (if identity rf = LEADER then List.insert (CurrentTerm rf, s) (elected c)
                   else elected c)\<rparr>"

definition send ::
    "nat \<Rightarrow> (nat \<times> ('c, 'x) request) list \<Rightarrow> ('c, 'x) cluster \<Rightarrow> ('c, 'x) cluster" where
  "send s reqs c = c\<lparr>net := net c @ map (\<lambda>(d, r). Request s (incarnation c ! s) d r) reqs\<rparr>"

definition take_packet :: "nat \<Rightarrow> ('c, 'x) cluster \<Rightarrow> ('c, 'x) cluster" where
  "take_packet i c = c\<lparr>net := take i (net c) @ drop (Suc i) (net c)\<rparr>"

text \<open>A granted vote for the current term is counted once by the election of its term.\<close>

fun count_vote ::
    "nat \<Rightarrow> nat \<Rightarrow> ('c, 'x) request \<Rightarrow> reply \<Rightarrow> ('c, 'x) cluster \<Rightarrow> ('c, 'x) cluster" where
  "count_vote s d (ReqVote a) (RepVote b) c =
     (if rvr_Term b = CurrentTerm (servers c ! s) \<and> rvr_VoteGranted b
      then c\<lparr>counted := (counted c)(s := (counted c s)(rv_Term a := d # counted c s (rv_Term a)))\<rparr>
      else c)"
| "count_vote s d _ _ c = c"

fun deliver :: "nat \<Rightarrow> ('c, 'x) packet \<Rightarrow> ('c, 'x) cluster \<Rightarrow> ('c, 'x) cluster go" where
  "deliver i (Request s k d r) c =
     go_bind (handle_request r (servers c ! d)) (\<lambda>(rep, rf).
       let c' = put d rf (take_packet i c) in Inr (c'\<lparr>net := net c' @ [Reply s k d r rep]\<rparr>))"
| "deliver i (Reply s k d r rep) c =
     (if incarnation c ! s = k
      then go_bind (handle_reply d r rep (servers c ! s)) (\<lambda>rf.
             Inr (put s rf (count_vote s d r rep (take_packet i c))))
      else Inr (take_packet i c))"

fun step_event :: "('c, 'x) event \<Rightarrow> ('c, 'x) cluster \<Rightarrow> ('c, 'x) cluster go" where
  "step_event (Election s) c =
     (if s < length (servers c)
      then go_bind (ticker_election (servers c ! s)) (\<lambda>(reqs, rf). Inr (send s reqs (put s rf c)))
      else Inr c)"
| "step_event (HeartBeat s) c =
     (if s < length (servers c)
      then go_bind (ticker_heartbeat (servers c ! s)) (\<lambda>reqs. Inr (send s reqs c))
      else Inr c)"
| "step_event (Propose s cmd) c =
     (if s < length (servers c)
      then go_bind (Start cmd (servers c ! s)) (\<lambda>(res, reqs, rf). Inr (send s reqs (put s rf c)))
      else Inr c)"
| "step_event (Deliver i) c = (if i < length (net c) then deliver i (net c ! i) c else Inr c)"
| "step_event (Drop i) c = (if i < length (net c) then Inr (take_packet i c) else Inr c)"
| "step_event (TakeSnapshot s index data) c =
     (if s < length (servers c)
      then go_bind (Snapshot index data (servers c ! s)) (\<lambda>rf. Inr (put s rf c))
      else Inr c)"
| "step_event (ApplyRound s) c =
     (if s < length (servers c)
      then go_bind (applyLog (servers c ! s)) (\<lambda>(msgs, rf).
             Inr ((put s rf c)\<lparr>applied := (applied c)(s := applied c s @ msgs)\<rparr>))
      else Inr c)"
| "step_event (Crash s) c =
     (if s < length (servers c)
      then go_bind (Make (length (servers c)) s (Copy (persister (servers c ! s)))) (\<lambda>rf.
             Inr ((put s rf c)\<lparr>incarnation := (incarnation c)[s := Suc (incarnation c ! s)]\<rparr>))
      else Inr c)"
| "step_event (KillPeer s) c =
     (if s < length (servers c) then Inr (put s (Kill (servers c ! s)) c) else Inr c)"

text \<open>
  The service hands \<^verbatim>\<open>Snapshot\<close> data that starts with the index it covers. The index itself is not
  restricted: a service that asks for a snapshot of an index it was not given is included.
\<close>

fun event_ok :: "('c, 'x) event \<Rightarrow> bool" where
  "event_ok (TakeSnapshot s index data) = snap_ok index data"
| "event_ok _ = True"

definition cluster_init :: "nat \<Rightarrow> ('c, 'x) cluster \<Rightarrow> bool" where
  "cluster_init n c \<longleftrightarrow>
     length (servers c) = n \<and> (\<forall>s<n. Make n s MakePersister = Inr (servers c ! s)) \<and>
     incarnation c = replicate n 0 \<and> net c = [] \<and> vote_hist c = (\<lambda>_ _. None) \<and>
     counted c = (\<lambda>_ _. []) \<and> elected c = [] \<and>
     applied c = (\<lambda>_. [])"

inductive cluster_step :: "('c, 'x) cluster \<Rightarrow> ('c, 'x) cluster \<Rightarrow> bool" where
  cluster_event: "event_ok e \<Longrightarrow> step_event e c = Inr c' \<Longrightarrow> cluster_step c c'"

inductive_cases cluster_stepE: "cluster_step c c'"

abbreviation cluster_reach :: "nat \<Rightarrow> ('c, 'x) cluster \<Rightarrow> bool" where
  "cluster_reach n \<equiv> reach (cluster_init n) cluster_step"

fun run_events :: "('c, 'x) event list \<Rightarrow> ('c, 'x) cluster \<Rightarrow> ('c, 'x) cluster go" where
  "run_events [] c = Inr c"
| "run_events (e # es) c = go_bind (step_event e c) (run_events es)"

lemma run_events_reach:
  "cluster_reach n c \<Longrightarrow> \<forall>e \<in> set es. event_ok e \<Longrightarrow> run_events es c = Inr c' \<Longrightarrow> cluster_reach n c'"
proof (induction es arbitrary: c)
  case (Cons e es)
  then obtain c1 where c1: "step_event e c = Inr c1" "run_events es c1 = Inr c'"
    by (auto simp: go_bind_eq_Inr)
  with Cons.prems have "cluster_reach n c1" by (auto intro: reach_step cluster_event)
  with Cons c1 show ?case by simp
qed simp

section \<open>The invariant\<close>

definition stored :: "('c, 'x) cluster \<Rightarrow> nat \<Rightarrow> int \<times> int" where
  "stored c s = stored_vote (raftstate (persister (servers c ! s)))"

text \<open>The election a vote packet belongs to: candidate, term, voter.\<close>

fun ballot :: "('c, 'x) packet \<Rightarrow> (nat \<times> int \<times> nat) list" where
  "ballot (Request s k d (ReqVote a)) = [(s, rv_Term a, d)]"
| "ballot (Reply s k d (ReqVote a) rep) = [(s, rv_Term a, d)]"
| "ballot _ = []"

definition ballots :: "('c, 'x) packet list \<Rightarrow> (nat \<times> int \<times> nat) list" where
  "ballots ps = concat (map ballot ps)"

fun call_ok :: "nat \<Rightarrow> ('c, 'x) cluster \<Rightarrow> nat \<Rightarrow> nat \<Rightarrow> ('c, 'x) request \<Rightarrow> bool" where
  "call_ok n c s d r \<longleftrightarrow> s < n \<and> d < n \<and> d \<noteq> s \<and> request_ok r \<and>
     (\<forall>a. r = ReqVote a \<longrightarrow> rv_CandidateId a = int s \<and> rv_Term a \<le> fst (stored c s))"

fun packet_ok :: "nat \<Rightarrow> ('c, 'x) cluster \<Rightarrow> ('c, 'x) packet \<Rightarrow> bool" where
  "packet_ok n c (Request s k d r) \<longleftrightarrow> call_ok n c s d r"
| "packet_ok n c (Reply s k d r rep) \<longleftrightarrow> call_ok n c s d r \<and>
     (\<forall>a b. r = ReqVote a \<and> rep = RepVote b \<and> rvr_VoteGranted b \<longrightarrow>
        rvr_Term b = rv_Term a \<and> vote_hist c d (rv_Term a) = Some (int s))"

definition peers_ok :: "nat \<Rightarrow> ('c, 'x) cluster \<Rightarrow> bool" where
  "peers_ok n c \<longleftrightarrow> length (servers c) = n \<and> (\<forall>s<n. raft_inv n s (servers c ! s))"

definition hist_ok :: "nat \<Rightarrow> ('c, 'x) cluster \<Rightarrow> bool" where
  "hist_ok n c \<longleftrightarrow>
     (\<forall>s t v. vote_hist c s t = Some v \<longrightarrow>
        s < n \<and> v \<noteq> Unvote \<and> t \<le> fst (stored c s) \<and> (t = fst (stored c s) \<longrightarrow> snd (stored c s) = v)) \<and>
     (\<forall>s<n. VoteFor (servers c ! s) \<noteq> Unvote \<longrightarrow>
        vote_hist c s (CurrentTerm (servers c ! s)) = Some (VoteFor (servers c ! s)))"

definition counted_ok :: "nat \<Rightarrow> ('c, 'x) cluster \<Rightarrow> bool" where
  "counted_ok n c \<longleftrightarrow>
     (\<forall>s t. distinct (counted c s t)) \<and>
     (\<forall>s t v. v \<in> set (counted c s t) \<longrightarrow>
        v < n \<and> v \<noteq> s \<and> s < n \<and> vote_hist c v t = Some (int s) \<and> t \<le> fst (stored c s)) \<and>
     (\<forall>s<n. \<forall>t. votes (servers c ! s) t \<le> 1 + int (length (counted c s t)))"

definition net_ok :: "nat \<Rightarrow> ('c, 'x) cluster \<Rightarrow> bool" where
  "net_ok n c \<longleftrightarrow>
     (\<forall>p \<in> set (net c). packet_ok n c p) \<and> distinct (ballots (net c)) \<and>
     (\<forall>s t d. (s, t, d) \<in> set (ballots (net c)) \<longrightarrow> d \<notin> set (counted c s t))"

definition chosen :: "nat \<Rightarrow> ('c, 'x) cluster \<Rightarrow> int \<Rightarrow> nat \<Rightarrow> bool" where
  "chosen n c t s \<longleftrightarrow> (\<exists>Q. majority n Q \<and> (\<forall>v \<in> Q. vote_hist c v t = Some (int s)))"

definition elected_ok :: "nat \<Rightarrow> ('c, 'x) cluster \<Rightarrow> bool" where
  "elected_ok n c \<longleftrightarrow>
     (\<forall>s<n. identity (servers c ! s) = LEADER \<longrightarrow>
        (CurrentTerm (servers c ! s), s) \<in> set (elected c)) \<and>
     (\<forall>t s. (t, s) \<in> set (elected c) \<longrightarrow> chosen n c t s)"

definition cluster_inv :: "nat \<Rightarrow> ('c, 'x) cluster \<Rightarrow> bool" where
  "cluster_inv n c \<longleftrightarrow>
     peers_ok n c \<and> hist_ok n c \<and> counted_ok n c \<and> net_ok n c \<and> elected_ok n c"

lemmas cluster_inv_defs =
  cluster_inv_def peers_ok_def hist_ok_def counted_ok_def net_ok_def elected_ok_def

lemma hist_okD:
  assumes "cluster_inv n c" "vote_hist c s t = Some v"
  shows "s < n" "v \<noteq> Unvote" "t \<le> fst (stored c s)" "t = fst (stored c s) \<Longrightarrow> snd (stored c s) = v"
  using assms unfolding cluster_inv_def hist_ok_def by blast+

lemma counted_okD:
  assumes "cluster_inv n c" "v \<in> set (counted c s t)"
  shows "v < n" "v \<noteq> s" "s < n" "vote_hist c v t = Some (int s)" "t \<le> fst (stored c s)"
  using assms unfolding cluster_inv_def counted_ok_def by blast+

lemma cluster_invD:
  assumes "cluster_inv n c"
  shows "length (servers c) = n" "\<And>s. s < n \<Longrightarrow> raft_inv n s (servers c ! s)"
    "\<And>s t. distinct (counted c s t)"
    "\<And>s t. s < n \<Longrightarrow> votes (servers c ! s) t \<le> 1 + int (length (counted c s t))"
    "\<And>p. p \<in> set (net c) \<Longrightarrow> packet_ok n c p"
    "distinct (ballots (net c))"
    "\<And>s t d. (s, t, d) \<in> set (ballots (net c)) \<Longrightarrow> d \<notin> set (counted c s t)"
    "\<And>s. s < n \<Longrightarrow> VoteFor (servers c ! s) \<noteq> Unvote \<Longrightarrow>
       vote_hist c s (CurrentTerm (servers c ! s)) = Some (VoteFor (servers c ! s))"
  using assms by (simp_all add: cluster_inv_defs)

lemma leader_chosen:
  assumes "cluster_inv n c" "s < n" "identity (servers c ! s) = LEADER"
  shows "chosen n c (CurrentTerm (servers c ! s)) s"
  using assms unfolding cluster_inv_def elected_ok_def by blast

lemma stored_frame [simp]:
  "stored (c\<lparr>net := x\<rparr>) s = stored c s" "stored (c\<lparr>counted := y\<rparr>) s = stored c s"
  "stored (c\<lparr>incarnation := z\<rparr>) s = stored c s" "stored (c\<lparr>applied := w\<rparr>) s = stored c s"
  by (simp_all add: stored_def)

lemma chosen_frame [simp]:
  "chosen n (c\<lparr>net := x\<rparr>) t s = chosen n c t s" "chosen n (c\<lparr>counted := y\<rparr>) t s = chosen n c t s"
  "chosen n (c\<lparr>incarnation := z\<rparr>) t s = chosen n c t s" "chosen n (c\<lparr>applied := w\<rparr>) t s = chosen n c t s"
  by (simp_all add: chosen_def)

lemma packet_ok_frame [simp]:
  "packet_ok n (c\<lparr>net := x\<rparr>) p = packet_ok n c p" "packet_ok n (c\<lparr>counted := y\<rparr>) p = packet_ok n c p"
  "packet_ok n (c\<lparr>incarnation := z\<rparr>) p = packet_ok n c p"
  "packet_ok n (c\<lparr>applied := w\<rparr>) p = packet_ok n c p"
  by (cases p; simp)+

lemma packet_ok_mono:
  assumes "packet_ok n c p"
    and "\<And>s t v. vote_hist c s t = Some v \<Longrightarrow> vote_hist c' s t = Some v"
    and "\<And>s. s < n \<Longrightarrow> fst (stored c s) \<le> fst (stored c' s)"
  shows "packet_ok n c' p"
  using assms by (cases p) (fastforce intro: order_trans)+

lemma ballots_simps [simp]:
  "ballots [] = []" "ballots (p # ps) = ballot p @ ballots ps"
  "ballots (ps @ qs) = ballots ps @ ballots qs"
  by (simp_all add: ballots_def)

lemma ballot_other: "\<forall>a. r \<noteq> ReqVote a \<Longrightarrow> ballot (Request s k d r) = []"
  by (cases r) auto

lemma ballots_split:
  "i < length ps \<Longrightarrow>
   ballots ps = ballots (take i ps) @ ballot (ps ! i) @ ballots (drop (Suc i) ps)"
  by (subst id_take_nth_drop [of i ps]) simp_all

section \<open>Preservation\<close>

definition stored_le :: "int \<times> int \<Rightarrow> int \<times> int \<Rightarrow> bool" where
  "stored_le a b \<longleftrightarrow> fst a \<le> fst b \<and> (fst a = fst b \<and> snd a \<noteq> Unvote \<longrightarrow> snd b = snd a)"

lemma stored_le_refl [simp]: "stored_le a a"
  by (simp add: stored_le_def)

lemma vote_step_stored:
  assumes "raft_inv n s rf" "vote_step rf rf'"
  shows "stored_le (stored_vote (raftstate (persister rf))) (stored_vote (raftstate (persister rf')))"
proof -
  obtain t v where tv: "stored_vote (raftstate (persister rf)) = (t, v)" by fastforce
  then have d: "t \<le> CurrentTerm rf" "t = CurrentTerm rf \<Longrightarrow> v = VoteFor rf"
    using assms(1) by (simp_all add: raft_inv_def durable_vote_def)
  consider "raftstate (persister rf') = raftstate (persister rf)"
    | "stored_vote (raftstate (persister rf')) = (CurrentTerm rf', VoteFor rf')"
    using assms(2) by (auto simp: vote_step_def durable_step_def)
  then show ?thesis
  proof cases
    case 2
    with tv d assms(2) show ?thesis by (auto simp: stored_le_def vote_step_def)
  qed simp
qed

lemma put_stored:
  assumes "s < length (servers c)"
  shows "stored (put s rf c) u = (if u = s then stored_vote (raftstate (persister rf)) else stored c u)"
  using assms by (simp add: stored_def put_def)

text \<open>Every vote of the history survives a step whose stable storage does not go back.\<close>

lemma put_hist_mono:
  assumes inv: "cluster_inv n c" and s: "s < n" and rf: "raft_inv n s rf"
    and le: "stored_le (stored c s) (stored_vote (raftstate (persister rf)))"
    and h: "vote_hist c u t = Some v"
  shows "vote_hist (put s rf c) u t = Some v"
proof (cases "VoteFor rf \<noteq> Unvote \<and> u = s \<and> t = CurrentTerm rf")
  case True
  from rf True have "stored_vote (raftstate (persister rf)) = (t, VoteFor rf)"
    by (auto simp: raft_inv_def durable_vote_def split: prod.splits)
  moreover note hist_okD [OF inv h]
  ultimately have "VoteFor rf = v" using le True by (auto simp: stored_le_def)
  with True show ?thesis by (simp add: put_def)
next
  case False
  with h show ?thesis by (auto simp: put_def)
qed

lemma put_inv:
  assumes inv: "cluster_inv n c" and s: "s < n" and rf: "raft_inv n s rf"
    and le: "stored_le (stored c s) (stored_vote (raftstate (persister rf)))"
    and tally: "\<And>t. votes rf t \<le> 1 + int (length (counted c s t))"
    and lead: "identity rf = LEADER \<Longrightarrow> chosen n (put s rf c) (CurrentTerm rf) s"
  shows "cluster_inv n (put s rf c)"
proof -
  let ?c = "put s rf c"
  note parts = cluster_invD [OF inv] and len = cluster_invD(1) [OF inv]
  note mono = put_hist_mono [OF inv s rf le]
  have srv: "servers ?c ! u = (if u = s then rf else servers c ! u)" for u
    using s len by (simp add: put_def)
  have frame: "net ?c = net c" "counted ?c = counted c" "length (servers ?c) = n"
    using len by (simp_all add: put_def)
  have st: "stored ?c u = (if u = s then stored_vote (raftstate (persister rf)) else stored c u)" for u
    using s len by (simp add: put_stored)
  have stle: "fst (stored c u) \<le> fst (stored ?c u)" for u using le by (simp add: st stored_le_def)
  have ch: "chosen n c t u \<Longrightarrow> chosen n ?c t u" for t u
    using mono by (auto simp: chosen_def)
  have "peers_ok n ?c" using parts(2) rf by (simp add: peers_ok_def srv frame)
  moreover have "hist_ok n ?c"
    unfolding hist_ok_def
  proof (intro conjI allI impI)
    fix u t v assume h: "vote_hist ?c u t = Some v"
    have new: "stored_vote (raftstate (persister rf)) = (CurrentTerm rf, VoteFor rf)" if "VoteFor rf \<noteq> Unvote"
      using rf that by (auto simp: raft_inv_def durable_vote_def split: prod.splits)
    have "u < n \<and> v \<noteq> Unvote \<and> t \<le> fst (stored ?c u) \<and> (t = fst (stored ?c u) \<longrightarrow> snd (stored ?c u) = v)"
    proof (cases "vote_hist c u t = Some v")
      case True
      with hist_okD [OF inv True] le show ?thesis by (auto simp: st stored_le_def)
    next
      case False
      with h have "u = s" "t = CurrentTerm rf" "v = VoteFor rf" "VoteFor rf \<noteq> Unvote"
        by (auto simp: put_def split: if_splits)
      with new s show ?thesis by (simp add: st)
    qed
    then show "u < n" "v \<noteq> Unvote" "t \<le> fst (stored ?c u)" "t = fst (stored ?c u) \<Longrightarrow> snd (stored ?c u) = v"
      by auto
  next
    fix u assume u: "u < n" and v: "VoteFor (servers ?c ! u) \<noteq> Unvote"
    show "vote_hist ?c u (CurrentTerm (servers ?c ! u)) = Some (VoteFor (servers ?c ! u))"
    proof (cases "u = s")
      case True
      with v s len show ?thesis by (simp add: put_def)
    next
      case False
      with mono [OF parts(8) [OF u]] v show ?thesis by (simp add: srv)
    qed
  qed
  moreover have "counted_ok n ?c"
    unfolding counted_ok_def frame srv
    using parts(3,4) tally counted_okD [OF inv] mono order_trans [OF counted_okD(5) [OF inv] stle]
    by simp
  moreover have "net_ok n ?c"
    using parts(6,7) packet_ok_mono [OF parts(5) mono stle] by (auto simp: net_ok_def frame)
  moreover have "elected_ok n ?c"
  proof -
    have el: "set (elected ?c) = set (elected c) \<union> (if identity rf = LEADER then {(CurrentTerm rf, s)} else {})"
      by (auto simp: put_def)
    have "elected_ok n c" using inv by (simp add: cluster_inv_def)
    with ch lead show ?thesis by (auto simp: elected_ok_def srv el)
  qed
  ultimately show ?thesis by (simp add: cluster_inv_def)
qed

text \<open>A step of one peer that wins no election.\<close>

lemma step_put_inv:
  assumes inv: "cluster_inv n c" and s: "s < n" and rf: "raft_inv n s rf"
    and step: "vote_step (servers c ! s) rf"
    and tally: "\<And>t. votes rf t \<le> 1 + int (length (counted c s t))"
    and lead: "identity rf = LEADER \<Longrightarrow>
      identity (servers c ! s) = LEADER \<and> CurrentTerm rf = CurrentTerm (servers c ! s)"
  shows "cluster_inv n (put s rf c)"
proof (rule put_inv [OF inv s rf _ tally])
  show le: "stored_le (stored c s) (stored_vote (raftstate (persister rf)))"
    using vote_step_stored [OF cluster_invD(2) [OF inv s] step] by (simp add: stored_def)
  assume "identity rf = LEADER"
  with lead leader_chosen [OF inv s] have "chosen n c (CurrentTerm rf) s" by simp
  then show "chosen n (put s rf c) (CurrentTerm rf) s"
    using put_hist_mono [OF inv s rf le] by (auto simp: chosen_def)
qed

lemma quiet_put_inv:
  assumes inv: "cluster_inv n c" and s: "s < n" and rf: "raft_inv n s rf"
    and q: "quiet_step (servers c ! s) rf"
  shows "cluster_inv n (put s rf c)"
proof (rule step_put_inv [OF inv s rf quiet_vote_step [OF q]])
  show "votes rf t \<le> 1 + int (length (counted c s t))" for t
    using q cluster_invD(4) [OF inv s] by (simp add: quiet_step_def)
qed (use q in \<open>auto simp: quiet_step_def\<close>)

text \<open>A change of the packets in flight.\<close>

lemma net_inv:
  assumes "cluster_inv n c" "\<And>p. p \<in> set ps \<Longrightarrow> packet_ok n c p" "distinct (ballots ps)"
    and "\<And>s t d. (s, t, d) \<in> set (ballots ps) \<Longrightarrow> d \<notin> set (counted c s t)"
  shows "cluster_inv n (c\<lparr>net := ps\<rparr>)"
  using assms by (simp add: cluster_inv_defs)

lemma take_packet_inv:
  assumes inv: "cluster_inv n c" and i: "i < length (net c)"
  shows "cluster_inv n (take_packet i c)"
proof -
  note b = ballots_split [OF i]
  show ?thesis
    unfolding take_packet_def
  proof (rule net_inv [OF inv])
    show "packet_ok n c p" if "p \<in> set (take i (net c) @ drop (Suc i) (net c))" for p
      using that cluster_invD(5) [OF inv] by (auto dest: in_set_takeD in_set_dropD)
    show "distinct (ballots (take i (net c) @ drop (Suc i) (net c)))"
      using cluster_invD(6) [OF inv] b by auto
    show "d \<notin> set (counted c s t)" if "(s, t, d) \<in> set (ballots (take i (net c) @ drop (Suc i) (net c)))"
      for s t d using that cluster_invD(7) [OF inv] b by auto
  qed
qed

lemma send_inv:
  assumes inv: "cluster_inv n c" and s: "s < n"
    and reqs: "\<forall>(d, r) \<in> set reqs. d < n \<and> d \<noteq> s \<and> request_ok r \<and> (\<forall>a. r \<noteq> ReqVote a)"
  shows "cluster_inv n (send s reqs c)"
proof -
  let ?ps = "map (\<lambda>(d, r). Request s (incarnation c ! s) d r) reqs"
  have "ballots ?ps = []"
    using reqs by (induction reqs) (auto simp: ballot_other)
  moreover have "packet_ok n c p" if "p \<in> set ?ps" for p using that reqs s by fastforce
  ultimately show ?thesis
    unfolding send_def using cluster_invD(5-7) [OF inv] by (intro net_inv [OF inv]) auto
qed

lemma ballot_bound:
  assumes inv: "cluster_inv n c" and b: "(s, t, d) \<in> set (ballots (net c))"
  shows "t \<le> fst (stored c s)"
proof -
  from b obtain p where p: "p \<in> set (net c)" "(s, t, d) \<in> set (ballot p)"
    by (auto simp: ballots_def)
  from cluster_invD(5) [OF inv p(1)] p(2) show ?thesis by (cases p rule: ballot.cases) auto
qed

text \<open>A new election: its term is new, so no packet and no counted vote belongs to it.\<close>

lemma election_inv:
  assumes inv: "cluster_inv n c" and s: "s < n" and step: "step_event (Election s) c = Inr c'"
  shows "cluster_inv n c'"
proof -
  let ?rf = "servers c ! s"
  note len = cluster_invD(1) [OF inv] and rfi = cluster_invD(2) [OF inv s]
  from ticker_election_inv [OF rfi] obtain reqs rf where
    t: "ticker_election ?rf = Inr (reqs, rf)" and ri: "raft_inv n s rf"
    and cs: "if identity ?rf = LEADER then reqs = [] \<and> rf = ?rf
       else durable_step ?rf rf \<and> CurrentTerm rf = CurrentTerm ?rf + 1 \<and> VoteFor rf = int s \<and>
          identity rf = CANDIDATE \<and> votes rf = (votes ?rf)(CurrentTerm rf := 1) \<and>
          (\<exists>a. reqs = map (\<lambda>i. (i, ReqVote a)) (filter (\<lambda>i. i \<noteq> s) [0..<n]) \<and>
               rv_Term a = CurrentTerm rf \<and> rv_CandidateId a = int s)" by blast
  have c': "c' = send s reqs (put s rf c)" using step s len t by simp
  show ?thesis
  proof (cases "identity ?rf = LEADER")
    case True
    with cs quiet_put_inv [OF inv s ri] show ?thesis unfolding c' by (intro send_inv) (auto simp: s)
  next
    case False
    let ?c = "put s rf c"
    from cs False obtain a where reqs: "reqs = map (\<lambda>i. (i, ReqVote a)) (filter (\<lambda>i. i \<noteq> s) [0..<n])"
      and a: "rv_Term a = CurrentTerm rf" "rv_CandidateId a = int s"
      unfolding if_not_P [OF False] by blast
    have inv1: "cluster_inv n ?c"
      using cs False cluster_invD(4) [OF inv s]
      by (intro step_put_inv [OF inv s ri]) (auto simp: vote_step_def)
    have old: "fst (stored c s) < CurrentTerm rf"
      using rfi cs False by (auto simp: raft_inv_def durable_vote_def stored_def split: prod.splits)
    have new: "fst (stored ?c s) = CurrentTerm rf"
      using ri cs False s len
      by (auto simp: raft_inv_def durable_vote_def put_stored Unvote_def split: prod.splits)
    let ?ps = "map (\<lambda>(d, r). Request s (incarnation ?c ! s) d r) reqs"
    have bs: "ballots ?ps = map (\<lambda>d. (s, CurrentTerm rf, d)) (filter (\<lambda>i. i \<noteq> s) [0..<n])"
      unfolding reqs ballots_def by (simp add: a comp_def concat_map_singleton)
    have frame: "net ?c = net c" "counted ?c = counted c" by (simp_all add: put_def)
    have "cluster_inv n (?c\<lparr>net := net ?c @ ?ps\<rparr>)"
    proof (rule net_inv [OF inv1])
      show "packet_ok n ?c p" if "p \<in> set (net ?c @ ?ps)" for p
        using that cluster_invD(5) [OF inv1] s a new by (auto simp: reqs)
      show "distinct (ballots (net ?c @ ?ps))"
        using cluster_invD(6) [OF inv1] ballot_bound [OF inv] old
        by (fastforce simp: bs distinct_map inj_on_def frame)
      show "d \<notin> set (counted ?c u t)" if "(u, t, d) \<in> set (ballots (net ?c @ ?ps))" for u t d
        using that cluster_invD(7) [OF inv1] counted_okD(5) [OF inv] old by (fastforce simp: bs frame)
    qed
    then show ?thesis by (simp add: c' send_def)
  qed
qed

text \<open>What a request handler does to the cluster invariant and to the history.\<close>

lemma handle_request_inv:
  assumes inv: "cluster_inv n c" and call: "call_ok n c s d r"
  shows "\<exists>rep rf. handle_request r (servers c ! d) = Inr (rep, rf) \<and> cluster_inv n (put d rf c) \<and>
    packet_ok n (put d rf c) (Reply s k d r rep)"
proof -
  have d: "d < n" and ok: "request_ok r" using call by auto
  note rfi = cluster_invD(2) [OF inv d]
  have *: "call_ok n (put d rf c) s d r" if "raft_inv n d rf" "vote_step (servers c ! d) rf" for rf
  proof -
    have "packet_ok n (put d rf c) (Request s k d r)"
    proof (rule packet_ok_mono [of n c])
      have le: "stored_le (stored c d) (stored_vote (raftstate (persister rf)))"
        using vote_step_stored [OF rfi that(2)] by (simp add: stored_def)
      show "vote_hist c u t = Some v \<Longrightarrow> vote_hist (put d rf c) u t = Some v" for u t v
        by (rule put_hist_mono [OF inv d that(1) le])
      show "u < n \<Longrightarrow> fst (stored c u) \<le> fst (stored (put d rf c) u)" for u
        using le d cluster_invD(1) [OF inv] by (simp add: put_stored stored_le_def)
    qed (use call in simp)
    then show ?thesis by simp
  qed
  show ?thesis
  proof (cases r)
    case (ReqVote a)
    from RequestVote_inv [OF rfi, of a] obtain b rf where
      rv: "RequestVote a (servers c ! d) = Inr (b, rf)" "raft_inv n d rf" "vote_step (servers c ! d) rf"
        "votes rf = votes (servers c ! d)"
        "identity rf \<noteq> FOLLOWER \<longrightarrow> identity rf = identity (servers c ! d) \<and>
           CurrentTerm rf = CurrentTerm (servers c ! d)"
      and g: "rvr_VoteGranted b \<Longrightarrow> rvr_Term b = rv_Term a \<and> CurrentTerm rf = rv_Term a \<and>
          VoteFor rf = rv_CandidateId a" by (metis (no_types, lifting))
    have "cluster_inv n (put d rf c)"
      using rv cluster_invD(4) [OF inv d] by (intro step_put_inv [OF inv d rv(2,3)]) auto
    moreover have "packet_ok n (put d rf c) (Reply s k d r (RepVote b))"
    proof -
      have "rv_CandidateId a = int s" using call ReqVote by simp
      with g have "vote_hist (put d rf c) d (rv_Term a) = Some (int s)" if "rvr_VoteGranted b"
        using that by (simp add: put_def Unvote_def)
      with g * [OF rv(2,3)] show ?thesis by (simp add: ReqVote)
    qed
    ultimately show ?thesis using rv(1) ReqVote by auto
  next
    case (ReqApply a)
    with ok ApplyEntries_inv [OF rfi, of a] obtain b rf where
      ae: "ApplyEntries a (servers c ! d) = Inr (b, rf)" "raft_inv n d rf" "quiet_step (servers c ! d) rf"
      by blast
    with * [OF ae(2) quiet_vote_step [OF ae(3)]] quiet_put_inv [OF inv d ae(2,3)] ReqApply
    show ?thesis by simp
  next
    case (ReqInstall a)
    with ok InstallSnapshot_inv [OF rfi, of a] obtain b rf where
      ins: "InstallSnapshot a (servers c ! d) = Inr (b, rf)" "raft_inv n d rf" "quiet_step (servers c ! d) rf"
      by blast
    with * [OF ins(2) quiet_vote_step [OF ins(3)]] quiet_put_inv [OF inv d ins(2,3)] ReqInstall
    show ?thesis by simp
  qed
qed

lemma deliver_request_inv:
  assumes inv: "cluster_inv n c" and i: "i < length (net c)" and p: "net c ! i = Request s k d r"
  shows "\<exists>c'. deliver i (net c ! i) c = Inr c' \<and> cluster_inv n c'"
proof -
  let ?c = "take_packet i c"
  have inv1: "cluster_inv n ?c" by (rule take_packet_inv [OF inv i])
  have "packet_ok n c (Request s k d r)" using cluster_invD(5) [OF inv nth_mem [OF i]] by (simp only: p)
  then have "call_ok n ?c s d r" by (simp add: take_packet_def)
  from handle_request_inv [OF inv1 this, of k] obtain rep rf where
    h: "handle_request r (servers c ! d) = Inr (rep, rf)"
    and inv2: "cluster_inv n (put d rf ?c)"
    and rep: "packet_ok n (put d rf ?c) (Reply s k d r rep)" by (auto simp: take_packet_def)
  let ?c2 = "put d rf ?c"
  have net: "net ?c2 = take i (net c) @ drop (Suc i) (net c)" and cnt: "counted ?c2 = counted c"
    by (simp_all add: put_def take_packet_def)
  have same: "ballot (Reply s k d r rep) = ballot (Request s k d r)" by (cases r) simp_all
  note b = ballots_split [OF i] and bi = p
  have "cluster_inv n (?c2\<lparr>net := net ?c2 @ [Reply s k d r rep]\<rparr>)"
  proof (rule net_inv [OF inv2])
    show "packet_ok n ?c2 q" if "q \<in> set (net ?c2 @ [Reply s k d r rep])" for q
      using that rep cluster_invD(5) [OF inv2] by auto
    show "distinct (ballots (net ?c2 @ [Reply s k d r rep]))"
      using cluster_invD(6) [OF inv] by (auto simp: b bi net same)
    show "e \<notin> set (counted ?c2 u t)" if "(u, t, e) \<in> set (ballots (net ?c2 @ [Reply s k d r rep]))" for u t e
      using that cluster_invD(7) [OF inv, of u t e] by (auto simp: b bi net same cnt)
  qed
  then show ?thesis by (simp add: p h Let_def)
qed

lemma count_vote_fields [simp]:
  "servers (count_vote s d r rep c) = servers c" "vote_hist (count_vote s d r rep c) = vote_hist c"
  "net (count_vote s d r rep c) = net c" "incarnation (count_vote s d r rep c) = incarnation c"
  "elected (count_vote s d r rep c) = elected c" "stored (count_vote s d r rep c) u = stored c u"
  by (cases "(s, d, r, rep, c)" rule: count_vote.cases; simp)+

text \<open>A counted vote is a new one: its packet was the only one of that ballot.\<close>

lemma count_vote_inv:
  assumes inv: "cluster_inv n c" and i: "i < length (net c)" and p: "net c ! i = Reply s k d r rep"
  shows "cluster_inv n (count_vote s d r rep (take_packet i c))"
proof (cases "\<exists>a b. r = ReqVote a \<and> rep = RepVote b \<and> rvr_Term b = CurrentTerm (servers c ! s) \<and>
    rvr_VoteGranted b")
  case False
  then have "count_vote s d r rep (take_packet i c) = take_packet i c"
    by (cases "(s, d, r, rep, c)" rule: count_vote.cases) (auto simp: take_packet_def)
  with take_packet_inv [OF inv i] show ?thesis by simp
next
  case True
  then obtain a b where rb: "r = ReqVote a" "rep = RepVote b" "rvr_Term b = CurrentTerm (servers c ! s)"
    "rvr_VoteGranted b" by blast
  let ?c = "take_packet i c" and ?t = "rv_Term a"
  have inv1: "cluster_inv n ?c" by (rule take_packet_inv [OF inv i])
  have pk: "packet_ok n c (Reply s k d r rep)" using cluster_invD(5) [OF inv nth_mem [OF i]] by (simp only: p)
  have mem: "(s, ?t, d) \<in> set (ballots (net c))" using i p rb by (simp add: ballots_split [OF i])
  have fresh: "d \<notin> set (counted c s ?t)" by (rule cluster_invD(7) [OF inv mem])
  have gone: "(s, ?t, d) \<notin> set (ballots (net ?c))"
    using cluster_invD(6) [OF inv] p rb by (auto simp: ballots_split [OF i] take_packet_def)
  have frame: "counted ?c = counted c" "servers ?c = servers c" "vote_hist ?c = vote_hist c"
    "stored ?c u = stored c u" for u by (simp_all add: take_packet_def)
  define cnt where "cnt = (counted c)(s := (counted c s)(?t := d # counted c s ?t))"
  have cv: "count_vote s d r rep ?c = ?c\<lparr>counted := cnt\<rparr>"
    using rb by (simp add: frame cnt_def)
  have "counted_ok n (?c\<lparr>counted := cnt\<rparr>)"
    unfolding counted_ok_def
  proof (intro conjI allI impI)
    show "distinct (counted (?c\<lparr>counted := cnt\<rparr>) u t)" for u t
      using cluster_invD(3) [OF inv] fresh by (simp add: cnt_def)
    show "votes (servers (?c\<lparr>counted := cnt\<rparr>) ! u) t \<le> 1 + int (length (counted (?c\<lparr>counted := cnt\<rparr>) u t))"
      if "u < n" for u t
      using cluster_invD(4) [OF inv that, of t] by (auto simp: frame cnt_def)
    fix u t v assume v: "v \<in> set (counted (?c\<lparr>counted := cnt\<rparr>) u t)"
    have "v < n \<and> v \<noteq> u \<and> u < n \<and> vote_hist c v t = Some (int u) \<and> t \<le> fst (stored c u)"
      using v counted_okD [OF inv, of v u t] pk rb by (auto simp: cnt_def split: if_splits)
    then show "v < n" "v \<noteq> u" "u < n" "vote_hist (?c\<lparr>counted := cnt\<rparr>) v t = Some (int u)"
      "t \<le> fst (stored (?c\<lparr>counted := cnt\<rparr>) u)" by (simp_all add: frame)
  qed
  moreover have "net_ok n (?c\<lparr>counted := cnt\<rparr>)"
    unfolding net_ok_def
  proof (intro conjI allI impI)
    fix u t e assume e: "(u, t, e) \<in> set (ballots (net (?c\<lparr>counted := cnt\<rparr>)))"
    with gone have "(u, t, e) \<noteq> (s, ?t, d)" by auto
    with cluster_invD(7) [OF inv1, of u t e] e
    show "e \<notin> set (counted (?c\<lparr>counted := cnt\<rparr>) u t)" by (auto simp: cnt_def frame)
  qed (use cluster_invD(5,6) [OF inv1] in auto)
  ultimately show ?thesis using inv1 by (simp add: cv cluster_inv_def peers_ok_def hist_ok_def elected_ok_def)
qed

text \<open>The vote that completes a majority makes the candidate the leader of its term.\<close>

lemma vote_reply_inv:
  assumes inv: "cluster_inv n c" and i: "i < length (net c)"
    and p: "net c ! i = Reply s k d (ReqVote a) (RepVote b)"
  shows "\<exists>rf. onRequestVoteReply a b (servers c ! s) = Inr rf \<and>
    cluster_inv n (put s rf (count_vote s d (ReqVote a) (RepVote b) (take_packet i c)))"
proof -
  let ?rf = "servers c ! s" and ?t = "rv_Term a"
  define c1 where "c1 = count_vote s d (ReqVote a) (RepVote b) (take_packet i c)"
  have inv1: "cluster_inv n c1" unfolding c1_def by (rule count_vote_inv [OF inv i p])
  have pk: "packet_ok n c (Reply s k d (ReqVote a) (RepVote b))"
    using cluster_invD(5) [OF inv nth_mem [OF i]] by (simp only: p)
  then have s: "s < n" by simp
  have srv: "servers c1 = servers c" by (simp add: c1_def take_packet_def)
  note rfi = cluster_invD(2) [OF inv s]
  from onRequestVoteReply_inv [OF rfi, of a b] obtain rf where
    rf: "onRequestVoteReply a b ?rf = Inr rf" "raft_inv n s rf"
    and cs: "if rvr_Term b = CurrentTerm ?rf \<and> rvr_VoteGranted b
      then persister rf = persister ?rf \<and> CurrentTerm rf = CurrentTerm ?rf \<and> VoteFor rf = VoteFor ?rf \<and>
           votes rf = (votes ?rf)(?t := votes ?rf ?t + 1) \<and>
           (identity rf = identity ?rf \<or> (identity ?rf = CANDIDATE \<and> identity rf = LEADER \<and>
              int n < 2 * (votes ?rf ?t + 1)))
      else quiet_step ?rf rf" by blast
  have "cluster_inv n (put s rf c1)"
  proof (cases "rvr_Term b = CurrentTerm ?rf \<and> rvr_VoteGranted b")
    case False
    from cs have "quiet_step (servers c1 ! s) rf" unfolding srv if_not_P [OF False] .
    then show ?thesis by (rule quiet_put_inv [OF inv1 s rf(2)])
  next
    case True
    with cs have frame: "persister rf = persister ?rf" "CurrentTerm rf = CurrentTerm ?rf"
      "VoteFor rf = VoteFor ?rf" "votes rf = (votes ?rf)(?t := votes ?rf ?t + 1)" by simp_all
    from True pk have t: "CurrentTerm ?rf = ?t" by simp
    have cnt: "counted c1 = (counted c)(s := (counted c s)(?t := d # counted c s ?t))"
      using True by (simp add: c1_def take_packet_def)
    have tally: "votes rf u \<le> 1 + int (length (counted c1 s u))" for u
      using cluster_invD(4) [OF inv s, of u] by (auto simp: frame cnt)
    have le: "stored_le (stored c1 s) (stored_vote (raftstate (persister rf)))"
      by (simp add: stored_def srv frame)
    have "chosen n c1 (CurrentTerm rf) s" if "identity rf = LEADER"
    proof (cases "identity ?rf = LEADER")
      case True
      then show ?thesis using leader_chosen [OF inv1 s] by (simp add: srv frame)
    next
      case False
      with cs True that have cand: "identity ?rf = CANDIDATE" and maj: "int n < 2 * votes rf ?t"
        by (auto simp: frame)
      let ?Q = "insert s (set (counted c1 s ?t))"
      have self: "vote_hist c1 s ?t = Some (int s)"
        using cluster_invD(8) [OF inv1 s] rfi cand t
        by (simp add: srv raft_inv_def raft_core_def Unvote_def)
      have "card ?Q = 1 + length (counted c1 s ?t)"
        using counted_okD(2) [OF inv1] cluster_invD(3) [OF inv1]
        by (auto simp: card_insert_if distinct_card)
      with maj tally [of ?t] have "n < 2 * card ?Q" by linarith
      moreover have "?Q \<subseteq> {..<n}" using s counted_okD(1) [OF inv1] by auto
      ultimately have "majority n ?Q" by (simp add: majority_def)
      moreover have "\<forall>v \<in> ?Q. vote_hist c1 v ?t = Some (int s)"
        using self counted_okD(4) [OF inv1] by blast
      ultimately show ?thesis unfolding chosen_def frame(2) t by blast
    qed
    then have "chosen n (put s rf c1) (CurrentTerm rf) s" if "identity rf = LEADER"
      using that put_hist_mono [OF inv1 s rf(2) le] unfolding chosen_def by blast
    then show ?thesis by (rule put_inv [OF inv1 s rf(2) le tally])
  qed
  with rf(1) show ?thesis unfolding c1_def by blast
qed

lemma handle_reply_quiet:
  assumes "raft_inv n s rf" "d < n" "\<nexists>a b. r = ReqVote a \<and> rep = RepVote b"
  shows "\<exists>rf'. handle_reply d r rep rf = Inr rf' \<and> raft_inv n s rf' \<and> quiet_step rf rf'"
  using assms sendApplyEntriesTo_inv [OF assms(1,2)] sendInstallSnapshotTo_inv [OF assms(1,2)]
  by (cases "(d, r, rep, rf)" rule: handle_reply.cases) auto

lemma deliver_reply_inv:
  assumes inv: "cluster_inv n c" and i: "i < length (net c)" and p: "net c ! i = Reply s k d r rep"
  shows "\<exists>c'. deliver i (net c ! i) c = Inr c' \<and> cluster_inv n c'"
proof (cases "incarnation c ! s = k")
  case False
  with take_packet_inv [OF inv i] show ?thesis by (simp add: p)
next
  case True
  define c1 where "c1 = count_vote s d r rep (take_packet i c)"
  have inv1: "cluster_inv n c1" unfolding c1_def by (rule count_vote_inv [OF inv i p])
  have "packet_ok n c (Reply s k d r rep)" using cluster_invD(5) [OF inv nth_mem [OF i]] by (simp only: p)
  then have s: "s < n" and d: "d < n" by auto
  have srv: "servers c1 ! s = servers c ! s" by (simp add: c1_def take_packet_def)
  have "\<exists>rf. handle_reply d r rep (servers c ! s) = Inr rf \<and> cluster_inv n (put s rf c1)"
  proof (cases "\<exists>a b. r = ReqVote a \<and> rep = RepVote b")
    case True
    then obtain a b where rb: "r = ReqVote a" "rep = RepVote b" by blast
    from vote_reply_inv [OF inv i p [unfolded rb]] show ?thesis unfolding rb c1_def handle_reply.simps .
  next
    case False
    from handle_reply_quiet [OF cluster_invD(2) [OF inv s] d False] obtain rf where
      "handle_reply d r rep (servers c ! s) = Inr rf" "raft_inv n s rf" "quiet_step (servers c1 ! s) rf"
      unfolding srv by blast
    with quiet_put_inv [OF inv1 s] show ?thesis by blast
  qed
  with True show ?thesis unfolding c1_def p deliver.simps by auto
qed

text \<open>A restarted peer has the term and the vote it had stored.\<close>

lemma crash_inv:
  assumes inv: "cluster_inv n c" and s: "s < n"
  shows "\<exists>c'. step_event (Crash s) c = Inr c' \<and> cluster_inv n c'"
proof -
  let ?ps = "persister (servers c ! s)"
  note len = cluster_invD(1) [OF inv]
  have "storage_ok ?ps" using cluster_invD(2) [OF inv s] by (simp add: raft_inv_def)
  from Make_inv [OF this s] obtain rf where rf: "Make n s ?ps = Inr rf" "raft_inv n s rf"
    "identity rf = FOLLOWER" "persister rf = ?ps" "\<forall>t. votes rf t = 0" by blast
  have "cluster_inv n (put s rf c)"
    by (rule put_inv [OF inv s rf(2)]) (simp_all add: rf stored_def)
  then have "cluster_inv n ((put s rf c)\<lparr>incarnation := z\<rparr>)" for z by (simp add: cluster_inv_defs)
  moreover have "Copy ?ps = ?ps" by (simp add: Copy_def)
  ultimately show ?thesis using rf(1) s len by simp
qed

text \<open>
  Every event leaves the invariant, and none but a delivery round to the service can panic.
\<close>

lemma step_event_inv:
  assumes inv: "cluster_inv n c" and ok: "event_ok e" and e: "\<And>s. e \<noteq> ApplyRound s"
  shows "\<exists>c'. step_event e c = Inr c' \<and> cluster_inv n c'"
proof -
  note len [simp] = cluster_invD(1) [OF inv]
  have put: "\<exists>c'. go_bind m (\<lambda>rf. Inr (put s rf c)) = Inr c' \<and> cluster_inv n c'"
    if "s < n" "\<exists>rf. m = Inr rf \<and> raft_inv n s rf \<and> quiet_step (servers c ! s) rf" for m s
    using that quiet_put_inv [OF inv that(1)] by auto
  show ?thesis
  proof (cases e)
    case (Election s)
    show ?thesis
    proof (cases "s < n")
      case True
      from ticker_election_inv [OF cluster_invD(2) [OF inv True]] obtain reqs rf where
        "ticker_election (servers c ! s) = Inr (reqs, rf)" by blast
      with True Election election_inv [OF inv True] show ?thesis by simp
    qed (use inv Election in simp)
  next
    case (HeartBeat s)
    then show ?thesis
      using inv ticker_heartbeat_inv [OF cluster_invD(2) [OF inv]] send_inv [OF inv] by fastforce
  next
    case (Propose s cmd)
    show ?thesis
    proof (cases "s < n")
      case True
      from Start_inv [OF cluster_invD(2) [OF inv True], of cmd] obtain res rs rf where
        st: "Start cmd (servers c ! s) = Inr (res, rs, rf)" "raft_inv n s rf"
          "quiet_step (servers c ! s) rf"
          "\<forall>(d, r) \<in> set rs. d < n \<and> d \<noteq> s \<and> request_ok r \<and> (\<forall>a. r \<noteq> ReqVote a)" by blast
      from send_inv [OF quiet_put_inv [OF inv True st(2,3)] True st(4)] st(1) True Propose
      show ?thesis by simp
    qed (use inv Propose in simp)
  next
    case (Deliver i)
    then show ?thesis
      using inv deliver_request_inv [OF inv, of i] deliver_reply_inv [OF inv, of i]
      by (cases "net c ! i") (auto simp del: deliver.simps)
  next
    case (Drop i)
    with inv take_packet_inv [OF inv, of i] show ?thesis by simp
  next
    case (TakeSnapshot s index data)
    with ok inv put Snapshot_inv [OF cluster_invD(2) [OF inv], of s index data] show ?thesis by simp
  next
    case (Crash s)
    with crash_inv [OF inv, of s] inv show ?thesis by (cases "s < n") auto
  next
    case (KillPeer s)
    with inv Kill_inv [OF cluster_invD(2) [OF inv, of s]] quiet_put_inv [OF inv, of s] show ?thesis by simp
  qed (use e in blast)
qed

lemma apply_round_inv:
  assumes inv: "cluster_inv n c" and step: "step_event (ApplyRound s) c = Inr c'"
  shows "cluster_inv n c'"
proof (cases "s < n")
  case True
  with step cluster_invD(1) [OF inv] obtain msgs rf where
    a: "applyLog (servers c ! s) = Inr (msgs, rf)"
      "c' = (put s rf c)\<lparr>applied := (applied c)(s := applied c s @ msgs)\<rparr>"
    by (auto simp: go_bind_eq_Inr)
  from applyLog_inv [OF cluster_invD(2) [OF inv True] a(1)] quiet_put_inv [OF inv True]
  have "cluster_inv n (put s rf c)" by blast
  then show ?thesis by (simp add: a(2) cluster_inv_defs)
next
  case False
  with step inv cluster_invD(1) [OF inv] show ?thesis by simp
qed

lemma cluster_step_inv: "cluster_inv n c \<Longrightarrow> cluster_step c c' \<Longrightarrow> cluster_inv n c'"
  by (elim cluster_stepE) (metis Inr_inject apply_round_inv step_event_inv)

lemma cluster_init_inv: "cluster_init n c \<Longrightarrow> cluster_inv n c"
proof -
  assume init: "cluster_init n c"
  have mk: "raft_inv n s (servers c ! s)" "identity (servers c ! s) = FOLLOWER"
    "VoteFor (servers c ! s) = Unvote" "votes (servers c ! s) t = 0" if "s < n" for s t
  proof -
    from Make_inv [OF storage_ok_fresh that] obtain rf :: "('a, 'b) raft" where
      "Make n s MakePersister = Inr rf" "raft_inv n s rf" "identity rf = FOLLOWER"
      "(CurrentTerm rf, VoteFor rf) = stored_vote (raftstate (MakePersister :: ('a LogEntry list, 'b) Persister))"
      "\<forall>t. votes rf t = 0" by blast
    with init that show "raft_inv n s (servers c ! s)" "identity (servers c ! s) = FOLLOWER"
      "VoteFor (servers c ! s) = Unvote" "votes (servers c ! s) t = 0"
      by (auto simp: cluster_init_def MakePersister_def)
  qed
  with init show ?thesis by (simp add: cluster_inv_defs cluster_init_def)
qed

interpretation raft_cluster: inductive_invariant "cluster_init n" cluster_step "cluster_inv n" for n
  by unfold_locales (fact cluster_init_inv, fact cluster_step_inv)

section \<open>Election safety\<close>

text \<open>A cluster of \<open>n\<close> peers that start with empty storage.\<close>

definition boot :: "nat \<Rightarrow> ('c, 'x) cluster" where
  "boot n =
     \<lparr>servers = map (\<lambda>s. projr (Make n s MakePersister)) [0..<n], incarnation = replicate n 0, net = [],
      vote_hist = (\<lambda>_ _. None), counted = (\<lambda>_ _. []), elected = [], applied = (\<lambda>_. [])\<rparr>"

lemma boot_reach: "cluster_reach n (boot n)"
proof (rule reach_init)
  have "Make n s MakePersister = Inr (projr (Make n s MakePersister) :: ('a, 'b) raft)" if "s < n" for s
    using Make_inv [OF storage_ok_fresh that, where ?'a = 'a and ?'b = 'b] by auto
  then show "cluster_init n (boot n :: ('a, 'b) cluster)" by (simp add: cluster_init_def boot_def)
qed

lemma chosen_unique:
  assumes "chosen n c t a" "chosen n c t b"
  shows "a = b"
proof -
  from assms obtain Q R where "majority n Q" "majority n R"
    "\<And>v. v \<in> Q \<Longrightarrow> vote_hist c v t = Some (int a)" "\<And>v. v \<in> R \<Longrightarrow> vote_hist c v t = Some (int b)"
    by (auto simp: chosen_def)
  from majority_quorum.quorum_vote_unique [OF this] show ?thesis by simp
qed

text \<open>
  C3: election safety. In every reachable state of a cluster of any size, whatever packets were
  lost, delayed or reordered and whichever peers crashed and restarted, each peer that is leader is
  recorded in the history of leaders, and that history never has two peers for one term.
\<close>

theorem election_safety:
  assumes "cluster_reach n c"
  shows "(\<forall>s<n. identity (servers c ! s) = LEADER \<longrightarrow>
      (CurrentTerm (servers c ! s), s) \<in> set (elected c)) \<and>
    (\<forall>t a b. (t, a) \<in> set (elected c) \<and> (t, b) \<in> set (elected c) \<longrightarrow> a = b)"
proof -
  from raft_cluster.inv_reach [OF assms] have el: "elected_ok n c" by (simp add: cluster_inv_def)
  then show ?thesis unfolding elected_ok_def using chosen_unique by blast
qed

text \<open>A run in which peer 0 wins the election of term 1 and, after a crash, peer 2 that of term 2.\<close>

definition two_elections :: "(nat, nat) event list" where
  "two_elections = [Election 0, Deliver 0, Deliver 1, Crash 0, Election 2, Election 2,
      Deliver 4, Deliver 4]"

lemma two_elections_run:
  "case run_events two_elections (boot 3) of
     Inr c \<Rightarrow> map identity (servers c) = [FOLLOWER, FOLLOWER, LEADER] \<and> elected c = [(2, 2), (1, 0)]
   | Inl _ \<Rightarrow> False"
  by code_simp

theorem election_safety_witness:
  "\<exists>c :: (nat, nat) cluster. cluster_reach 3 c \<and> elected c = [(2, 2), (1, 0)] \<and>
     (\<forall>t a b. (t, a) \<in> set (elected c) \<and> (t, b) \<in> set (elected c) \<longrightarrow> a = b)"
proof -
  from two_elections_run obtain c where c: "run_events two_elections (boot 3) = Inr c"
    "elected c = [(2, 2), (1, 0)]" by (auto split: sum.splits)
  have r: "cluster_reach 3 c"
    by (rule run_events_reach [OF boot_reach _ c(1)]) (simp add: two_elections_def)
  from election_safety [OF r] r c(2) show ?thesis by blast
qed

text \<open>
  C8: no panic. From every reachable state of a cluster, every event other than a delivery round
  runs without a Go run-time panic: no index is out of range and no \<^verbatim>\<open>panic\<close> call of
  \<^verbatim>\<open>raft.go\<close> is reached in any handler of a request, a reply, a timer, a client command, a
  snapshot or a restart.
\<close>

theorem cluster_no_panic:
  assumes "cluster_reach n c" "event_ok e" "\<And>s. e \<noteq> ApplyRound s"
  shows "\<exists>c'. step_event e c = Inr c'"
  using step_event_inv [OF raft_cluster.inv_reach [OF assms(1)] assms(2,3)] by blast

theorem cluster_no_panic_witness:
  "\<exists>c :: (nat, nat) cluster. cluster_reach 3 c \<and> net c \<noteq> [] \<and> (\<exists>c'. step_event (Deliver 0) c = Inr c')"
proof -
  have "case run_events [Election 0] (boot 3 :: (nat, nat) cluster) of
      Inr c \<Rightarrow> length (net c) = 2 | Inl _ \<Rightarrow> False" by code_simp
  then obtain c :: "(nat, nat) cluster" where c: "run_events [Election 0] (boot 3) = Inr c"
    "length (net c) = 2" by (auto split: sum.splits)
  have r: "cluster_reach 3 c" by (rule run_events_reach [OF boot_reach _ c(1)]) simp
  from cluster_no_panic [OF r, of "Deliver 0"] r c(2) show ?thesis by auto
qed

end
