(* ===== verification/RaftProps.thy ===== *)
theory RaftProps
  imports RaftServer
begin

text \<open>
  What the operations of one Raft peer achieve, stated for a peer that satisfies the invariant of
  \<open>RaftServer\<close>: the binary search, the replication of entries from a leader to a follower, the
  hints of a rejected append, the election restriction, the advance of the commit index, trimming
  and recovery, delivery to the service.
\<close>

section \<open>Searching the log\<close>

text \<open>
  C29: the binary search is right. On a non-empty log with non-decreasing terms \<^verbatim>\<open>findFirstIndex\<close>
  does not panic and returns the first position whose entry has a term of at least the one asked
  for, or the length of the log when there is none.
\<close>

theorem findFirstIndex_first:
  assumes "sorted_terms (Logs rf)" "Logs rf \<noteq> []"
  shows "\<exists>k. findFirstIndex t rf = Inr (int k) \<and> k \<le> length (Logs rf) \<and>
    (\<forall>i < k. Term (Logs rf ! i) < t) \<and> (\<forall>i. k \<le> i \<and> i < length (Logs rf) \<longrightarrow> t \<le> Term (Logs rf ! i))"
proof -
  let ?k = "first_geq t (Logs rf)"
  note iff = first_geq_less_iff [OF assms(1), where t = t]
  have "\<forall>i < ?k. Term (Logs rf ! i) < t" using iff first_geq_le [of t "Logs rf"] by auto
  moreover have "\<forall>i. ?k \<le> i \<and> i < length (Logs rf) \<longrightarrow> t \<le> Term (Logs rf ! i)"
    using iff by (auto simp: not_less [symmetric])
  ultimately show ?thesis
    using findFirstIndex_eq [OF assms, of t] first_geq_le [of t "Logs rf"] by (intro exI [of _ ?k]) simp
qed

text \<open>A peer with a log of four entries, for the concrete instances below.\<close>

definition sample_entry :: "int \<Rightarrow> nat LogEntry" where
  "sample_entry t = \<lparr>Command = Some (nat t), Term = t\<rparr>"

definition sample_peer :: "nat \<Rightarrow> int \<Rightarrow> int list \<Rightarrow> (nat, nat) raft" where
  "sample_peer s t ts = persist ((projr (Make 3 s MakePersister))
     \<lparr>CurrentTerm := t, Logs := \<lparr>Command = None, Term = 0\<rparr> # map sample_entry ts\<rparr>)"

lemma sample_peer_fields [simp]:
  "CurrentTerm (sample_peer s t ts) = t" "VoteFor (sample_peer s t ts) = Unvote"
  "Logs (sample_peer s t ts) = \<lparr>Command = None, Term = 0\<rparr> # map sample_entry ts"
  "DiscardCount (sample_peer s t ts) = 0" "committedIndex (sample_peer s t ts) = 0"
  "lastApplied (sample_peer s t ts) = 0" "lastIncludedIndex (sample_peer s t ts) = 0"
  "nextIndex (sample_peer s t ts) = [0, 0, 0]" "matchIndex (sample_peer s t ts) = [0, 0, 0]"
  "peers (sample_peer s t ts) = 3" "me (sample_peer s t ts) = s" "dead (sample_peer s t ts) = False"
  "identity (sample_peer s t ts) = FOLLOWER" "applySnappending (sample_peer s t ts) = False"
  by (simp_all add: sample_peer_def Make_def Let_def ReadSnapshot_def ReadRaftState_def
      MakePersister_def readSnapShot_def readPersist_def numeral_3_eq_3)

lemma sample_peer_inv:
  assumes "s < 3" "sorted ts" "\<forall>x \<in> set ts. 0 \<le> x \<and> x \<le> t" "0 \<le> t"
  shows "raft_inv 3 s (sample_peer s t ts)"
proof -
  obtain rf :: "(nat, nat) raft" where rf: "Make 3 s MakePersister = Inr rf" "raft_inv 3 s rf"
    using Make_inv [OF storage_ok_fresh assms(1)] by blast
  have "VoteFor rf = Unvote" "identity rf = FOLLOWER"
    using rf(1) by (auto simp: Make_def Let_def ReadSnapshot_def ReadRaftState_def MakePersister_def
        readSnapShot_def readPersist_def)
  moreover have "log_ok t (\<lparr>Command = None, Term = 0\<rparr> # map sample_entry ts)"
    using assms(2-4) by (intro log_okI) (auto simp: sample_entry_def comp_def)
  ultimately show ?thesis
    using rf unfolding sample_peer_def
    by (intro raft_inv_persist) (simp add: raft_inv_def raft_core_def)
qed

theorem findFirstIndex_first_witness:
  "\<exists>k. findFirstIndex 2 (sample_peer 0 5 [1, 1, 3, 5]) = Inr (int k) \<and> k \<le> 5 \<and>
     (\<forall>i < k. Term (Logs (sample_peer 0 5 [1, 1, 3, 5]) ! i) < 2)"
  using findFirstIndex_first [of "sample_peer 0 5 [1, 1, 3, 5]" 2]
  by (auto simp: sample_entry_def)

section \<open>Replication\<close>

text \<open>
  C30: an append that passes the consistency check puts the leader's entries after the matching
  one and cuts the log only when an entry conflicts: what follows the new entries is kept exactly
  when the terms of all old entries it replaces were the same. Nothing before the match changes.
\<close>

theorem ApplyEntries_appends:
  assumes "raft_inv n s rf" "CurrentTerm rf \<le> ae_Term args" "matches_prev args rf"
  shows "\<exists>reply rf'. ApplyEntries args rf = Inr (reply, rf') \<and> aer_Success reply \<and>
    (let k = nat (prev_pos args rf) + 1; old = drop k (Logs rf); es = ae_Entries args
     in Logs rf' = take k (Logs rf) @ es @
          (if map Term (take (length es) old) = map Term (take (length old) es)
           then drop (length es) old else []))"
  using ApplyEntries_match [OF assms(2,3) raft_inv_simps(7) [OF assms(1)]]
  by (simp add: Let_def merge_entries_eq)

definition sample_append :: "int \<Rightarrow> int \<Rightarrow> int list \<Rightarrow> int \<Rightarrow> nat ApplyEntriesArgs" where
  "sample_append prev pt ts commit =
     \<lparr>ae_Term = 5, ae_LeaderId = 1, ae_PrevLogIndex = prev, ae_PrevLogTerm = pt,
      ae_Entries = map sample_entry ts, ae_LeaderCommit = commit\<rparr>"

theorem ApplyEntries_appends_witness:
  "\<exists>reply rf'. ApplyEntries (sample_append 2 1 [4, 5] 0) (sample_peer 0 5 [1, 1, 3, 5]) = Inr (reply, rf') \<and>
     aer_Success reply \<and>
     Logs rf' = \<lparr>Command = None, Term = 0\<rparr> # map sample_entry [1, 1, 4, 5]"
  using ApplyEntries_appends [of 3 0 "sample_peer 0 5 [1, 1, 3, 5]" "sample_append 2 1 [4, 5] 0"]
    sample_peer_inv [of 0 "[1, 1, 3, 5]" 5]
  by (simp add: sample_append_def matches_prev_def prev_pos_def sample_entry_def)

text \<open>The append a leader sends carries the whole rest of its log.\<close>

lemma heartbeat_append:
  assumes "heartbeat_request rf i = Inr (ReqApply a)"
  shows "ae_Term a = CurrentTerm rf \<and> ae_LeaderCommit a = committedIndex rf \<and>
    (if ae_PrevLogIndex a < RaftIndex rf (int (length (Logs rf)) - 1)
     then 0 \<le> RealIndex rf (ae_PrevLogIndex a) \<and>
          ae_Entries a = drop (nat (RealIndex rf (ae_PrevLogIndex a) + 1)) (Logs rf)
     else ae_Entries a = [])"
proof -
  from assms obtain nxt where nxt: "go_index (nextIndex rf) (int i) = Inr nxt"
    "\<not> nxt \<le> lastIncludedIndex rf"
    by (auto simp: heartbeat_request_def go_bind_eq_Inr Let_def split: if_splits)
  show ?thesis
  proof (cases "RaftIndex rf (int (length (Logs rf)) - 1) \<ge> nxt")
    case True
    with assms nxt show ?thesis
      by (auto simp: heartbeat_request_def go_bind_eq_Inr Let_def go_from_eq_Inr RealIndex_def
          algebra_simps split: if_splits)
  next
    case False
    with assms nxt show ?thesis
      by (auto simp: heartbeat_request_def go_bind_eq_Inr Let_def split: if_splits)
  qed
qed

text \<open>
  C31: one round of replication. When a follower accepts the append that a leader's heartbeat makes
  for it, because its log matches at the previous index, then afterwards the follower's log agrees
  with the leader's at every index from there to the end of the leader's log.
\<close>

theorem replication_round:
  assumes "raft_inv n f F" "heartbeat_request L f = Inr (ReqApply a)"
    and "CurrentTerm F \<le> CurrentTerm L" "matches_prev a F"
  shows "\<exists>reply F'. ApplyEntries a F = Inr (reply, F') \<and> aer_Success reply \<and>
    (\<forall>j. ae_PrevLogIndex a < j \<and> j < RaftIndex L (int (length (Logs L))) \<longrightarrow>
       RealIndex F' j < int (length (Logs F')) \<and>
       Logs F' ! nat (RealIndex F' j) = Logs L ! nat (RealIndex L j))"
proof -
  note hb = heartbeat_append [OF assms(2)]
  let ?p = "ae_PrevLogIndex a" and ?es = "ae_Entries a"
  let ?k = "nat (prev_pos a F) + 1"
  have le: "CurrentTerm F \<le> ae_Term a" using hb assms(3) by simp
  note app = ApplyEntries_match [OF le assms(4) raft_inv_simps(7) [OF assms(1)], unfolded merge_entries_eq Let_def]
  have kpos: "0 \<le> prev_pos a F" "?k \<le> length (Logs F)" using assms(4) by (auto simp: matches_prev_def)
  from app obtain reply F' rest where F': "ApplyEntries a F = Inr (reply, F')" "aer_Success reply"
    "Logs F' = take ?k (Logs F) @ ?es @ rest" "DiscardCount F' = DiscardCount F" by fastforce
  have "RealIndex F' j < int (length (Logs F')) \<and>
      Logs F' ! nat (RealIndex F' j) = Logs L ! nat (RealIndex L j)"
    if j: "?p < j" "j < RaftIndex L (int (length (Logs L)))" for j
  proof -
    have es: "0 \<le> RealIndex L ?p" "?es = drop (nat (RealIndex L ?p + 1)) (Logs L)"
      using hb j by (auto simp: RaftIndex_def split: if_splits)
    define d where "d = nat (j - ?p - 1)"
    have F: "nat (RealIndex F' j) = ?k + d" "0 \<le> RealIndex F' j"
      using kpos j F'(4) by (auto simp: RealIndex_def prev_pos_def d_def)
    have L: "nat (RealIndex L j) = nat (RealIndex L ?p + 1) + d" "nat (RealIndex L j) < length (Logs L)"
      using es(1) j by (auto simp: RealIndex_def RaftIndex_def d_def)
    have d: "d < length ?es" using L by (simp add: es(2))
    have "Logs F' ! (?k + d) = ?es ! d" using kpos(2) d by (simp add: F'(3) nth_append)
    moreover have "?es ! d = Logs L ! nat (RealIndex L j)" using L by (simp add: es(2))
    moreover have "nat (RealIndex F' j) < length (Logs F')" using F(1) kpos(2) d by (simp add: F'(3))
    ultimately show ?thesis using F by simp
  qed
  with F'(1,2) show ?thesis by blast
qed

definition sample_leader :: "(nat, nat) raft" where
  "sample_leader = (sample_peer 1 5 [1, 1, 4, 5])\<lparr>identity := LEADER, nextIndex := [3, 3, 3]\<rparr>"

theorem replication_round_witness:
  "\<exists>reply F'. ApplyEntries (sample_append 2 1 [4, 5] 0) (sample_peer 0 5 [1, 1, 3]) = Inr (reply, F') \<and>
     (\<forall>j. 2 < j \<and> j < 5 \<longrightarrow> Logs F' ! nat (RealIndex F' j) =
        Logs sample_leader ! nat (RealIndex sample_leader j))"
proof -
  have hb: "heartbeat_request sample_leader 0 = Inr (ReqApply (sample_append 2 1 [4, 5] 0))" by code_simp
  have m: "matches_prev (sample_append 2 1 [4, 5] 0) (sample_peer 0 5 [1, 1, 3])"
    by (simp add: matches_prev_def prev_pos_def sample_append_def sample_entry_def)
  have "RaftIndex sample_leader (int (length (Logs sample_leader))) = 5"
    by (simp add: sample_leader_def RaftIndex_def)
  with replication_round [OF sample_peer_inv hb _ m] show ?thesis
    by (fastforce simp: sample_leader_def sample_append_def)
qed

text \<open>
  C32: the hints of a rejected append. A follower whose log does not match answers with the length of
  its log when the previous index lies beyond it, and else with the term of its entry there and the
  first index that has this term.
\<close>

theorem ApplyEntries_hints:
  assumes inv: "raft_inv n s rf" and t: "CurrentTerm rf \<le> ae_Term args" and m: "\<not> matches_prev args rf"
    and pos: "0 \<le> prev_pos args rf"
  shows "\<exists>reply rf'. ApplyEntries args rf = Inr (reply, rf') \<and> \<not> aer_Success reply \<and> Logs rf' = Logs rf \<and>
    (if ae_PrevLogIndex args \<ge> RaftIndex rf (int (length (Logs rf)))
     then aer_XIndex reply = InvalidIndex \<and> aer_XLen reply = RaftIndex rf (int (length (Logs rf)))
     else aer_XTerm reply = Term (Logs rf ! nat (prev_pos args rf)) \<and>
       (\<exists>i. aer_XIndex reply = RaftIndex rf (int i) \<and> i \<le> nat (prev_pos args rf) \<and>
          Term (Logs rf ! i) = aer_XTerm reply \<and> (\<forall>h < i. Term (Logs rf ! h) < aer_XTerm reply)))"
proof -
  note log = log_okD [OF raft_inv_simps(4) [OF inv]]
  note run = ApplyEntries_mismatch [OF t m log(1,2) raft_inv_simps(7) [OF inv]]
  have "ae_PrevLogIndex args \<ge> RaftIndex rf (int (length (Logs rf))) \<longleftrightarrow>
      int (length (Logs rf)) \<le> prev_pos args rf" by (auto simp: RaftIndex_def prev_pos_def)
  moreover have "\<exists>i. RaftIndex rf (int (first_geq (Term (Logs rf ! k)) (Logs rf))) = RaftIndex rf (int i) \<and>
      i \<le> k \<and> Term (Logs rf ! i) = Term (Logs rf ! k) \<and> (\<forall>h < i. Term (Logs rf ! h) < Term (Logs rf ! k))"
    if k: "k < length (Logs rf)" for k
  proof -
    let ?i = "first_geq (Term (Logs rf ! k)) (Logs rf)"
    note iff = first_geq_less_iff [OF log(2), where t = "Term (Logs rf ! k)"]
    have "?i \<le> k" using iff [OF k] by simp
    moreover have "Term (Logs rf ! ?i) = Term (Logs rf ! k)"
      using iff [of ?i] k \<open>?i \<le> k\<close> sorted_nth_mono [OF log(2), of ?i k] by auto
    ultimately show ?thesis using iff k by (intro exI [of _ ?i]) auto
  qed
  ultimately show ?thesis
    using run pos by (auto simp: Let_def blank_reply_def nat_less_iff not_le)
qed

theorem ApplyEntries_hints_witness:
  "\<exists>reply rf'. ApplyEntries (sample_append 3 4 [5] 0) (sample_peer 0 5 [1, 3, 3]) = Inr (reply, rf') \<and>
     \<not> aer_Success reply \<and> aer_XTerm reply = 3"
  using ApplyEntries_hints [of 3 0 "sample_peer 0 5 [1, 3, 3]" "sample_append 3 4 [5] 0"]
    sample_peer_inv [of 0 "[1, 3, 3]" 5]
  by (auto simp: sample_append_def matches_prev_def prev_pos_def sample_entry_def RaftIndex_def)

section \<open>Votes\<close>

text \<open>
  C33: the election restriction. A peer grants its vote only to a candidate whose log is at least as
  up to date as its own (a later last term, or the same last term and no shorter log), only in a term
  in which it has not voted for another candidate, and the vote is on stable storage when the reply
  is sent.
\<close>

theorem RequestVote_restriction:
  assumes inv: "raft_inv n s rf" and run: "RequestVote args rf = Inr (reply, rf')" "rvr_VoteGranted reply"
  shows "(rv_LastLogTerm args > Term (last (Logs rf)) \<or>
      (rv_LastLogTerm args = Term (last (Logs rf)) \<and>
       rv_LastLogIndex args \<ge> RaftIndex rf (int (length (Logs rf)) - 1))) \<and>
    (CurrentTerm rf < rv_Term args \<or>
     (CurrentTerm rf = rv_Term args \<and> VoteFor rf \<in> {Unvote, rv_CandidateId args})) \<and>
    stored_vote (raftstate (persister rf')) = (rv_Term args, rv_CandidateId args)"
proof -
  have ne: "Logs rf \<noteq> []" using log_okD(1) [OF raft_inv_simps(4) [OF inv]] .
  from run show ?thesis
    using go_index_last [OF ne]
    by (auto simp: RequestVote_def Let_def RaftIndex_def go_bind_eq_Inr split: if_splits)
qed

theorem RequestVote_restriction_witness:
  "\<exists>reply rf'. RequestVote \<lparr>rv_Term = 6, rv_CandidateId = 2, rv_LastLogIndex = 9, rv_LastLogTerm = 5\<rparr>
      (sample_peer 0 5 [1, 1, 3, 5]) = Inr (reply, rf') \<and>
     stored_vote (raftstate (persister rf')) = (6, 2)"
proof -
  let ?a = "\<lparr>rv_Term = 6, rv_CandidateId = 2, rv_LastLogIndex = 9, rv_LastLogTerm = 5\<rparr>"
  let ?rf = "sample_peer 0 5 [1, 1, 3, 5]"
  have inv: "raft_inv 3 0 ?rf" by (rule sample_peer_inv) simp_all
  have "rvr_VoteGranted (fst (projr (RequestVote ?a ?rf)))" by code_simp
  moreover obtain reply rf' where run: "RequestVote ?a ?rf = Inr (reply, rf')"
    using RequestVote_inv [OF inv] by blast
  ultimately show ?thesis using RequestVote_restriction [OF inv run] run by simp
qed

section \<open>Commit index\<close>

text \<open>
  C34: the commit rule. On a leader of a cluster of at least two peers \<^verbatim>\<open>updateCommittedIndex\<close> moves
  the commit index to the last entry of the current term that a majority of peers, the leader
  included, is recorded to hold, and leaves it where it is when there is no such entry beyond it; it
  never commits an entry of an older term directly.
\<close>

theorem updateCommittedIndex_majority:
  assumes "raft_inv n s rf" "2 \<le> n"
  shows "\<exists>res. updateCommittedIndex rf = Inr (rf\<lparr>committedIndex := res\<rparr>) \<and>
    ((res = committedIndex rf \<and> (\<forall>i. \<not> commit_ready rf i)) \<or>
     (\<exists>i. commit_ready rf i \<and> res = RaftIndex rf (int i) \<and> (\<forall>j. commit_ready rf j \<longrightarrow> j \<le> i)))"
  using updateCommittedIndex_spec [OF assms] .

theorem updateCommittedIndex_majority_witness:
  "\<exists>res. updateCommittedIndex ((sample_peer 1 5 [1, 5, 5])\<lparr>matchIndex := [2, 0, 1]\<rparr>) =
     Inr ((sample_peer 1 5 [1, 5, 5])\<lparr>matchIndex := [2, 0, 1], committedIndex := res\<rparr>)"
proof -
  have "raft_inv 3 1 ((sample_peer 1 5 [1, 5, 5])\<lparr>matchIndex := [2, 0, 1]\<rparr>)"
    using sample_peer_inv [of 1 "[1, 5, 5]" 5] by (simp add: raft_inv_def raft_core_def durable_vote_def)
  from updateCommittedIndex_majority [OF this] show ?thesis by auto
qed

text \<open>
  A follower's commit index may go back. There are a peer that satisfies the invariant and a
  well-formed append from a current leader after which the peer's commit index is smaller than
  before: the code takes the minimum of the leader's commit index and the first new entry.
\<close>

theorem commit_index_regresses:
  "\<exists>(rf :: (nat, nat) raft) args reply rf'. raft_inv 3 0 rf \<and>
     request_ok (ReqApply args :: (nat, nat) request) \<and> committedIndex rf \<le> ae_LeaderCommit args \<and>
     ApplyEntries args rf = Inr (reply, rf') \<and> aer_Success reply \<and> committedIndex rf' < committedIndex rf"
proof -
  let ?rf = "(sample_peer 0 5 [5, 5, 5])\<lparr>committedIndex := 3\<rparr>"
  let ?a = "sample_append 0 0 [5, 5, 5, 5] 4 :: nat ApplyEntriesArgs"
  have inv: "raft_inv 3 0 ?rf" by (intro raft_inv_committedIndex sample_peer_inv) simp_all
  have ok: "request_ok (ReqApply ?a :: (nat, nat) request)"
    by (simp add: sample_append_def sample_entry_def)
  obtain reply rf' where run: "ApplyEntries ?a ?rf = Inr (reply, rf')"
    using ApplyEntries_inv [OF inv ok] by blast
  have "case ApplyEntries ?a ?rf of Inr (r, rf') \<Rightarrow> aer_Success r \<and> committedIndex rf' = 1 | Inl _ \<Rightarrow> False"
    by code_simp
  with run have "aer_Success reply" "committedIndex rf' = 1" by auto
  moreover have "committedIndex ?rf \<le> ae_LeaderCommit ?a" by (simp add: sample_append_def)
  ultimately show ?thesis using inv ok run
    by (intro exI [of _ ?rf] exI [of _ ?a] exI [of _ reply] exI [of _ rf']) simp
qed

section \<open>Snapshots, recovery and delivery\<close>

text \<open>
  C35: taking a snapshot keeps the log. After the service has handed over a snapshot that covers
  entries of the log, every entry from the covered index on is found at the same index with the same
  contents, and no later entry is lost.
\<close>

theorem Snapshot_keeps_entries:
  assumes inv: "raft_inv n s rf" and ok: "snap_ok index snap"
    and idx: "lastIncludedIndex rf < index" "index < RaftIndex rf (int (length (Logs rf)))"
  shows "\<exists>rf'. Snapshot index snap rf = Inr rf' \<and>
    RaftIndex rf' (int (length (Logs rf'))) = RaftIndex rf (int (length (Logs rf))) \<and>
    (\<forall>i. index \<le> i \<and> i < RaftIndex rf (int (length (Logs rf))) \<longrightarrow>
       Logs rf' ! nat (RealIndex rf' i) = Logs rf ! nat (RealIndex rf i))"
proof -
  note D = raft_inv_simps(7) [OF inv]
  define rf3 where "rf3 = (let rf1 = (if committedIndex rf \<le> index then rf\<lparr>committedIndex := index\<rparr> else rf);
      rf2 = (if lastApplied rf1 \<le> index then rf1\<lparr>lastApplied := index\<rparr> else rf1)
    in rf2\<lparr>lastIncludedIndex := index, snapshot := snap\<rparr>)"
  have f: "Logs rf3 = Logs rf" "DiscardCount rf3 = DiscardCount rf" "lastIncludedIndex rf3 = index"
    by (simp_all add: rf3_def Let_def)
  have ne: "Logs rf3 \<noteq> []" using log_okD(1) [OF raft_inv_simps(4) [OF inv]] by (simp add: f)
  have run: "Snapshot index snap rf = doSnapshot rf3" using idx(1) by (simp add: Snapshot_def rf3_def Let_def)
  have cov: "covered rf3 = nat (index - DiscardCount rf)" "covered rf3 \<le> length (Logs rf)"
    using idx D by (auto simp: covered_def f RaftIndex_def)
  have "Logs rf3 ! (covered rf3 + nat (i - index)) = Logs rf ! nat (RealIndex rf i)"
    if "index \<le> i" for i
    using cov(1) idx(1) D that by (simp add: f RealIndex_def nat_add_distrib [symmetric])
  with cov idx(1) D show ?thesis
    unfolding run doSnapshot_eq [OF ne]
    by (auto simp: f RaftIndex_def RealIndex_def)
qed

theorem Snapshot_keeps_entries_witness:
  "\<exists>rf'. Snapshot 2 [GInt 2] (sample_peer 0 5 [1, 1, 3, 5]) = Inr rf' \<and>
     Logs rf' ! nat (RealIndex rf' 3) = sample_entry 3"
  using Snapshot_keeps_entries [of 3 0 "sample_peer 0 5 [1, 1, 3, 5]" 2 "[GInt 2]"]
    sample_peer_inv [of 0 "[1, 1, 3, 5]" 5]
  by (auto simp: RaftIndex_def RealIndex_def snap_ok_def numeral_2_eq_2 numeral_3_eq_3)

text \<open>
  C23: crash recovery. A peer that is made from what \<^verbatim>\<open>persist\<close> wrote has the term, the vote, the log
  and the snapshot of the peer that wrote it, its indices fit the snapshot, and it is a follower
  that satisfies the invariant.
\<close>

theorem persist_Make:
  assumes "raft_inv n s rf"
  shows "\<exists>rf'. Make n s (persister (persist rf)) = Inr rf' \<and> raft_inv n s rf' \<and> identity rf' = FOLLOWER \<and>
    CurrentTerm rf' = CurrentTerm rf \<and> VoteFor rf' = VoteFor rf \<and> Logs rf' = Logs rf \<and>
    snapshot rf' = snapshot rf \<and> lastIncludedIndex rf' = lastIncludedIndex rf \<and>
    DiscardCount rf' = DiscardCount rf \<and> committedIndex rf' = lastIncludedIndex rf \<and>
    lastApplied rf' = lastIncludedIndex rf"
proof -
  have core: "raft_core n s rf" by (rule raft_inv_core [OF assms])
  have ok: "storage_ok (persister (persist rf))"
    using raft_inv_persist [OF core] by (simp add: raft_inv_def)
  from Make_inv [OF ok raft_inv_simps(3) [OF assms]] obtain rf' where
    rf': "Make n s (persister (persist rf)) = Inr rf'" "raft_inv n s rf'" "identity rf' = FOLLOWER" by blast
  have sn: "snapshot rf = [] \<and> lastIncludedIndex rf = 0 \<or>
      (\<exists>r. snapshot rf = GInt (lastIncludedIndex rf) # r)" "DiscardCount rf = lastIncludedIndex rf"
    using core by (cases "snapshot rf"; auto simp: raft_core_def snap_ok_def)+
  have "readPersist [GInt t, GInt v, GVal l] r = r\<lparr>CurrentTerm := t, VoteFor := v, Logs := l\<rparr>"
    for t v l and r :: "('a, 'b) raft" by (simp add: readPersist_def)
  with rf' sn show ?thesis
    by (auto simp: Make_def Let_def ReadSnapshot_def ReadRaftState_def readSnapShot_def)
qed

theorem persist_Make_witness:
  "\<exists>rf'. Make 3 0 (persister (persist (sample_peer 0 5 [1, 1, 3, 5]))) = Inr rf' \<and>
     CurrentTerm rf' = 5 \<and> Logs rf' = \<lparr>Command = None, Term = 0\<rparr> # map sample_entry [1, 1, 3, 5]"
  using persist_Make [OF sample_peer_inv, of 0 "[1, 1, 3, 5]" 5] by auto

text \<open>
  What the receivers of the channel require: a command has the index after the last one. A snapshot moves
  the receiver to its index; the services (\<open>skip\<close>) ignore one that lies behind them, the receiver of the
  tests (\<^verbatim>\<open>applierSnap\<close> in \<^verbatim>\<open>raft/config.go\<close>) goes back to it. None is a command out of order.
\<close>

fun receive :: "bool \<Rightarrow> int \<Rightarrow> ('c, 'x) ApplyMsg list \<Rightarrow> int option" where
  "receive skip p [] = Some p"
| "receive skip p (m # ms) =
     (if CommandValid m then (if CommandIndex m = p + 1 then receive skip (p + 1) ms else None)
      else if SnapshotValid m then receive skip (if skip \<and> SnapshotIndex m < p then p else SnapshotIndex m) ms
      else receive skip p ms)"

lemma receive_append: "receive skip p (xs @ ys) = Option.bind (receive skip p xs) (\<lambda>q. receive skip q ys)"
  by (induction xs arbitrary: p) auto

lemma receive_commands: "receive skip p (map (\<lambda>i. command_msg (f i) i) [p + 1..q]) = Some (max p q)"
proof (induction "nat (q - p)" arbitrary: p)
  case 0
  then show ?case by simp
next
  case (Suc n)
  then have "[p + 1..q] = (p + 1) # [p + 1 + 1..q]" by (simp add: upto_rec1)
  with Suc(1) [of "p + 1"] Suc(2) show ?case by (simp add: command_msg_def max_def)
qed

lemma applyLog_messages:
  assumes inv: "raft_inv n s rf" and live: "\<not> dead rf" and log: "committedIndex rf < RaftIndex rf (int (length (Logs rf)))"
  shows "\<exists>rf'. applyLog rf =
      Inr ((if applySnappending rf
            then [snapshot_msg (snapshot rf) (Term (Logs rf ! 0)) (lastIncludedIndex rf)] else []) @
           map (\<lambda>i. command_msg (Command (Logs rf ! nat (RealIndex rf i))) i)
             [max (lastApplied rf) (lastIncludedIndex rf) + 1..committedIndex rf], rf') \<and>
    lastApplied rf' = (if lastApplied rf < committedIndex rf then max (committedIndex rf) (lastIncludedIndex rf) else lastApplied rf) \<and>
    lastIncludedIndex rf' = lastIncludedIndex rf \<and> \<not> applySnappending rf'"
proof (cases "lastApplied rf < committedIndex rf")
  case work: True
  define rf1 where "rf1 = rf\<lparr>applySnappending := False, lastApplied := max (lastApplied rf) (lastIncludedIndex rf)\<rparr>"
  define m where "m = (if applySnappending rf
    then [snapshot_msg (snapshot rf) (Term (Logs rf ! 0)) (lastIncludedIndex rf) :: ('a, 'b) ApplyMsg] else [])"
  note D = raft_inv_simps(7) [OF inv]
  have e0: "go_index (Logs rf) 0 = Inr (Logs rf ! 0)"
    using log_okD(1) [OF raft_inv_simps(4) [OF inv]] by (simp add: go_index_def)
  have same: "rf\<lparr>applySnappending := False\<rparr> = rf" if "\<not> applySnappending rf" using that by simp
  have "applyLog rf = apply_loop rf1 m"
    using live work e0 by (cases "applySnappending rf") (auto simp: applyLog_def rf1_def m_def max_def same)
  also have "\<dots> = Inr (m @ map (\<lambda>i. command_msg (Command (Logs rf1 ! nat (RealIndex rf1 i))) i)
      [lastApplied rf1 + 1..committedIndex rf1],
      rf1\<lparr>lastApplied := max (lastApplied rf1) (committedIndex rf1)\<rparr>)"
    using D log by (intro apply_loop_eq) (auto simp: rf1_def RaftIndex_def)
  finally show ?thesis using work by (auto simp: rf1_def m_def RealIndex_def)
next
  case idle: False
  have "go_index (Logs rf) 0 = Inr (Logs rf ! 0)"
    using log_okD(1) [OF raft_inv_simps(4) [OF inv]] by (simp add: go_index_def)
  with idle live show ?thesis by (auto simp: applyLog_def)
qed


text \<open>A peer that installs the snapshot of index 1 and then learns that index 3 is committed.\<close>

definition snapshot_peer :: "(nat, nat) raft" where
  "snapshot_peer = (snd (projr (InstallSnapshot
     \<lparr>is_Term = 5, is_LeaderId = 1, is_LastIncludedIndex = 1, is_LastIncludedTerm = 1, is_Data = [GInt 1]\<rparr>
     (sample_peer 0 5 [1, 1, 3]))))\<lparr>committedIndex := 3\<rparr>"


end
