(* ===== verification/RaftAnomalies.thy ===== *)
theory RaftAnomalies
  imports RaftCluster RaftProps
begin

text \<open>
  Executions of a Raft cluster that show what the code does not guarantee: an append that lies inside a
  follower's snapshot is acknowledged although nothing was stored, and a snapshot that arrives late is
  delivered again. The services of these runs take a snapshot only of what was delivered to them.
\<close>

section \<open>Runs\<close>

definition commands :: "('c, 'x) ApplyMsg list \<Rightarrow> (int \<times> 'c option) list" where
  "commands ms = map (\<lambda>m. (CommandIndex m, am_Command m)) (filter CommandValid ms)"

text \<open>Every snapshot that a service takes in a run covers an index that was delivered to it.\<close>

fun own_snapshot :: "('c, 'x) event \<Rightarrow> ('c, 'x) cluster \<Rightarrow> bool" where
  "own_snapshot (TakeSnapshot s index data) c \<longleftrightarrow> index \<in> fst ` set (commands (applied c s))"
| "own_snapshot _ c \<longleftrightarrow> True"

fun own_snapshots :: "('c, 'x) event list \<Rightarrow> ('c, 'x) cluster \<Rightarrow> bool" where
  "own_snapshots [] c \<longleftrightarrow> True"
| "own_snapshots (e # es) c \<longleftrightarrow> event_ok e \<and> own_snapshot e c \<and>
     (case step_event e c of Inl _ \<Rightarrow> True | Inr c' \<Rightarrow> own_snapshots es c')"

lemma own_snapshots_reach:
  "own_snapshots es c \<Longrightarrow> cluster_reach n c \<Longrightarrow> run_events es c = Inr c' \<Longrightarrow> cluster_reach n c'"
proof (induction es arbitrary: c)
  case (Cons e es)
  then obtain c1 where "step_event e c = Inr c1" "run_events es c1 = Inr c'" "event_ok e" "own_snapshots es c1"
    by (auto simp: go_simps)
  with Cons.IH [of c1] Cons.prems(2) reach_step cluster_event show ?case by metis
qed simp

section \<open>A stale append answered with success\<close>

text \<open>
  \<^verbatim>\<open>ApplyEntries\<close> answers \<^verbatim>\<open>Success\<close> without appending when the previous index lies in the
  follower's snapshot (line 472), and \<^verbatim>\<open>sendApplyEntriesTo\<close> takes it that all entries of the
  request are stored there (line 760). In the run below peer 1 holds entry 1 and has cut its log
  there, the replies that said so were lost, and peer 0 sends entries 1 and 2 again.
\<close>

definition before_append :: "(nat, nat) event list" where
  "before_append =
     [Election 0, Deliver 0, Deliver 1, Propose 0 10, Drop 0, Deliver 1, Deliver 1, Deliver 0, Drop 0,
      HeartBeat 0, Deliver 0, Drop 0, Drop 0, ApplyRound 1, TakeSnapshot 1 1 [GInt 1], Propose 0 20]"

definition after_append :: "(nat, nat) event list" where
  "after_append =
     [ApplyRound 0, Drop 0, Election 2, Drop 0, Deliver 0, Deliver 0, Propose 2 30, Drop 0, Deliver 0, Deliver 0,
      ApplyRound 2]"

text \<open>
  Packet \<open>i\<close> is an append to peer \<open>d\<close> from before its snapshot, which the peer answers with success although
  its log is the same as before, without an entry at index \<open>k\<close>; when the answer arrives, the leader moves
  its commit index to \<open>k\<close>.
\<close>

definition acknowledged_unstored :: "nat \<Rightarrow> nat \<Rightarrow> int \<Rightarrow> ('c, 'x) cluster \<Rightarrow> bool" where
  "acknowledged_unstored i d k c \<longleftrightarrow> i < length (net c) \<and>
     (case net c ! i of
        Request s inc d' (ReqApply a) \<Rightarrow> d' = d \<and> ae_PrevLogIndex a < lastIncludedIndex (servers c ! d) \<and>
          (case step_event (Deliver i) c of Inl _ \<Rightarrow> False
           | Inr c1 \<Rightarrow>
               Logs (servers c1 ! d) = Logs (servers c ! d) \<and> RaftIndex (servers c1 ! d) (int (length (Logs (servers c1 ! d)))) \<le> k \<and>
               (case last (net c1) of
                  Reply s' inc' d'' r (RepApply rep) \<Rightarrow> s' = s \<and> d'' = d \<and> aer_Success rep \<and>
                    (case step_event (Deliver (length (net c1) - 1)) c1 of Inl _ \<Rightarrow> False
                     | Inr c2 \<Rightarrow> committedIndex (servers c1 ! s) < k \<and> committedIndex (servers c2 ! s) = k)
                | _ \<Rightarrow> False))
      | _ \<Rightarrow> False)"

definition stale_append :: "(nat, nat) event list" where
  "stale_append = before_append @ [Deliver 0, Deliver 1] @ after_append"

lemma stale_append_run:
  "case run_events before_append (boot 3) of Inl _ \<Rightarrow> False
   | Inr c \<Rightarrow> acknowledged_unstored 0 1 2 c \<and> length (net c) = 2"
  "case run_events stale_append (boot 3) of Inl _ \<Rightarrow> False
   | Inr c \<Rightarrow> commands (applied c 0) = [(1, Some 10), (2, Some 20)] \<and> commands (applied c 2) = [(1, Some 10), (2, Some 30)]"
  "own_snapshots stale_append (boot 3)"
  by code_simp+

text \<open>
  C37: because of the stale append, two peers deliver different commands at one index. In a run of three
  peers, whose services take snapshots only of what was delivered to them, an append that starts
  before the snapshot of peer 1 is answered with success although peer 1 stores nothing and has no
  entry 2; the leader, peer 0, commits index 2 on that answer. The run goes on to a state in which
  peer 0 has delivered 20 and peer 2 has delivered 30 at index 2.
\<close>

theorem stale_append_diverges:
  "\<exists>c1 c :: (nat, nat) cluster. run_events before_append (boot 3) = Inr c1 \<and> acknowledged_unstored 0 1 2 c1 \<and>
     own_snapshots stale_append (boot 3 :: (nat, nat) cluster) \<and> run_events stale_append (boot 3) = Inr c \<and> cluster_reach 3 c \<and>
     (2, Some 20) \<in> set (commands (applied c 0)) \<and> (2, Some 30) \<in> set (commands (applied c 2))"
proof -
  from stale_append_run(1) obtain c1 :: "(nat, nat) cluster" where
    "run_events before_append (boot 3) = Inr c1" "acknowledged_unstored 0 1 2 c1" by (auto split: sum.splits)
  moreover from stale_append_run(2) obtain c where "run_events stale_append (boot 3) = Inr c"
    "commands (applied c 0) = [(1, Some 10), (2, Some 20)]" "commands (applied c 2) = [(1, Some 10), (2, Some 30)]"
    by (auto split: sum.splits)
  moreover have "cluster_reach 3 c" using own_snapshots_reach [OF stale_append_run(3) boot_reach calculation(3)] .
  ultimately show ?thesis using stale_append_run(3) by (intro exI [of _ c1] exI [of _ c]) simp
qed

section \<open>A snapshot that arrives late\<close>

text \<open>
  Peer 0 sends its snapshot of index 1 to peer 1, which receives the entries 1 and 2, and delivers them,
  before the snapshot arrives. \<^verbatim>\<open>InstallSnapshot\<close> compares it only with the peer's own snapshot, and peer
  1 has none: the snapshot is delivered after command 2, and command 3 follows.
\<close>

definition late_snapshot :: "(nat, nat) event list" where
  "late_snapshot =
     [Election 0, Deliver 0, Deliver 1, Propose 0 10, Drop 0, Deliver 1, Deliver 1, ApplyRound 0, TakeSnapshot 0 1 [GInt 1],
      HeartBeat 0, Deliver 0, Deliver 2, Propose 0 20, Deliver 2, Deliver 3, HeartBeat 0, Deliver 3, ApplyRound 1,
      Deliver 0, Propose 0 30, Deliver 5, Deliver 6, HeartBeat 0, Deliver 6, ApplyRound 1]"

lemma late_snapshot_run:
  "case run_events late_snapshot (boot 3) of Inl _ \<Rightarrow> False
   | Inr c \<Rightarrow> map (\<lambda>m. if CommandValid m then CommandIndex m else - SnapshotIndex m) (applied c 1) = [1, 2, -1, 3] \<and>
       receive False 0 (applied c 1) = None \<and> receive True 0 (applied c 1) = Some 3"
  "own_snapshots late_snapshot (boot 3)"
  by code_simp+

text \<open>
  A receiver that goes back to every snapshot, as the one of \<^verbatim>\<open>raft/config.go\<close> does, gets a command out of
  order in this run; the services, which skip a snapshot behind them, do not.
\<close>

lemma late_snapshot_out_of_order:
  "\<exists>c :: (nat, nat) cluster. cluster_reach 3 c \<and> run_events late_snapshot (boot 3) = Inr c \<and>
     receive False 0 (applied c 1) = None \<and> receive True 0 (applied c 1) = Some 3"
proof -
  from late_snapshot_run(1) obtain c :: "(nat, nat) cluster" where c: "run_events late_snapshot (boot 3) = Inr c"
    "receive False 0 (applied c 1) = None" "receive True 0 (applied c 1) = Some 3" by (auto split: sum.splits)
  with own_snapshots_reach [OF late_snapshot_run(2) boot_reach c(1)] show ?thesis by blast
qed

end
