(* ===== verification/ShardBalance.thy ===== *)
theory ShardBalance
  imports Prelude "HOL-Library.AList" "HOL-Library.Multiset"
begin

text \<open>
  Configurations of the shard controller and the balancing of shards over replica groups
  (\<^verbatim>\<open>src/shardctrler/common.go\<close>, \<^verbatim>\<open>makeShardBalance\<close> and the cloning functions of
  \<^verbatim>\<open>src/shardctrler/server.go\<close>).

  A Go map with integer keys is an association list with distinct keys; the order in which
  \<^verbatim>\<open>range\<close> visits a map is not specified by Go, so it is an argument \<open>order\<close>, a permutation of the
  keys. An array \<^verbatim>\<open>[NShards]int\<close> is a list of that length. The results: the balancing never
  panics, gives every shard to a live group, spreads the shards as evenly as possible, moves as
  few shards as any balanced assignment must, and does not depend on the iteration order.
\<close>

section \<open>Configurations\<close>

type_synonym gid = int
type_synonym 'v gomap = "(gid \<times> 'v) list"

definition NShards :: nat where
  "NShards = 10"

definition InvalidGid :: gid where
  "InvalidGid = 0"

record Config =
  Num :: int
  Shards :: "gid list"
  Groups :: "string list gomap"

definition cloneStringSlice :: "string list \<Rightarrow> string list" where
  "cloneStringSlice a = take (length a) a"

definition cloneMap :: "string list gomap \<Rightarrow> string list gomap" where
  "cloneMap a = fold (\<lambda>(k, v) b. AList.update k (cloneStringSlice v) b) a []"

definition CloneConfig :: "Config \<Rightarrow> Config" where
  "CloneConfig a = \<lparr>Num = Num a, Shards = Shards a, Groups = cloneMap (Groups a)\<rparr>"

section \<open>The balancing code\<close>

text \<open>The first loop: count the shards each group keeps, collect the others.\<close>

fun surplus_loop ::
    "gid set \<Rightarrow> int \<Rightarrow> int \<Rightarrow> gid list \<Rightarrow> (gid \<rightharpoonup> int) \<Rightarrow> int \<Rightarrow> int list \<Rightarrow> (gid \<rightharpoonup> int) \<times> int \<times> int list" where
  "surplus_loop groups x i [] cnt r shards = (cnt, r, shards)"
| "surplus_loop groups x i (gid # gids) cnt r shards =
     (if gid \<in> groups then
        let cnt = (if cnt gid = None then cnt(gid \<mapsto> 0) else cnt);
            c = the (cnt gid)
        in if c \<ge> x then
             (if c = x then
                (if r = 0 then surplus_loop groups x (i + 1) gids cnt r (shards @ [i])
                 else surplus_loop groups x (i + 1) gids (cnt(gid \<mapsto> c + 1)) (r - 1) shards)
              else surplus_loop groups x (i + 1) gids cnt r (shards @ [i]))
           else surplus_loop groups x (i + 1) gids (cnt(gid \<mapsto> c + 1)) r shards
      else surplus_loop groups x (i + 1) gids cnt r (shards @ [i]))"

text \<open>Give the last collected shard to a group.\<close>

definition give_last :: "gid \<Rightarrow> gid list \<Rightarrow> int list \<Rightarrow> (gid list \<times> int list) go" where
  "give_last gid Sh shards =
     go_bind (go_index shards (int (length shards) - 1)) (\<lambda>k.
     go_bind (go_store Sh k gid) (\<lambda>Sh'.
     go_bind (go_upto shards (int (length shards) - 1)) (\<lambda>shards'.
       Inr (Sh', shards'))))"

function fill_loop :: "gid \<Rightarrow> int \<Rightarrow> int \<Rightarrow> gid list \<Rightarrow> int list \<Rightarrow> (int \<times> gid list \<times> int list) go" where
  "fill_loop gid x i Sh shards =
     (if i < x
      then go_bind (give_last gid Sh shards) (\<lambda>(Sh', shards'). fill_loop gid x (i + 1) Sh' shards')
      else Inr (i, Sh, shards))"
  by pat_completeness auto
termination
  by (relation "measure (\<lambda>(gid, x, i, Sh, shards). nat (x - i))") auto

declare fill_loop.simps [simp del]

fun assign_loop :: "int \<Rightarrow> (gid \<times> int) list \<Rightarrow> int \<Rightarrow> gid list \<Rightarrow> int list \<Rightarrow> gid list go" where
  "assign_loop x [] r Sh shards = Inr Sh"
| "assign_loop x ((gid, i) # t) r Sh shards =
     go_bind (fill_loop gid x i Sh shards) (\<lambda>(i', Sh1, shards1).
       if i' = x \<and> r > 0
       then go_bind (give_last gid Sh1 shards1) (\<lambda>(Sh2, shards2).
              assign_loop x t (r - 1) Sh2 shards2)
       else assign_loop x t r Sh1 shards1)"

definition makeShardBalance :: "gid list \<Rightarrow> Config \<Rightarrow> Config go" where
  "makeShardBalance order config =
     (let groups = set (map fst (Groups config));
          groupNum = int (length (Groups config))
      in if groupNum = 0 then Inr (config\<lparr>Shards := map (\<lambda>_. InvalidGid) (Shards config)\<rparr>)
      else
        let x = int NShards div groupNum;
            r = int NShards mod groupNum
        in case surplus_loop groups x 0 (Shards config) Map.empty r [] of (cnt, r, shards) \<Rightarrow>
             let t = map (\<lambda>gid. (gid, case cnt gid of None \<Rightarrow> 0 | Some i \<Rightarrow> i)) order;
                 t = sort_key fst t
             in go_bind (assign_loop x t r (Shards config) shards) (\<lambda>Sh.
                  Inr (config\<lparr>Shards := Sh\<rparr>)))"

section \<open>Loads\<close>

text \<open>
  The load of a group is the number of shards it holds among those outside \<open>U\<close>, the shards that
  are not yet placed. \<open>balancing\<close> is the invariant of both loops: \<open>r\<close> of the \<open>r0\<close> groups that may
  have one shard more than \<open>x\<close> are still to be chosen.
\<close>

definition load :: "gid list \<Rightarrow> nat set \<Rightarrow> gid \<Rightarrow> nat" where
  "load Sh U g = card {i. i < length Sh \<and> Sh ! i = g \<and> i \<notin> U}"

definition balancing :: "gid set \<Rightarrow> nat \<Rightarrow> nat \<Rightarrow> nat \<Rightarrow> gid list \<Rightarrow> nat set \<Rightarrow> bool" where
  "balancing K x r0 r Sh U \<longleftrightarrow>
     U \<subseteq> {..<length Sh} \<and> (\<forall>i < length Sh. i \<notin> U \<longrightarrow> Sh ! i \<in> K) \<and>
     (\<forall>g \<in> K. load Sh U g \<le> x + 1) \<and> r + card {g \<in> K. load Sh U g = x + 1} = r0"

lemma load_place:
  assumes "k \<in> U" "k < length Sh"
  shows "load (Sh[k := g]) (U - {k}) h = (if h = g then Suc (load Sh U h) else load Sh U h)"
proof -
  have "{i. i < length Sh \<and> Sh[k := g] ! i = h \<and> i \<notin> U - {k}} =
      (if h = g then insert k {i. i < length Sh \<and> Sh ! i = h \<and> i \<notin> U}
       else {i. i < length Sh \<and> Sh ! i = h \<and> i \<notin> U})"
    using assms by (auto simp: nth_list_update)
  with assms show ?thesis by (auto simp: load_def)
qed

lemma load_sum:
  assumes "finite K" "\<forall>i < length Sh. i \<notin> U \<longrightarrow> Sh ! i \<in> K" "U \<subseteq> {..<length Sh}"
  shows "(\<Sum>g\<in>K. load Sh U g) + card U = length Sh"
proof -
  have "(\<Sum>g\<in>K. load Sh U g) = card (\<Union>g\<in>K. {i. i < length Sh \<and> Sh ! i = g \<and> i \<notin> U})"
    unfolding load_def by (rule card_UN_disjoint [symmetric]) (use assms(1) in auto)
  also have "(\<Union>g\<in>K. {i. i < length Sh \<and> Sh ! i = g \<and> i \<notin> U}) = {..<length Sh} - U"
    using assms(2) by auto
  also have "card \<dots> = length Sh - card U"
    using assms(3) by (simp add: card_Diff_subset finite_subset)
  finally show ?thesis using card_mono [OF _ assms(3)] by simp
qed

lemma sum_load_le:
  assumes "finite K" "\<And>g. g \<in> K \<Longrightarrow> f g \<le> Suc x"
  shows "(\<Sum>g\<in>K. f g) \<le> card K * x + card {g \<in> K. f g = Suc x}"
proof -
  have "(\<Sum>g\<in>K. f g) \<le> (\<Sum>g\<in>K. x + of_bool (f g = Suc x))"
    by (rule sum_mono) (use assms(2) in \<open>force simp: le_Suc_eq\<close>)
  also have "\<dots> = card K * x + card {g \<in> K. f g = Suc x}"
    using assms(1) by (simp add: sum.distrib of_bool_def sum.If_cases Int_def)
  finally show ?thesis .
qed

lemma balancing_small:
  assumes "balancing K x r0 r Sh U" "k \<in> U" "g \<in> K" "load Sh U g < x"
  shows "balancing K x r0 r (Sh[k := g]) (U - {k})"
proof -
  have k: "k < length Sh" using assms by (auto simp: balancing_def)
  have "{h \<in> K. load (Sh[k := g]) (U - {k}) h = x + 1} = {h \<in> K. load Sh U h = x + 1}"
    using assms(2-4) k by (auto simp: load_place)
  with assms k show ?thesis by (auto simp: balancing_def load_place nth_list_update)
qed

lemma balancing_extra:
  assumes "balancing K x r0 (Suc r) Sh U" "finite K" "k \<in> U" "g \<in> K" "load Sh U g = x"
  shows "balancing K x r0 r (Sh[k := g]) (U - {k})"
proof -
  have k: "k < length Sh" using assms by (auto simp: balancing_def)
  have "{h \<in> K. load (Sh[k := g]) (U - {k}) h = x + 1} = insert g {h \<in> K. load Sh U h = x + 1}"
    using assms(3-5) k by (auto simp: load_place)
  moreover have "g \<notin> {h \<in> K. load Sh U h = x + 1}" using assms(5) by simp
  ultimately have "card {h \<in> K. load (Sh[k := g]) (U - {k}) h = x + 1} =
      Suc (card {h \<in> K. load Sh U h = x + 1})" using assms(2) by simp
  with assms k show ?thesis by (auto simp: balancing_def load_place nth_list_update)
qed

text \<open>While a group is short of shards, some shard is not yet placed.\<close>

lemma balancing_open:
  assumes bal: "balancing K x r0 r Sh U" and K: "finite K" "g \<in> K"
    and len: "length Sh = card K * x + r0"
    and short: "load Sh U g < x \<or> (load Sh U g = x \<and> 0 < r)"
  shows "U \<noteq> {}"
proof
  assume U: "U = {}"
  define f where "f = (load Sh U)(g := Suc (load Sh U g))"
  have le: "f h \<le> Suc x" if "h \<in> K" for h using that bal short by (auto simp: f_def balancing_def)
  have "(\<Sum>h\<in>K. f h) = Suc (\<Sum>h\<in>K. load Sh U h)"
    using K by (simp add: f_def sum.remove [of K g])
  moreover have "(\<Sum>h\<in>K. load Sh U h) = length Sh"
    using load_sum [OF K(1), of Sh U] bal U by (simp add: balancing_def)
  moreover have "card {h \<in> K. f h = Suc x} \<le> r0"
  proof (cases "load Sh U g < x")
    case True
    then have "{h \<in> K. f h = Suc x} = {h \<in> K. load Sh U h = x + 1}" by (auto simp: f_def)
    with bal show ?thesis by (simp add: balancing_def)
  next
    case False
    with short have *: "load Sh U g = x" "0 < r" by auto
    have "card {h \<in> K. f h = Suc x} \<le> card (insert g {h \<in> K. load Sh U h = x + 1})"
      using K(1) by (intro card_mono) (auto simp: f_def)
    also have "\<dots> \<le> Suc (card {h \<in> K. load Sh U h = x + 1})" using K(1) by (simp add: card_insert_if)
    finally have "card {h \<in> K. f h = Suc x} \<le> Suc (card {h \<in> K. load Sh U h = x + 1})" .
    with bal *(2) show ?thesis by (simp add: balancing_def)
  qed
  ultimately show False using sum_load_le [OF K(1), of f x] le len by simp
qed

section \<open>The first loop\<close>

text \<open>
  The first loop leaves a shard where it is unless its group already has its share: \<open>greedy\<close> says
  that each group keeps as many of its first \<open>i\<close> shards as any share allows.
\<close>

definition greedy :: "gid set \<Rightarrow> nat \<Rightarrow> nat \<Rightarrow> gid list \<Rightarrow> nat set \<Rightarrow> nat \<Rightarrow> bool" where
  "greedy K x r Sh U i \<longleftrightarrow>
     (\<forall>g \<in> K. min (count_list (take i Sh) g) x \<le> load Sh U g \<and>
       (0 < r \<longrightarrow> min (count_list (take i Sh) g) (x + 1) \<le> load Sh U g))"

definition counts :: "gid set \<Rightarrow> (gid \<rightharpoonup> int) \<Rightarrow> gid list \<Rightarrow> nat set \<Rightarrow> bool" where
  "counts K cnt Sh U \<longleftrightarrow>
     (\<forall>g \<in> K. (case cnt g of None \<Rightarrow> 0 | Some c \<Rightarrow> c) = int (load Sh U g))"

lemma surplus_loop_spec:
  assumes "finite K" "i + length gids = length Sh" "drop i Sh = gids"
    and "balancing K x r0 r Sh (set ss \<union> {i..<length Sh})" "distinct ss" "set ss \<subseteq> {..<i}"
    and "counts K cnt Sh (set ss \<union> {i..<length Sh})" "greedy K x r Sh (set ss \<union> {i..<length Sh}) i"
  shows "\<exists>cnt' r' ss'.
    surplus_loop K (int x) (int i) gids cnt (int r) (map int ss) = (cnt', int r', map int ss') \<and>
    balancing K x r0 r' Sh (set ss') \<and> distinct ss' \<and> counts K cnt' Sh (set ss') \<and>
    greedy K x r' Sh (set ss') (length Sh)"
  using assms
proof (induction gids arbitrary: i cnt r ss)
  case Nil
  then show ?case by simp
next
  case (Cons g gids)
  let ?U = "set ss \<union> {i..<length Sh}" and ?keep = "set ss \<union> {Suc i..<length Sh}"
  have i: "i < length Sh" and g: "Sh ! i = g" using Cons.prems(2,3) by (auto simp: nth_via_drop)
  have rest: "drop (Suc i) Sh = gids" using Cons.prems(3) by (metis drop_Suc list.sel(3) tl_drop)
  have keepU: "?keep = ?U - {i}" "i \<in> ?U" "Sh[i := g] = Sh" using i g Cons.prems(6) by auto
  have loadk: "load Sh ?keep h = (if h = g then Suc (load Sh ?U h) else load Sh ?U h)" for h
    using load_place [OF keepU(2) i, of g h] keepU(3) by (simp add: keepU(1))
  have snoc: "set (ss @ [i]) \<union> {Suc i..<length Sh} = ?U" using i by auto
  have cl: "count_list (take (Suc i) Sh) h = count_list (take i Sh) h + (if h = g then 1 else 0)" for h
    using i g by (simp add: take_Suc_conv_app_nth)
  have next_bounds: "Suc i + length gids = length Sh" "distinct (ss @ [i])" "set (ss @ [i]) \<subseteq> {..<Suc i}"
    "set ss \<subseteq> {..<Suc i}" using Cons.prems(2,5,6) by auto
  note drop_it = Cons.IH [OF Cons.prems(1) next_bounds(1) rest, of r "ss @ [i]", unfolded snoc,
      OF Cons.prems(4) next_bounds(2,3)]
  note keep_it = Cons.IH [OF Cons.prems(1) next_bounds(1) rest _ Cons.prems(5) next_bounds(4)]
  show ?case
  proof (cases "g \<in> K")
    case False
    have "greedy K x r Sh ?U (Suc i)" using Cons.prems(8) False by (auto simp: greedy_def cl)
    from drop_it [OF Cons.prems(7) this] False show ?thesis by (simp add: add.commute)
  next
    case True
    define cnt1 where "cnt1 = (if cnt g = None then cnt(g \<mapsto> 0) else cnt)"
    have c1: "the (cnt1 g) = int (load Sh ?U g)" "counts K cnt1 Sh ?U"
      using Cons.prems(7) True by (auto simp: counts_def cnt1_def split: option.splits)
    have c2: "counts K (cnt1(g \<mapsto> int (load Sh ?U g) + 1)) Sh ?keep"
      using c1(2) by (auto simp: counts_def loadk)
    have le: "load Sh ?U g \<le> x + 1" using Cons.prems(4) True by (auto simp: balancing_def)
    consider (small) "load Sh ?U g < x" | (full) "load Sh ?U g = x" "r = 0"
      | (extra) r' where "load Sh ?U g = x" "r = Suc r'" | (over) "load Sh ?U g = x + 1"
      using le by (metis Suc_eq_plus1 le_SucE linorder_neqE_nat not_less old.nat.exhaust)
    then show ?thesis
    proof cases
      case small
      have "greedy K x r Sh ?keep (Suc i)"
        using Cons.prems(8) by (auto simp: greedy_def cl loadk)
      moreover have "balancing K x r0 r Sh ?keep"
        using balancing_small [OF Cons.prems(4) keepU(2) True small] keepU by simp
      ultimately show ?thesis
        using keep_it [OF _ c2, of r] True c1(1) small
        by (simp add: Let_def add.commute cnt1_def [symmetric] fun_upd_def)
    next
      case full
      have "greedy K x r Sh ?U (Suc i)" using Cons.prems(8) full by (auto simp: greedy_def cl)
      from drop_it [OF c1(2) this] full True c1(1) show ?thesis
        by (simp add: Let_def add.commute cnt1_def [symmetric])
    next
      case extra
      have "greedy K x r' Sh ?keep (Suc i)"
        using Cons.prems(8) extra by (auto simp: greedy_def cl loadk)
      moreover have "balancing K x r0 r' Sh ?keep"
        using balancing_extra [OF Cons.prems(4) [unfolded extra(2)] Cons.prems(1) keepU(2) True extra(1)]
          keepU by simp
      ultimately show ?thesis
        using keep_it [OF _ c2, of r'] True c1(1) extra
        by (simp add: Let_def add.commute cnt1_def [symmetric] fun_upd_def)
    next
      case over
      have "greedy K x r Sh ?U (Suc i)" using Cons.prems(8) over by (auto simp: greedy_def cl)
      from drop_it [OF c1(2) this] over True c1(1) show ?thesis
        by (simp add: Let_def add.commute cnt1_def [symmetric])
    qed
  qed
qed

section \<open>The second loop\<close>

lemma give_last_eq:
  assumes "ss \<noteq> []" "set ss \<subseteq> {..<length Sh}"
  shows "give_last g Sh (map int ss) = Inr (Sh[last ss := g], map int (butlast ss))"
proof -
  have "last ss < length Sh" using assms last_in_set by auto
  moreover have "go_index (map int ss) (int (length ss) - 1) = Inr (int (last ss))"
    using go_index_last [of "map int ss"] assms(1) by (simp add: last_map)
  moreover have "go_upto (map int ss) (int (length ss) - 1) = Inr (map int (butlast ss))"
    using assms(1) by (simp add: go_upto_def nat_diff_distrib butlast_conv_take take_map Suc_le_eq)
  ultimately show ?thesis by (simp add: give_last_def go_store_def)
qed

text \<open>
  What placing shards leaves alone: the shards that are not taken from the stack, and the loads of
  the other groups.
\<close>

definition placed :: "gid set \<Rightarrow> gid list \<Rightarrow> nat list \<Rightarrow> gid list \<Rightarrow> nat list \<Rightarrow> bool" where
  "placed G Sh ss Sh' ss' \<longleftrightarrow>
     length Sh' = length Sh \<and> distinct ss' \<and> set ss' \<subseteq> set ss \<and>
     (\<forall>k. k \<notin> set ss \<longrightarrow> Sh' ! k = Sh ! k) \<and>
     (\<forall>h. h \<notin> G \<longrightarrow> load Sh' (set ss') h = load Sh (set ss) h)"

lemma placed_refl: "distinct ss \<Longrightarrow> placed G Sh ss Sh ss"
  by (simp add: placed_def)

lemma placed_trans:
  assumes "placed G Sh ss Sh1 ss1" "placed H Sh1 ss1 Sh2 ss2"
  shows "placed (G \<union> H) Sh ss Sh2 ss2"
  using assms unfolding placed_def by (auto dest: subsetD)

lemma placed_last:
  assumes "distinct ss" "ss \<noteq> []" "set ss \<subseteq> {..<length Sh}"
  shows "placed {g} Sh ss (Sh[last ss := g]) (butlast ss)"
    "set (butlast ss) = set ss - {last ss}" "last ss \<in> set ss"
proof -
  show rest: "set (butlast ss) = set ss - {last ss}"
    using assms(1,2) append_butlast_last_id [OF assms(2)]
    by (metis Diff_insert_absorb distinct_butlast distinct_append list.set(1) list.set(2) set_append
        Un_insert_right sup_bot.right_neutral not_distinct_conv_prefix)
  show l: "last ss \<in> set ss" using assms(2) by simp
  have "load (Sh[last ss := g]) (set (butlast ss)) h = load Sh (set ss) h" if "h \<noteq> g" for h
    using load_place [OF l, of Sh g h] assms(3) l that unfolding rest by auto
  moreover have "k \<notin> set ss \<Longrightarrow> last ss \<noteq> k" for k using l by blast
  ultimately show "placed {g} Sh ss (Sh[last ss := g]) (butlast ss)"
    using assms rest
    by (auto simp: placed_def distinct_butlast)
qed

lemma fill_loop_spec:
  assumes "finite K" "g \<in> K" "length Sh = card K * x + r0"
    and "balancing K x r0 r Sh (set ss)" "distinct ss" "load Sh (set ss) g = i"
  shows "\<exists>Sh' ss'. fill_loop g (int x) (int i) Sh (map int ss) = Inr (int (max i x), Sh', map int ss') \<and>
    balancing K x r0 r Sh' (set ss') \<and> load Sh' (set ss') g = max i x \<and> placed {g} Sh ss Sh' ss'"
  using assms
proof (induction "x - i" arbitrary: i Sh ss)
  case 0
  then show ?case by (simp add: fill_loop.simps placed_refl max_def)
next
  case (Suc d)
  from Suc.hyps(2) have i: "i < x" by simp
  have ne: "ss \<noteq> []" using balancing_open [OF Suc.prems(4,1,2,3)] Suc.prems(6) i by auto
  have sub: "set ss \<subseteq> {..<length Sh}" using Suc.prems(4) by (simp add: balancing_def)
  note pl = placed_last [OF Suc.prems(5) ne sub]
  let ?Sh = "Sh[last ss := g]" and ?ss = "butlast ss"
  have lst: "last ss < length Sh" using sub pl(3) by auto
  have bal: "balancing K x r0 r ?Sh (set ?ss)"
    using balancing_small [OF Suc.prems(4) pl(3) Suc.prems(2)] Suc.prems(6) i by (simp add: pl(2))
  have ld: "load ?Sh (set ?ss) g = Suc i"
    using load_place [OF pl(3) lst, of g g] Suc.prems(6) by (simp add: pl(2))
  have "d = x - Suc i" "length ?Sh = card K * x + r0" "distinct ?ss"
    using Suc.hyps(2) Suc.prems(3,5) by (auto simp: distinct_butlast)
  from Suc.hyps(1) [OF this(1) Suc.prems(1,2) this(2) bal this(3) ld] obtain Sh' ss' where
    rec: "fill_loop g (int x) (int (Suc i)) ?Sh (map int ?ss) = Inr (int (max (Suc i) x), Sh', map int ss')"
      "balancing K x r0 r Sh' (set ss')" "load Sh' (set ss') g = max (Suc i) x"
      "placed {g} ?Sh ?ss Sh' ss'" by blast
  have "fill_loop g (int x) (int i) Sh (map int ss) = Inr (int (max i x), Sh', map int ss')"
    using i rec(1) give_last_eq [OF ne sub]
    by (simp add: fill_loop.simps [of g "int x" "int i"] max_def add.commute)
  moreover have "max (Suc i) x = max i x" using i by simp
  ultimately show ?case using rec placed_trans [OF pl(1) rec(4)] by auto
qed

lemma assign_loop_spec:
  assumes "finite K" "set gs \<subseteq> K" "distinct gs" "length Sh = card K * x + r0"
    and "balancing K x r0 r Sh (set ss)" "distinct ss"
    and "\<forall>g \<in> set gs. ld g = int (load Sh (set ss) g)"
  shows "\<exists>Sh' ss' r'. assign_loop (int x) (map (\<lambda>g. (g, ld g)) gs) (int r) Sh (map int ss) = Inr Sh' \<and>
    balancing K x r0 r' Sh' (set ss') \<and> r' \<le> r \<and> placed (set gs) Sh ss Sh' ss' \<and>
    (\<forall>g \<in> set gs. x \<le> load Sh' (set ss') g \<and> (0 < r' \<longrightarrow> load Sh' (set ss') g = x + 1))"
  using assms
proof (induction gs arbitrary: r Sh ss)
  case Nil
  then show ?case using placed_refl by (intro exI [of _ Sh] exI [of _ ss] exI [of _ r]) simp
next
  case (Cons g gs)
  have g: "g \<in> K" and gs: "set gs \<subseteq> K" "distinct gs" "g \<notin> set gs" using Cons.prems(2,3) by auto
  let ?i = "load Sh (set ss) g"
  have ldg: "ld g = int ?i" using Cons.prems(7) by simp
  from fill_loop_spec [OF Cons.prems(1) g Cons.prems(4-6) refl] obtain Sh1 ss1 where
    fill: "fill_loop g (int x) (int ?i) Sh (map int ss) = Inr (int (max ?i x), Sh1, map int ss1)"
      "balancing K x r0 r Sh1 (set ss1)" "load Sh1 (set ss1) g = max ?i x" "placed {g} Sh ss Sh1 ss1"
    by blast
  have len1: "length Sh1 = card K * x + r0" and d1: "distinct ss1"
    using fill(4) Cons.prems(4) by (auto simp: placed_def)
  have le: "?i \<le> x + 1" using Cons.prems(5) g by (auto simp: balancing_def)
  have step: "\<exists>Sh2 ss2 r2.
      assign_loop (int x) (map (\<lambda>g. (g, ld g)) (g # gs)) (int r) Sh (map int ss) =
        assign_loop (int x) (map (\<lambda>g. (g, ld g)) gs) (int r2) Sh2 (map int ss2) \<and>
      balancing K x r0 r2 Sh2 (set ss2) \<and> r2 \<le> r \<and> placed {g} Sh ss Sh2 ss2 \<and>
      x \<le> load Sh2 (set ss2) g \<and> (0 < r2 \<longrightarrow> load Sh2 (set ss2) g = x + 1)"
  proof (cases "max ?i x = x \<and> 0 < r")
    case False
    with fill ldg le show ?thesis
      by (intro exI [of _ Sh1] exI [of _ ss1] exI [of _ r]) (auto simp: max_def split: if_splits)
  next
    case True
    then obtain r2 where r2: "r = Suc r2" by (cases r) auto
    have ne: "ss1 \<noteq> []" using balancing_open [OF fill(2) Cons.prems(1) g len1] fill(3) True by auto
    have sub: "set ss1 \<subseteq> {..<length Sh1}" using fill(2) by (simp add: balancing_def)
    note pl = placed_last [OF d1 ne sub]
    have lst: "last ss1 < length Sh1" using sub pl(3) by auto
    have "balancing K x r0 r2 (Sh1[last ss1 := g]) (set (butlast ss1))"
      using balancing_extra [OF fill(2) [unfolded r2] Cons.prems(1) pl(3) g] fill(3) True by (simp add: pl(2))
    moreover have "load (Sh1[last ss1 := g]) (set (butlast ss1)) g = x + 1"
      using load_place [OF pl(3) lst, of g g] fill(3) True by (simp add: pl(2))
    moreover have "placed {g} Sh ss (Sh1[last ss1 := g]) (butlast ss1)"
      using placed_trans [OF fill(4) pl(1) [of g]] by simp
    ultimately show ?thesis
      using fill(1) ldg True r2 give_last_eq [OF ne sub]
      by (intro exI [of _ "Sh1[last ss1 := g]"] exI [of _ "butlast ss1"] exI [of _ r2]) simp
  qed
  then obtain Sh2 ss2 r2 where
    s2: "assign_loop (int x) (map (\<lambda>g. (g, ld g)) (g # gs)) (int r) Sh (map int ss) =
        assign_loop (int x) (map (\<lambda>g. (g, ld g)) gs) (int r2) Sh2 (map int ss2)"
      "balancing K x r0 r2 Sh2 (set ss2)" "r2 \<le> r" "placed {g} Sh ss Sh2 ss2"
      "x \<le> load Sh2 (set ss2) g" "0 < r2 \<longrightarrow> load Sh2 (set ss2) g = x + 1" by blast
  have "length Sh2 = card K * x + r0" "distinct ss2" "\<forall>h \<in> set gs. ld h = int (load Sh2 (set ss2) h)"
    using s2(4) Cons.prems(4,7) gs(3) by (auto simp: placed_def)
  from Cons.IH [OF Cons.prems(1) gs(1,2) this(1) s2(2) this(2,3)] obtain Sh' ss' r' where
    rec: "assign_loop (int x) (map (\<lambda>g. (g, ld g)) gs) (int r2) Sh2 (map int ss2) = Inr Sh'"
      "balancing K x r0 r' Sh' (set ss')" "r' \<le> r2" "placed (set gs) Sh2 ss2 Sh' ss'"
      "\<forall>g \<in> set gs. x \<le> load Sh' (set ss') g \<and> (0 < r' \<longrightarrow> load Sh' (set ss') g = x + 1)" by blast
  have "load Sh' (set ss') g = load Sh2 (set ss2) g" using rec(4) gs(3) by (simp add: placed_def)
  moreover have "placed (set (g # gs)) Sh ss Sh' ss'" using placed_trans [OF s2(4) rec(4)] by simp
  ultimately show ?case
    using rec s2(1,3,5,6) by (intro exI [of _ Sh'] exI [of _ ss'] exI [of _ r']) auto
qed

section \<open>Balanced, minimal, deterministic\<close>

definition balanced :: "gid set \<Rightarrow> gid list \<Rightarrow> bool" where
  "balanced K Sh \<longleftrightarrow>
     set Sh \<subseteq> K \<and> (\<forall>g \<in> K. \<forall>h \<in> K. count_list Sh g \<le> count_list Sh h + 1)"

definition moves :: "gid list \<Rightarrow> gid list \<Rightarrow> nat" where
  "moves S T = card {i. i < length S \<and> S ! i \<noteq> T ! i}"

definition config_ok :: "Config \<Rightarrow> bool" where
  "config_ok config \<longleftrightarrow> length (Shards config) = NShards \<and> distinct (map fst (Groups config))"

abbreviation live :: "Config \<Rightarrow> gid set" where
  "live config \<equiv> set (map fst (Groups config))"

abbreviation range_order :: "gid list \<Rightarrow> Config \<Rightarrow> bool" where
  "range_order order config \<equiv> mset order = mset (map fst (Groups config))"

lemma load_empty: "load Sh {} g = count_list Sh g"
  by (simp add: load_def count_list_eq_length_filter length_filter_conv_card eq_commute)

lemma insort_key_pair:
  "insort_key fst (g, F g) (map (\<lambda>g. (g, F g)) xs) = map (\<lambda>g. (g, F g)) (insort g xs)"
  by (induction xs) auto

lemma sort_key_pair: "sort_key fst (map (\<lambda>g. (g, F g)) xs) = map (\<lambda>g. (g, F g)) (sort xs)"
  by (induction xs) (simp_all add: insort_key_pair)

lemma sum_count:
  fixes Sh :: "gid list"
  assumes "finite K" "set Sh \<subseteq> K"
  shows "(\<Sum>g\<in>K. count_list Sh g) = length Sh"
  using load_sum [OF assms(1), of Sh "{}"] assms(2) by (auto simp: load_empty nth_mem subset_iff)

text \<open>In a balanced assignment every group has its share, or one shard more.\<close>

lemma balanced_share:
  assumes "finite K" "K \<noteq> {}" "balanced K Sh" "g \<in> K"
  shows "count_list Sh g = length Sh div card K \<or> count_list Sh g = length Sh div card K + 1"
proof -
  define m where "m = Min (count_list Sh ` K)"
  have m: "m \<le> count_list Sh h" "count_list Sh h \<le> Suc m" if "h \<in> K" for h
  proof -
    show "m \<le> count_list Sh h" using assms(1) that by (simp add: m_def)
    have "m \<in> count_list Sh ` K" unfolding m_def using assms(1,2) by (intro Min_in) auto
    then show "count_list Sh h \<le> Suc m" using assms(3) that by (auto simp: balanced_def)
  qed
  from assms(1,2) have "m \<in> count_list Sh ` K" unfolding m_def by (intro Min_in) auto
  then obtain k where k: "k \<in> K" "count_list Sh k = m" by auto
  let ?big = "{h \<in> K. count_list Sh h = Suc m}"
  have "(\<Sum>h\<in>K. count_list Sh h) = (\<Sum>h\<in>K. m + of_bool (count_list Sh h = Suc m))"
    by (rule sum.cong) (use m in \<open>force simp: le_Suc_eq\<close>)+
  also have "\<dots> = card K * m + card ?big"
    using assms(1) by (simp add: sum.distrib of_bool_def sum.If_cases Int_def)
  finally have "length Sh = card K * m + card ?big"
    using sum_count [OF assms(1)] assms(3) by (simp add: balanced_def)
  moreover have "card ?big < card K"
  proof (rule psubset_card_mono [OF assms(1)])
    have "k \<notin> ?big" using k(2) by simp
    with k(1) show "?big \<subset> K" by auto
  qed
  ultimately have "length Sh div card K = m" by simp
  with m [OF assms(4)] show ?thesis by auto
qed

lemma makeShardBalance_run:
  assumes ok: "config_ok config" and ne: "Groups config \<noteq> []" and ord: "range_order order config"
  defines "K \<equiv> live config"
  defines "x \<equiv> NShards div card K" and "r0 \<equiv> NShards mod card K"
  shows "\<exists>Sh' ss r1. makeShardBalance order config = Inr (config\<lparr>Shards := Sh'\<rparr>) \<and>
    length Sh' = NShards \<and> set Sh' \<subseteq> K \<and>
    (\<forall>g \<in> K. count_list Sh' g = x \<or> count_list Sh' g = x + 1) \<and>
    (\<forall>k < NShards. k \<notin> ss \<longrightarrow> Sh' ! k = Shards config ! k) \<and>
    balancing K x r0 r1 (Shards config) ss \<and> greedy K x r1 (Shards config) ss NShards"
proof -
  let ?Sh = "Shards config"
  have len: "length ?Sh = NShards" and fin: "finite K" and card: "length (Groups config) = card K"
    using ok distinct_card [of "map fst (Groups config)"] by (auto simp: config_ok_def K_def)
  have pos: "0 < card K" using ne card by (metis length_greater_0_conv)
  have split: "length ?Sh = card K * x + r0" using len by (simp add: x_def r0_def)
  have r0: "r0 < card K" using pos by (simp add: r0_def)
  have none: "load ?Sh {0..<length ?Sh} g = 0" for g by (simp add: load_def)
  have start: "balancing K x r0 r0 ?Sh (set [] \<union> {0..<length ?Sh})"
    by (auto simp: balancing_def none)
  have "\<exists>cnt' r' ss'. surplus_loop K (int x) (int 0) ?Sh Map.empty (int r0) (map int []) =
      (cnt', int r', map int ss') \<and> balancing K x r0 r' ?Sh (set ss') \<and> distinct ss' \<and>
      counts K cnt' ?Sh (set ss') \<and> greedy K x r' ?Sh (set ss') (length ?Sh)"
    by (rule surplus_loop_spec [OF fin _ _ start]) (auto simp: counts_def greedy_def none)
  then obtain cnt r1 ss where loop1: "surplus_loop K (int x) 0 ?Sh Map.empty (int r0) [] = (cnt, int r1, map int ss)"
    "balancing K x r0 r1 ?Sh (set ss)" "distinct ss" "counts K cnt ?Sh (set ss)"
    "greedy K x r1 ?Sh (set ss) NShards" by (auto simp: len)
  define ld where "ld g = (case cnt g of None \<Rightarrow> 0 | Some i \<Rightarrow> i)" for g
  have gs: "set (sort order) = K" "distinct (sort order)"
    using ord ok by (metis K_def set_mset_mset set_sort, metis config_ok_def distinct_sort mset_eq_imp_distinct_iff)
  have ldl: "\<forall>g \<in> set (sort order). ld g = int (load ?Sh (set ss) g)"
    using loop1(4) gs(1) by (simp add: counts_def ld_def)
  from assign_loop_spec [OF fin _ gs(2) split loop1(2,3) ldl] gs(1) obtain Sh' ss' r' where
    loop2: "assign_loop (int x) (map (\<lambda>g. (g, ld g)) (sort order)) (int r1) ?Sh (map int ss) = Inr Sh'"
      "balancing K x r0 r' Sh' (set ss')" "placed K ?Sh ss Sh' ss'"
      "\<forall>g \<in> K. x \<le> load Sh' (set ss') g \<and> (0 < r' \<longrightarrow> load Sh' (set ss') g = x + 1)" by auto
  have big: "r' + card {g \<in> K. load Sh' (set ss') g = x + 1} = r0" and
    le: "\<And>g. g \<in> K \<Longrightarrow> load Sh' (set ss') g \<le> x + 1" using loop2(2) by (auto simp: balancing_def)
  have "r' = 0"
  proof (rule ccontr)
    assume "r' \<noteq> 0"
    with loop2(4) have "{g \<in> K. load Sh' (set ss') g = x + 1} = K" by auto
    with big r0 show False by simp
  qed
  have share: "load Sh' (set ss') g = x + of_bool (load Sh' (set ss') g = x + 1)" if "g \<in> K" for g
    using le [OF that] loop2(4) that by (auto simp: le_Suc_eq)
  have "(\<Sum>g\<in>K. load Sh' (set ss') g) = (\<Sum>g\<in>K. x + of_bool (load Sh' (set ss') g = x + 1))"
    by (rule sum.cong [OF refl share])
  also have "\<dots> = card K * x + r0"
    using fin big \<open>r' = 0\<close> by (simp add: sum.distrib of_bool_def sum.If_cases Int_def)
  finally have total: "(\<Sum>g\<in>K. load Sh' (set ss') g) = card K * x + r0" .
  have len': "length Sh' = NShards" using loop2(3) len by (simp add: placed_def)
  have "card (set ss') = 0"
    using load_sum [OF fin, of Sh' "set ss'"] loop2(2) total len' len split by (simp add: balancing_def)
  then have empty: "set ss' = {}" by simp
  have inK: "set Sh' \<subseteq> K" using loop2(2) empty by (auto simp: balancing_def in_set_conv_nth)
  have counts': "\<forall>g \<in> K. count_list Sh' g = x \<or> count_list Sh' g = x + 1"
    using share empty load_empty [of Sh'] by force
  have "makeShardBalance order config = Inr (config\<lparr>Shards := Sh'\<rparr>)"
  proof -
    have K: "fst ` set (Groups config) = K" by (simp add: K_def)
    show ?thesis
      using pos loop1(1) loop2(1) card
      by (simp add: makeShardBalance_def Let_def K zdiv_int zmod_int x_def r0_def sort_key_pair ld_def)
  qed
  with len' inK counts' loop2(3) loop1(2,5) show ?thesis
    unfolding placed_def by blast
qed

text \<open>
  C12: balancing a well-formed configuration with at least one group does not panic, whatever order
  the runtime visits the groups in; it changes nothing but the shard assignment, gives every shard
  to a group of the configuration, and leaves no group with two shards more than another.
\<close>

theorem makeShardBalance_balanced:
  assumes "config_ok config" "Groups config \<noteq> []" "range_order order config"
  shows "\<exists>Sh. makeShardBalance order config = Inr (config\<lparr>Shards := Sh\<rparr>) \<and>
    length Sh = NShards \<and> balanced (live config) Sh"
proof -
  from makeShardBalance_run [OF assms] obtain Sh where
    sh: "makeShardBalance order config = Inr (config\<lparr>Shards := Sh\<rparr>)" "length Sh = NShards"
      "set Sh \<subseteq> live config" and
    n: "\<forall>g \<in> live config. count_list Sh g = NShards div card (live config) \<or>
       count_list Sh g = NShards div card (live config) + 1" by blast
  have "count_list Sh g \<le> count_list Sh h + 1" if "g \<in> live config" "h \<in> live config" for g h
    using bspec [OF n that(1)] bspec [OF n that(2)] by linarith
  with sh(3) have "balanced (live config) Sh" by (simp add: balanced_def)
  with sh show ?thesis by blast
qed

theorem makeShardBalance_balanced_witness:
  "\<exists>Sh. makeShardBalance [7, 3, 5]
     \<lparr>Num = 1, Shards = [3, 3, 3, 3, 3, 9, 9, 9, 9, 9], Groups = [(3, []), (5, []), (7, [])]\<rparr> =
     Inr \<lparr>Num = 1, Shards = Sh, Groups = [(3, []), (5, []), (7, [])]\<rparr> \<and> balanced {3, 5, 7} Sh"
  using makeShardBalance_balanced [of "\<lparr>Num = 1, Shards = [3, 3, 3, 3, 3, 9, 9, 9, 9, 9],
      Groups = [(3, []), (5, []), (7, [])]\<rparr>" "[7, 3, 5]"]
  by (auto simp: config_ok_def NShards_def)

lemma kept_le:
  fixes S T :: "gid list"
  assumes "finite K" "set T \<subseteq> K" "length T = length S"
  shows "card {i. i < length S \<and> S ! i = T ! i} \<le> (\<Sum>g\<in>K. min (count_list S g) (count_list T g))"
proof -
  let ?A = "\<lambda>g. {i. i < length S \<and> S ! i = g \<and> T ! i = g}"
  have "{i. i < length S \<and> S ! i = T ! i} = (\<Union>g\<in>K. ?A g)" using assms(2,3) by (auto simp: subset_iff)
  also have "card \<dots> \<le> (\<Sum>g\<in>K. card (?A g))" by (rule card_UN_le [OF assms(1)])
  also have "\<dots> \<le> (\<Sum>g\<in>K. min (count_list S g) (count_list T g))"
    using assms(3) by (intro sum_mono min.boundedI)
      (auto simp: load_empty [symmetric] load_def intro!: card_mono)
  finally show ?thesis .
qed

text \<open>No balanced assignment keeps more shards in place than the first loop does.\<close>

lemma greedy_best:
  assumes fin: "finite K" "K \<noteq> {}" and bal: "balancing K x r0 r S U" and gr: "greedy K x r S U (length S)"
    and T: "balanced K T" "length T = length S"
    and x: "x = length S div card K" "r0 = length S mod card K"
  shows "(\<Sum>g\<in>K. min (count_list S g) (count_list T g)) \<le> (\<Sum>g\<in>K. load S U g)"
proof (cases "0 < r")
  case True
  have "min (count_list S g) (count_list T g) \<le> load S U g" if "g \<in> K" for g
    using gr True that balanced_share [OF fin T(1) that] T(2) x(1) unfolding greedy_def by force
  then show ?thesis by (rule sum_mono)
next
  case False
  have share: "count_list T g = x + of_bool (count_list T g = x + 1)" if "g \<in> K" for g
    using balanced_share [OF fin T(1) that] T(2) x(1) by auto
  have ob: "(\<Sum>g\<in>K. f g + of_bool (P g)) = (\<Sum>g\<in>K. f g) + card {g \<in> K. P g}" for f :: "gid \<Rightarrow> nat" and P
    using fin(1) by (simp add: sum.distrib of_bool_def sum.If_cases Int_def)
  have "(\<Sum>g\<in>K. count_list T g) = (\<Sum>g\<in>K. x + of_bool (count_list T g = x + 1))"
    by (rule sum.cong [OF refl share])
  also have "\<dots> = card K * x + card {g \<in> K. count_list T g = x + 1}" by (simp only: ob) simp
  finally have "length S = card K * x + card {g \<in> K. count_list T g = x + 1}"
    using sum_count [OF fin(1), of T] T by (simp add: balanced_def)
  moreover have "length S = card K * x + r0" by (simp add: x)
  ultimately have "card {g \<in> K. count_list T g = x + 1} = r0" by linarith
  moreover have "min (count_list S g) (count_list T g) \<le>
      min (count_list S g) x + of_bool (count_list T g = x + 1)" if "g \<in> K" for g
    using balanced_share [OF fin T(1) that] T(2) x(1) by (auto simp: min_def)
  ultimately have "(\<Sum>g\<in>K. min (count_list S g) (count_list T g)) \<le>
      (\<Sum>g\<in>K. min (count_list S g) x) + r0"
    using sum_mono [of K "\<lambda>g. min (count_list S g) (count_list T g)"
        "\<lambda>g. min (count_list S g) x + of_bool (count_list T g = x + 1)"] by (simp only: ob)
  also have "\<dots> = (\<Sum>g\<in>K. min (count_list S g) x + of_bool (load S U g = x + 1))"
    using bal False by (simp add: ob balancing_def)
  also have "\<dots> \<le> (\<Sum>g\<in>K. load S U g)"
    using gr by (intro sum_mono) (auto simp: greedy_def of_bool_def)
  finally show ?thesis .
qed

text \<open>
  C13: the balancing moves as few shards as possible: no assignment that is balanced over the same
  groups differs from the old assignment in fewer places.
\<close>

theorem makeShardBalance_minimal:
  assumes ok: "config_ok config" "Groups config \<noteq> []" "range_order order config"
    and run: "makeShardBalance order config = Inr config'"
    and T: "balanced (live config) T" "length T = NShards"
  shows "moves (Shards config) (Shards config') \<le> moves (Shards config) T"
proof -
  let ?S = "Shards config" and ?K = "live config" and ?S' = "Shards config'"
  have len: "length ?S = NShards" and K: "finite ?K" "?K \<noteq> {}" using ok by (auto simp: config_ok_def)
  from makeShardBalance_run [OF ok] run obtain U r1 where
    kept: "\<forall>k < NShards. k \<notin> U \<longrightarrow> ?S' ! k = ?S ! k"
    and bal: "balancing ?K (NShards div card ?K) (NShards mod card ?K) r1 ?S U"
    and gr: "greedy ?K (NShards div card ?K) r1 ?S U NShards" by auto
  have moves: "moves ?S R = NShards - card {i. i < length ?S \<and> ?S ! i = R ! i}" for R
  proof -
    have "{i. i < length ?S \<and> ?S ! i \<noteq> R ! i} = {..<length ?S} - {i. i < length ?S \<and> ?S ! i = R ! i}"
      by auto
    then show ?thesis by (simp add: moves_def len) (subst card_Diff_subset; auto)
  qed
  have "card {i. i < length ?S \<and> ?S ! i = T ! i} \<le> (\<Sum>g\<in>?K. min (count_list ?S g) (count_list T g))"
    using T len by (intro kept_le K) (auto simp: balanced_def)
  also have "\<dots> \<le> (\<Sum>g\<in>?K. load ?S U g)"
    using greedy_best [OF K bal _ T(1)] gr len T(2) by simp
  also have "\<dots> = NShards - card U"
    using load_sum [OF K(1), of ?S U] bal len by (auto simp: balancing_def)
  also have "\<dots> = card ({..<NShards} - U)"
    using bal len by (subst card_Diff_subset) (auto simp: balancing_def finite_subset)
  also have "\<dots> \<le> card {i. i < length ?S \<and> ?S ! i = ?S' ! i}"
    using kept len by (intro card_mono) auto
  finally show ?thesis unfolding moves by linarith
qed

theorem makeShardBalance_minimal_witness:
  "moves [3, 3, 3, 3, 3, 9, 9, 9, 9, 9] [3, 3, 3, 3, 3, 7, 7, 7, 7, 7]
   \<le> moves [3, 3, 3, 3, 3, 9, 9, 9, 9, 9] [7, 7, 7, 7, 7, 3, 3, 3, 3, 3]"
proof -
  let ?c = "\<lparr>Num = 1, Shards = [3, 3, 3, 3, 3, 9, 9, 9, 9, 9], Groups = [(3, []), (7, [])]\<rparr>"
  have "makeShardBalance [7, 3] ?c = Inr (?c\<lparr>Shards := [3, 3, 3, 3, 3, 7, 7, 7, 7, 7]\<rparr>)"
    by code_simp
  from makeShardBalance_minimal [OF _ _ _ this, of "[7, 7, 7, 7, 7, 3, 3, 3, 3, 3]"] show ?thesis
    by (simp add: config_ok_def NShards_def balanced_def add_mset_commute)
qed

text \<open>
  C14: the result does not depend on the order in which the runtime visits the groups, so replicas
  that balance the same configuration agree.
\<close>

theorem makeShardBalance_order:
  assumes "range_order order1 config" "range_order order2 config"
  shows "makeShardBalance order1 config = makeShardBalance order2 config"
proof -
  have "sort order1 = sort order2" using assms by (intro properties_for_sort) auto
  then show ?thesis by (simp add: makeShardBalance_def Let_def sort_key_pair)
qed

theorem makeShardBalance_order_witness:
  "makeShardBalance [7, 3] \<lparr>Num = 1, Shards = [3, 3, 3, 3, 3, 9, 9, 9, 9, 9], Groups = [(3, []), (7, [])]\<rparr> =
   makeShardBalance [3, 7] \<lparr>Num = 1, Shards = [3, 3, 3, 3, 3, 9, 9, 9, 9, 9], Groups = [(3, []), (7, [])]\<rparr>"
  by (rule makeShardBalance_order) simp_all

end
