(* ===== verification/Sessions.thy ===== *)
theory Sessions
  imports Prelude "HOL-Library.Sublist"
begin

text \<open>
  Client sessions and snapshots of a replicated state machine, as interfaces. The services of the
  repository (\<^verbatim>\<open>kvraft\<close>, \<^verbatim>\<open>shardctrler\<close>, \<^verbatim>\<open>shardkv\<close>) give every client operation a client id and a
  call id and remember the last call of each client, so that an operation the log contains twice
  takes effect once. The locale \<open>session_machine\<close> states what such a service promises of a single
  operation; its lemmas are about whole logs. \<open>snapshot_machine\<close> adds a snapshot that is restored
  after a crash.
\<close>

text \<open>Run a log of operations; a panic stops the replica.\<close>

fun go_run :: "('op \<Rightarrow> 's \<Rightarrow> 's go) \<Rightarrow> 'op list \<Rightarrow> 's \<Rightarrow> 's go" where
  "go_run exec [] s = Inr s"
| "go_run exec (op # ops) s = go_bind (exec op s) (go_run exec ops)"

lemma go_run_append: "go_run exec (xs @ ys) s = go_bind (go_run exec xs s) (go_run exec ys)"
proof (induction xs arbitrary: s)
  case (Cons x xs)
  then show ?case by (cases "exec x s") simp_all
qed simp

text \<open>The operations of a log that changed the state when they were executed.\<close>

fun effects :: "('op \<Rightarrow> 's \<Rightarrow> 's go) \<Rightarrow> 'op list \<Rightarrow> 's \<Rightarrow> 'op list" where
  "effects exec [] s = []"
| "effects exec (op # ops) s =
     (case exec op s of Inl e \<Rightarrow> []
      | Inr s' \<Rightarrow> (if s' = s then effects exec ops s' else op # effects exec ops s'))"

lemma effects_run:
  "go_run exec ops s = Inr s' \<Longrightarrow> go_run exec (effects exec ops s) s = Inr s'"
  by (induction ops arbitrary: s) (auto simp: go_bind_eq_Inr)

lemma effects_subseq: "subseq (effects exec ops s) ops"
  by (induction ops arbitrary: s) (auto split: sum.splits)

locale session_machine =
  fixes exec :: "'op \<Rightarrow> 's \<Rightarrow> 's go"
    and client :: "'op \<Rightarrow> 'k"
    and call :: "'op \<Rightarrow> int"
    and last_call :: "'s \<Rightarrow> 'k \<Rightarrow> int option"
  assumes exec_stale: "last_call s (client op) = Some m \<Longrightarrow> call op \<le> m \<Longrightarrow> exec op s = Inr s"
    and exec_step: "exec op s = Inr s' \<Longrightarrow> s' = s \<or> last_call s' = (last_call s)(client op \<mapsto> call op)"
begin

lemma last_call_exec:
  assumes "exec op s = Inr s'" "last_call s k = Some m"
  shows "\<exists>m' \<ge> m. last_call s' k = Some m'"
  using assms exec_step [OF assms(1)] exec_stale [of s op m]
  by (cases "k = client op"; cases "call op \<le> m") force+

lemma last_call_run:
  assumes "go_run exec ops s = Inr s'" "last_call s k = Some m"
  shows "\<exists>m' \<ge> m. last_call s' k = Some m'"
  using assms
proof (induction ops arbitrary: s m)
  case (Cons op ops)
  then obtain s1 where s1: "exec op s = Inr s1" "go_run exec ops s1 = Inr s'"
    by (auto simp: go_bind_eq_Inr)
  from last_call_exec [OF s1(1) Cons.prems(2)] obtain m1 where "m \<le> m1" "last_call s1 k = Some m1" by blast
  with Cons.IH [OF s1(2)] show ?case by (meson order_trans)
qed auto

text \<open>An operation that took effect is ignored wherever it comes again in the log.\<close>

lemma at_most_once:
  assumes "exec op s = Inr s1" "s1 \<noteq> s" "go_run exec ops s1 = Inr s2"
  shows "exec op s2 = Inr s2"
proof -
  from exec_step [OF assms(1)] assms(2) have "last_call s1 (client op) = Some (call op)" by auto
  from last_call_run [OF assms(3) this] show ?thesis using exec_stale by blast
qed

lemma effects_above:
  assumes "last_call s k = Some m" "op \<in> set (effects exec ops s)" "client op = k"
  shows "m < call op"
  using assms
proof (induction ops arbitrary: s m)
  case (Cons o1 ops)
  show ?case
  proof (cases "exec o1 s")
    case (Inr s1)
    from last_call_exec [OF Inr Cons.prems(1)] obtain m1 where m1: "m \<le> m1" "last_call s1 k = Some m1" by blast
    show ?thesis
    proof (cases "op \<in> set (effects exec ops s1)")
      case True
      from Cons.IH [OF m1(2) True Cons.prems(3)] m1(1) show ?thesis by simp
    next
      case False
      with Cons.prems(2) Inr have "op = o1" "s1 \<noteq> s" by (auto split: if_splits)
      with Inr Cons.prems(1,3) exec_stale [of s op m] show ?thesis by force
    qed
  qed (use Cons.prems in simp)
qed simp

text \<open>The operations of one client that take effect have increasing call ids.\<close>

lemma effects_increasing:
  "sorted_wrt (<) (map call (filter (\<lambda>op. client op = k) (effects exec ops s)))"
proof (induction ops arbitrary: s)
  case (Cons op ops)
  show ?case
  proof (cases "exec op s")
    case (Inr s1)
    have "\<forall>o1 \<in> set (effects exec ops s1). client o1 = k \<longrightarrow> call op < call o1"
      if "s1 \<noteq> s" "client op = k"
      using exec_step [OF Inr] that effects_above [of s1 k "call op"] by auto
    with Cons.IH [of s1] Inr show ?thesis by auto
  qed simp
qed simp

end

text \<open>
  A snapshot holds the whole state of the service: restoring it gives the state that was saved,
  whatever the fresh replica starts with, if the replica is one of the same group.
\<close>

locale snapshot_machine =
  fixes exec :: "'op \<Rightarrow> 's \<Rightarrow> 's go"
    and save :: "'s \<Rightarrow> 'x"
    and restore :: "'x \<Rightarrow> 's \<Rightarrow> 's"
    and peer :: "'s \<Rightarrow> 's \<Rightarrow> bool"
    and same :: "'s \<Rightarrow> 's \<Rightarrow> bool"
  assumes restore_save: "peer s0 s \<Longrightarrow> same (restore (save s) s0) s"
    and exec_same: "same s t \<Longrightarrow> exec op t = Inr t' \<Longrightarrow> \<exists>s'. exec op s = Inr s' \<and> same s' t'"
begin

lemma run_same:
  "same s t \<Longrightarrow> go_run exec ops t = Inr t' \<Longrightarrow> \<exists>s'. go_run exec ops s = Inr s' \<and> same s' t'"
proof (induction ops arbitrary: s t)
  case (Cons op ops)
  then obtain t1 where t1: "exec op t = Inr t1" "go_run exec ops t1 = Inr t'"
    by (auto simp: go_bind_eq_Inr)
  from exec_same [OF Cons.prems(1) t1(1)] obtain s1 where "exec op s = Inr s1" "same s1 t1" by blast
  with Cons.IH [OF _ t1(2)] show ?case by auto
qed simp

text \<open>
  A replica that restores a snapshot taken after \<open>xs\<close> and executes the rest of the log is where a
  replica that executed everything is.
\<close>

lemma restore_run:
  assumes "go_run exec xs s = Inr s1" "go_run exec (xs @ ys) s = Inr s2" "peer s0 s1"
  shows "\<exists>s'. go_run exec ys (restore (save s1) s0) = Inr s' \<and> same s' s2"
proof -
  from assms(1,2) have "go_run exec ys s1 = Inr s2" by (simp add: go_run_append)
  from run_same [OF restore_save [OF assms(3)] this] show ?thesis .
qed

end

end
