(* ===== verification/ShardCtrler.thy ===== *)
theory ShardCtrler
  imports ShardBalance Sessions RaftDefs
begin

text \<open>
  The shard controller (\<^verbatim>\<open>src/shardctrler/server.go\<close>, \<^verbatim>\<open>common.go\<close>): a replicated state machine
  whose state is the list of all configurations so far and the last operation of every client.
  \<open>applier\<close> consumes what Raft delivers and runs \<open>execOp\<close>; it is the only writer of the state, so
  one delivered operation is one step. The RPC handlers read the state when they are called and
  again when they stop waiting; what \<^verbatim>\<open>rf.Start\<close> and \<^verbatim>\<open>rf.GetState\<close> answered is an argument.

  \<^verbatim>\<open>Op.Args\<close> is an interface value whose dynamic type always fits \<^verbatim>\<open>Op.OpType\<close>; the pair is one
  datatype. \<open>rng\<close> gives the order in which the runtime visits a map.
\<close>

section \<open>Operations and state\<close>

record Identifier =
  ClientId :: int
  CallId :: int

record JoinArgs =
  ja_Identifier :: Identifier
  ja_Servers :: "string list gomap"

record LeaveArgs =
  la_Identifier :: Identifier
  la_GIDs :: "gid list"

record MoveArgs =
  ma_Identifier :: Identifier
  ma_Shard :: int
  ma_GID :: gid

record QueryArgs =
  qa_Identifier :: Identifier
  qa_Num :: int

datatype CtrlOp = Join JoinArgs | Leave LeaveArgs | Move MoveArgs | Query QueryArgs

record CtrlReply =
  WrongLeader :: bool
  cr_Config :: Config

record LastOperation =
  lo_CallId :: int
  lo_Config :: Config

record ShardCtrler =
  configs :: "Config list"
  sc_lastOp :: "int \<rightharpoonup> LastOperation"
  sc_lastApplied :: int
  sc_dead :: bool

fun op_identifier :: "CtrlOp \<Rightarrow> Identifier" where
  "op_identifier (Join a) = ja_Identifier a"
| "op_identifier (Leave a) = la_Identifier a"
| "op_identifier (Move a) = ma_Identifier a"
| "op_identifier (Query a) = qa_Identifier a"

text \<open>The zero value of a configuration.\<close>

definition zeroConfig :: Config where
  "zeroConfig = \<lparr>Num = 0, Shards = replicate NShards 0, Groups = []\<rparr>"

section \<open>Executing a committed operation\<close>

definition executed :: "Identifier \<Rightarrow> ShardCtrler \<Rightarrow> bool" where
  "executed ident sc \<longleftrightarrow>
     (case sc_lastOp sc (ClientId ident) of None \<Rightarrow> False | Some v \<Rightarrow> lo_CallId v \<ge> CallId ident)"

definition record_op :: "Identifier \<Rightarrow> Config \<Rightarrow> ShardCtrler \<Rightarrow> ShardCtrler" where
  "record_op ident conf sc =
     sc\<lparr>sc_lastOp := (sc_lastOp sc)(ClientId ident \<mapsto> \<lparr>lo_CallId = CallId ident, lo_Config = conf\<rparr>)\<rparr>"

text \<open>
  The loops that copy a map of groups into another follow the association list; their keys are distinct,
  so the map they build does not depend on the order. Where the order could matter, in the balancing, it
  is the argument \<open>rng\<close>.
\<close>

definition execJoin :: "(gid list \<Rightarrow> gid list) \<Rightarrow> JoinArgs \<Rightarrow> ShardCtrler \<Rightarrow> ShardCtrler go" where
  "execJoin rng args sc =
     (if executed (ja_Identifier args) sc then Inr sc
      else
        let num = int (length (configs sc))
        in go_bind (go_index (configs sc) (num - 1)) (\<lambda>config.
             let groups = fold (\<lambda>(gid, names) gs. AList.update gid names gs) (ja_Servers args)
                            (cloneMap (Groups config));
                 newConfig = \<lparr>Num = num, Shards = Shards config, Groups = groups\<rparr>
             in go_bind (makeShardBalance (rng (map fst groups)) newConfig) (\<lambda>newConfig'.
                  Inr (record_op (ja_Identifier args) zeroConfig
                         (sc\<lparr>configs := configs sc @ [newConfig']\<rparr>)))))"

definition execLeave :: "(gid list \<Rightarrow> gid list) \<Rightarrow> LeaveArgs \<Rightarrow> ShardCtrler \<Rightarrow> ShardCtrler go" where
  "execLeave rng args sc =
     (if executed (la_Identifier args) sc then Inr sc
      else
        let num = int (length (configs sc))
        in go_bind (go_index (configs sc) (num - 1)) (\<lambda>config.
             let groups = fold AList.delete (la_GIDs args) (cloneMap (Groups config));
                 newConfig = \<lparr>Num = num, Shards = Shards config, Groups = groups\<rparr>
             in go_bind (makeShardBalance (rng (map fst groups)) newConfig) (\<lambda>newConfig'.
                  Inr (record_op (la_Identifier args) zeroConfig
                         (sc\<lparr>configs := configs sc @ [newConfig']\<rparr>)))))"

definition execMove :: "MoveArgs \<Rightarrow> ShardCtrler \<Rightarrow> ShardCtrler go" where
  "execMove args sc =
     (if executed (ma_Identifier args) sc then Inr sc
      else
        let num = int (length (configs sc))
        in go_bind (go_index (configs sc) (num - 1)) (\<lambda>config.
           go_bind (go_store (Shards config) (ma_Shard args) (ma_GID args)) (\<lambda>shards.
             let newConfig = \<lparr>Num = num, Shards = shards, Groups = cloneMap (Groups config)\<rparr>
             in Inr (record_op (ma_Identifier args) zeroConfig
                       (sc\<lparr>configs := configs sc @ [newConfig]\<rparr>)))))"

definition execQuery :: "QueryArgs \<Rightarrow> ShardCtrler \<Rightarrow> ShardCtrler go" where
  "execQuery args sc =
     (if executed (qa_Identifier args) sc then Inr sc
      else
        go_bind (if qa_Num args = -1 \<or> qa_Num args \<ge> int (length (configs sc))
                 then go_index (configs sc) (int (length (configs sc)) - 1)
                 else go_index (configs sc) (qa_Num args)) (\<lambda>config.
          Inr (record_op (qa_Identifier args) (CloneConfig config) sc)))"

fun execOp :: "(gid list \<Rightarrow> gid list) \<Rightarrow> CtrlOp \<Rightarrow> ShardCtrler \<Rightarrow> ShardCtrler go" where
  "execOp rng (Join args) sc = execJoin rng args sc"
| "execOp rng (Leave args) sc = execLeave rng args sc"
| "execOp rng (Move args) sc = execMove args sc"
| "execOp rng (Query args) sc = execQuery args sc"

text \<open>
  One message from Raft; only commands matter, a snapshot is never taken. The source releases the mutex
  between moving \<^verbatim>\<open>lastApplied\<close> and executing the command; here the two are one step. Only this
  loop executes commands, so a handler that runs in between sees the state before the command, with
  \<^verbatim>\<open>lastApplied\<close> one ahead.
\<close>

definition applier ::
    "(gid list \<Rightarrow> gid list) \<Rightarrow> (CtrlOp, 'x) ApplyMsg \<Rightarrow> ShardCtrler \<Rightarrow> ShardCtrler go" where
  "applier rng m sc =
     (if CommandValid m then
        if sc_lastApplied sc + 1 \<noteq> CommandIndex m
        then Inl (ExplicitPanic ''sc.lastApplied + 1 != m.CommandIndex'')
        else case am_Command m of
          None \<Rightarrow> Inl (ExplicitPanic ''interface conversion'')
        | Some op \<Rightarrow> execOp rng op (sc\<lparr>sc_lastApplied := sc_lastApplied sc + 1\<rparr>)
      else Inr sc)"

definition StartServer :: ShardCtrler where
  "StartServer =
     \<lparr>configs = [zeroConfig], sc_lastOp = Map.empty, sc_lastApplied = 0, sc_dead = False\<rparr>"

definition sc_Kill :: "ShardCtrler \<Rightarrow> ShardCtrler" where
  "sc_Kill sc = sc\<lparr>sc_dead := True\<rparr>"

section \<open>RPC handlers\<close>

text \<open>The answer to a call that has been executed before, if it has.\<close>

definition checkExecuted :: "Identifier \<Rightarrow> bool \<Rightarrow> ShardCtrler \<Rightarrow> CtrlReply option" where
  "checkExecuted ident query sc =
     (case sc_lastOp sc (ClientId ident) of None \<Rightarrow> None
      | Some v \<Rightarrow>
          if lo_CallId v < CallId ident then None
          else if lo_CallId v = CallId ident
          then Some \<lparr>WrongLeader = False, cr_Config = (if query then CloneConfig (lo_Config v) else zeroConfig)\<rparr>
          else Some \<lparr>WrongLeader = True, cr_Config = zeroConfig\<rparr>)"

text \<open>Whether a handler goes on waiting.\<close>

definition sc_check :: "int \<Rightarrow> int \<Rightarrow> int \<Rightarrow> ShardCtrler \<Rightarrow> bool" where
  "sc_check currentTerm startTerm index sc \<longleftrightarrow> currentTerm = startTerm \<and> sc_lastApplied sc < index"

definition finishCall :: "Identifier \<Rightarrow> bool \<Rightarrow> int \<Rightarrow> int \<Rightarrow> ShardCtrler \<Rightarrow> CtrlReply" where
  "finishCall ident query startTerm currentTerm sc =
     (if currentTerm \<noteq> startTerm then \<lparr>WrongLeader = True, cr_Config = zeroConfig\<rparr>
      else case sc_lastOp sc (ClientId ident) of
        None \<Rightarrow> \<lparr>WrongLeader = True, cr_Config = zeroConfig\<rparr>
      | Some v \<Rightarrow>
          if lo_CallId v \<noteq> CallId ident then \<lparr>WrongLeader = True, cr_Config = zeroConfig\<rparr>
          else \<lparr>WrongLeader = False, cr_Config = (if query then CloneConfig (lo_Config v) else zeroConfig)\<rparr>)"

text \<open>
  A handler from its call in state \<open>sc\<close> to its return in state \<open>sc'\<close>: \<open>start\<close> is what \<^verbatim>\<open>rf.Start\<close>
  returned, \<open>term'\<close> the term at the end of the wait. None while the handler waits.
\<close>

definition handler ::
    "CtrlOp \<Rightarrow> bool \<Rightarrow> ShardCtrler \<Rightarrow> int \<times> int \<times> bool \<Rightarrow> int \<Rightarrow> ShardCtrler \<Rightarrow> CtrlReply option" where
  "handler op query sc start term' sc' =
     (case checkExecuted (op_identifier op) query sc of
        Some reply \<Rightarrow> Some reply
      | None \<Rightarrow>
          (case start of (index, startTerm, isLeader) \<Rightarrow>
             if \<not> isLeader then Some \<lparr>WrongLeader = True, cr_Config = zeroConfig\<rparr>
             else if sc_check term' startTerm index sc' then None
             else Some (finishCall (op_identifier op) query startTerm term' sc')))"

definition Join_handler ::
    "JoinArgs \<Rightarrow> ShardCtrler \<Rightarrow> int \<times> int \<times> bool \<Rightarrow> int \<Rightarrow> ShardCtrler \<Rightarrow> CtrlReply option" where
  "Join_handler args = handler (Join args) False"

definition Leave_handler ::
    "LeaveArgs \<Rightarrow> ShardCtrler \<Rightarrow> int \<times> int \<times> bool \<Rightarrow> int \<Rightarrow> ShardCtrler \<Rightarrow> CtrlReply option" where
  "Leave_handler args = handler (Leave args) False"

definition Move_handler ::
    "MoveArgs \<Rightarrow> ShardCtrler \<Rightarrow> int \<times> int \<times> bool \<Rightarrow> int \<Rightarrow> ShardCtrler \<Rightarrow> CtrlReply option" where
  "Move_handler args = handler (Move args) False"

definition Query_handler ::
    "QueryArgs \<Rightarrow> ShardCtrler \<Rightarrow> int \<times> int \<times> bool \<Rightarrow> int \<Rightarrow> ShardCtrler \<Rightarrow> CtrlReply option" where
  "Query_handler args = handler (Query args) True"

section \<open>Maps\<close>

lemma fold_update_new:
  "distinct (map fst (b @ a)) \<Longrightarrow> fold (\<lambda>(k, v) b. AList.update k v b) a b = b @ a"
proof (induction a arbitrary: b)
  case (Cons p a)
  obtain k v where p: "p = (k, v)" by fastforce
  have "AList.update k v b = b @ [(k, v)]"
    using Cons.prems by (induction b) (auto simp: p)
  with Cons.IH [of "b @ [(k, v)]"] Cons.prems show ?case by (simp add: p)
qed simp

lemma cloneMap_id [simp]: "distinct (map fst a) \<Longrightarrow> cloneMap a = a"
  using fold_update_new [of "[]" a] by (simp add: cloneMap_def cloneStringSlice_def)

lemma CloneConfig_id [simp]: "config_ok c \<Longrightarrow> CloneConfig c = c"
  by (simp add: CloneConfig_def config_ok_def)

lemma fold_update_keys:
  assumes "distinct (map fst al)"
  shows "distinct (map fst (fold (\<lambda>(k, v) b. AList.update k v b) xs al))"
    "fst ` set (fold (\<lambda>(k, v) b. AList.update k v b) xs al) = fst ` set al \<union> fst ` set xs"
  using assms
proof (induction xs arbitrary: al)
  case (Cons p xs)
  obtain k v where p: "p = (k, v)" by fastforce
  case 1
  then show ?case using Cons.IH(1) [of "AList.update k v al"] by (simp add: p distinct_update)
  case 2
  then show ?case using Cons.IH(2) [of "AList.update k v al"] by (simp add: p distinct_update dom_update)
qed simp_all

lemma fold_update_map_of:
  "distinct (map fst xs) \<Longrightarrow>
   map_of (fold (\<lambda>(k, v) b. AList.update k v b) xs al) = map_of al ++ map_of xs"
proof (induction xs arbitrary: al)
  case (Cons p xs)
  obtain k v where p: "p = (k, v)" by fastforce
  from Cons.prems have "map_of xs k = None" by (auto simp: p map_of_eq_None_iff image_iff)
  with Cons show ?case
    by (auto simp: p update_conv' map_add_def fun_eq_iff split: option.splits)
qed simp

lemma fold_delete_keys:
  assumes "distinct (map fst al)"
  shows "distinct (map fst (fold AList.delete ks al))"
    "map_of (fold AList.delete ks al) = map_of al |` (- set ks)"
  using assms
proof (induction ks arbitrary: al)
  case (Cons k ks)
  case 1
  then show ?case using Cons.IH(1) [of "AList.delete k al"] by (simp add: distinct_delete)
  case 2
  then show ?case
    using Cons.IH(2) [of "AList.delete k al"]
    by (auto simp: distinct_delete delete_conv' restrict_map_def fun_eq_iff)
qed (simp_all add: restrict_map_def)

lemma live_dom: "live c = dom (map_of (Groups c))"
  by (simp add: dom_map_of_conv_image_fst)

section \<open>The history of configurations\<close>

definition rng_ok :: "(gid list \<Rightarrow> gid list) \<Rightarrow> bool" where
  "rng_ok rng \<longleftrightarrow> (\<forall>ks. mset (rng ks) = mset ks)"

text \<open>An assignment of the shards to the live groups; all shards are unassigned when there is none.\<close>

definition assigned :: "gid set \<Rightarrow> gid list \<Rightarrow> bool" where
  "assigned K Sh \<longleftrightarrow>
     (if K = {} then Sh = replicate NShards InvalidGid else length Sh = NShards \<and> balanced K Sh)"

definition ctrl_inv :: "ShardCtrler \<Rightarrow> bool" where
  "ctrl_inv sc \<longleftrightarrow>
     configs sc \<noteq> [] \<and>
     (\<forall>i < length (configs sc). Num (configs sc ! i) = int i \<and> config_ok (configs sc ! i))"

fun op_ok :: "CtrlOp \<Rightarrow> bool" where
  "op_ok (Move args) \<longleftrightarrow> 0 \<le> ma_Shard args \<and> ma_Shard args < int NShards"
| "op_ok (Query args) \<longleftrightarrow> -1 \<le> qa_Num args"
| "op_ok _ \<longleftrightarrow> True"

lemma makeShardBalance_assigned:
  assumes "config_ok c" "rng_ok rng"
  shows "\<exists>Sh. makeShardBalance (rng (map fst (Groups c))) c = Inr (c\<lparr>Shards := Sh\<rparr>) \<and>
    assigned (live c) Sh \<and> length Sh = NShards"
proof (cases "Groups c = []")
  case True
  have "map (\<lambda>_. InvalidGid) xs = replicate (length xs) InvalidGid" for xs :: "gid list"
    by (rule map_replicate_const)
  with True assms(1) show ?thesis by (simp add: makeShardBalance_def assigned_def config_ok_def)
next
  case False
  from assms(2) have "range_order (rng (map fst (Groups c))) c" by (simp add: rng_ok_def)
  from makeShardBalance_run [OF assms(1) False this] obtain Sh where
    sh: "makeShardBalance (rng (map fst (Groups c))) c = Inr (c\<lparr>Shards := Sh\<rparr>)" "length Sh = NShards"
      "set Sh \<subseteq> live c" and
    n: "\<forall>g \<in> live c. count_list Sh g = NShards div card (live c) \<or>
       count_list Sh g = NShards div card (live c) + 1" by blast
  have "count_list Sh g \<le> count_list Sh h + 1" if "g \<in> live c" "h \<in> live c" for g h
    using bspec [OF n that(1)] bspec [OF n that(2)] by linarith
  with sh(3) have "balanced (live c) Sh" by (simp add: balanced_def)
  with sh False show ?thesis unfolding assigned_def by auto
qed

lemma ctrl_inv_last:
  assumes "ctrl_inv sc"
  shows "go_index (configs sc) (int (length (configs sc)) - 1) = Inr (last (configs sc))"
    "config_ok (last (configs sc))"
  using assms go_index_last [of "configs sc"] last_conv_nth [of "configs sc"]
  by (auto simp: ctrl_inv_def)

lemma ctrl_inv_snoc:
  assumes "ctrl_inv sc" "Num c = int (length (configs sc))" "config_ok c"
  shows "ctrl_inv (sc\<lparr>configs := configs sc @ [c]\<rparr>)"
  using assms by (auto simp: ctrl_inv_def nth_append less_Suc_eq)

lemma record_op_fields [simp]:
  "configs (record_op i conf sc) = configs sc"
  "sc_lastApplied (record_op i conf sc) = sc_lastApplied sc"
  "sc_lastOp (record_op i conf sc) =
     (sc_lastOp sc)(ClientId i \<mapsto> \<lparr>lo_CallId = CallId i, lo_Config = conf\<rparr>)"
  by (simp_all add: record_op_def)

lemma ctrl_inv_record_op [simp]: "ctrl_inv (record_op i conf sc) = ctrl_inv sc"
  by (simp add: ctrl_inv_def)

text \<open>The effect of a join and of a leave that have not been executed yet.\<close>

lemma execJoin_run:
  assumes inv: "ctrl_inv sc" and rng: "rng_ok rng" and new: "\<not> executed (ja_Identifier args) sc"
    and srv: "distinct (map fst (ja_Servers args))"
  shows "\<exists>c. execJoin rng args sc =
      Inr (record_op (ja_Identifier args) zeroConfig (sc\<lparr>configs := configs sc @ [c]\<rparr>)) \<and>
    Num c = int (length (configs sc)) \<and> config_ok c \<and> assigned (live c) (Shards c) \<and>
    map_of (Groups c) = map_of (Groups (last (configs sc))) ++ map_of (ja_Servers args)"
proof -
  let ?old = "last (configs sc)"
  define groups where "groups = fold (\<lambda>(gid, names) gs. AList.update gid names gs) (ja_Servers args)
    (cloneMap (Groups ?old))"
  let ?c = "\<lparr>Num = int (length (configs sc)), Shards = Shards ?old, Groups = groups\<rparr>"
  note old = ctrl_inv_last [OF inv]
  have "config_ok ?c" using old(2) by (auto simp: config_ok_def groups_def fold_update_keys(1))
  from makeShardBalance_assigned [OF this rng] obtain Sh where
    "makeShardBalance (rng (map fst groups)) ?c = Inr (?c\<lparr>Shards := Sh\<rparr>)"
    "assigned (live ?c) Sh" "length Sh = NShards" by auto
  with new old \<open>config_ok ?c\<close> srv show ?thesis
    by (intro exI [of _ "?c\<lparr>Shards := Sh\<rparr>"])
      (auto simp: execJoin_def Let_def groups_def [symmetric] config_ok_def
        fold_update_map_of [OF srv] groups_def)
qed

lemma execLeave_run:
  assumes inv: "ctrl_inv sc" and rng: "rng_ok rng" and new: "\<not> executed (la_Identifier args) sc"
  shows "\<exists>c. execLeave rng args sc =
      Inr (record_op (la_Identifier args) zeroConfig (sc\<lparr>configs := configs sc @ [c]\<rparr>)) \<and>
    Num c = int (length (configs sc)) \<and> config_ok c \<and> assigned (live c) (Shards c) \<and>
    map_of (Groups c) = map_of (Groups (last (configs sc))) |` (- set (la_GIDs args))"
proof -
  let ?old = "last (configs sc)"
  define groups where "groups = fold AList.delete (la_GIDs args) (Groups ?old)"
  let ?c = "\<lparr>Num = int (length (configs sc)), Shards = Shards ?old, Groups = groups\<rparr>"
  note old = ctrl_inv_last [OF inv]
  have "config_ok ?c" using old(2) by (auto simp: config_ok_def groups_def fold_delete_keys(1))
  from makeShardBalance_assigned [OF this rng] obtain Sh where
    "makeShardBalance (rng (map fst groups)) ?c = Inr (?c\<lparr>Shards := Sh\<rparr>)"
    "assigned (live ?c) Sh" "length Sh = NShards" by auto
  moreover have "map_of groups = map_of (Groups ?old) |` (- set (la_GIDs args))"
    using old(2) by (simp add: groups_def config_ok_def fold_delete_keys(2))
  ultimately show ?thesis
    using new old \<open>config_ok ?c\<close>
    by (intro exI [of _ "?c\<lparr>Shards := Sh\<rparr>"])
      (simp add: execLeave_def Let_def groups_def [symmetric] config_ok_def)
qed

text \<open>
  One operation: nothing is appended, or one configuration that is well formed and whose groups have
  the servers they had or those of the join.
\<close>

lemma execOp_run:
  assumes inv: "ctrl_inv sc" and ok: "op_ok op" and rng: "rng_ok rng"
    and srv: "\<And>a. op = Join a \<Longrightarrow> distinct (map fst (ja_Servers a))"
  shows "\<exists>sc'. execOp rng op sc = Inr sc' \<and> ctrl_inv sc' \<and>
    (configs sc' = configs sc \<or> (\<exists>c. configs sc' = configs sc @ [c] \<and>
      (\<forall>g names. map_of (Groups c) g = Some names \<longrightarrow>
        map_of (Groups (last (configs sc))) g = Some names \<or>
        (\<exists>a. op = Join a \<and> map_of (ja_Servers a) g = Some names))))"
proof (cases "executed (op_identifier op) sc")
  case True
  with inv show ?thesis
    by (cases op) (simp_all add: execJoin_def execLeave_def execMove_def execQuery_def)
next
  case False
  note old = ctrl_inv_last [OF inv]
  show ?thesis
  proof (cases op)
    case (Join args)
    with execJoin_run [OF inv rng _ srv [OF Join]] False obtain c where
      "execJoin rng args sc = Inr (record_op (ja_Identifier args) zeroConfig (sc\<lparr>configs := configs sc @ [c]\<rparr>))"
      "Num c = int (length (configs sc))" "config_ok c"
      "map_of (Groups c) = map_of (Groups (last (configs sc))) ++ map_of (ja_Servers args)" by auto
    with Join ctrl_inv_snoc [OF inv] show ?thesis by auto
  next
    case (Leave args)
    with execLeave_run [OF inv rng] False obtain c where
      "execLeave rng args sc = Inr (record_op (la_Identifier args) zeroConfig (sc\<lparr>configs := configs sc @ [c]\<rparr>))"
      "Num c = int (length (configs sc))" "config_ok c"
      "map_of (Groups c) = map_of (Groups (last (configs sc))) |` (- set (la_GIDs args))" by auto
    with Leave ctrl_inv_snoc [OF inv] show ?thesis by (auto simp: restrict_map_def split: if_splits)
  next
    case (Move args)
    let ?c = "\<lparr>Num = int (length (configs sc)), Shards = (Shards (last (configs sc)))[nat (ma_Shard args) := ma_GID args],
       Groups = Groups (last (configs sc))\<rparr>"
    have "config_ok ?c" using old(2) by (simp add: config_ok_def)
    with Move False ok old ctrl_inv_snoc [OF inv, of ?c] show ?thesis
      by (simp add: execMove_def Let_def go_store_def config_ok_def)
  next
    case (Query args)
    show ?thesis
    proof (cases "qa_Num args = -1 \<or> qa_Num args \<ge> int (length (configs sc))")
      case True
      with Query False old(1) inv show ?thesis by (simp add: execQuery_def)
    next
      case in_range: False
      with ok Query have "0 \<le> qa_Num args \<and> qa_Num args < int (length (configs sc))" by auto
      with Query False in_range inv show ?thesis by (simp add: execQuery_def)
    qed
  qed
qed

text \<open>
  C25: every operation with arguments in range, executed on a controller whose history is well formed
  (configuration \<open>i\<close> has number \<open>i\<close>, ten shards and distinct group ids), succeeds, leaves the
  history well formed and only ever appends to it; old configurations never change.
\<close>

theorem execOp_history:
  assumes inv: "ctrl_inv sc" and ok: "op_ok op" and rng: "rng_ok rng"
    and srv: "\<And>a. op = Join a \<Longrightarrow> distinct (map fst (ja_Servers a))"
  shows "\<exists>sc'. execOp rng op sc = Inr sc' \<and> ctrl_inv sc' \<and> prefix (configs sc) (configs sc')"
  using execOp_run [OF assms] by fastforce

theorem execOp_history_witness:
  "\<exists>sc'. execOp id (Move \<lparr>ma_Identifier = \<lparr>ClientId = 1, CallId = 0\<rparr>, ma_Shard = 3, ma_GID = 8\<rparr>) StartServer =
     Inr sc' \<and> ctrl_inv sc' \<and> prefix [zeroConfig] (configs sc')"
  using execOp_history [of StartServer
      "Move \<lparr>ma_Identifier = \<lparr>ClientId = 1, CallId = 0\<rparr>, ma_Shard = 3, ma_GID = 8\<rparr>" id]
  by (simp add: ctrl_inv_def StartServer_def zeroConfig_def config_ok_def NShards_def rng_ok_def)

text \<open>
  C26: a join that was not executed before adds exactly one configuration, whose groups are the old
  ones overridden by the joining ones and whose shards are balanced over all of them.
\<close>

theorem execJoin_balanced:
  assumes "ctrl_inv sc" "rng_ok rng" "\<not> executed (ja_Identifier args) sc"
    and "distinct (map fst (ja_Servers args))"
  shows "\<exists>sc' c. execJoin rng args sc = Inr sc' \<and> configs sc' = configs sc @ [c] \<and>
    map_of (Groups c) = map_of (Groups (last (configs sc))) ++ map_of (ja_Servers args) \<and>
    assigned (live c) (Shards c)"
  using execJoin_run [OF assms] by force

theorem execJoin_balanced_witness:
  "\<exists>sc' c. execJoin rev \<lparr>ja_Identifier = \<lparr>ClientId = 1, CallId = 0\<rparr>, ja_Servers = [(4, [''a'']), (9, [''b''])]\<rparr>
     StartServer = Inr sc' \<and> configs sc' = [zeroConfig, c] \<and>
     map_of (Groups c) = [4 \<mapsto> [''a''], 9 \<mapsto> [''b'']] \<and> assigned (live c) (Shards c)"
  using execJoin_balanced [of StartServer rev
      "\<lparr>ja_Identifier = \<lparr>ClientId = 1, CallId = 0\<rparr>, ja_Servers = [(4, [''a'']), (9, [''b''])]\<rparr>"]
  by (simp add: ctrl_inv_def StartServer_def zeroConfig_def config_ok_def NShards_def rng_ok_def
      executed_def map_add_def fun_upd_twist)

text \<open>
  C27: a leave that was not executed before adds exactly one configuration, without the leaving
  groups; its shards are balanced over the groups that stay, or all unassigned when none stays.
\<close>

theorem execLeave_balanced:
  assumes "ctrl_inv sc" "rng_ok rng" "\<not> executed (la_Identifier args) sc"
  shows "\<exists>sc' c. execLeave rng args sc = Inr sc' \<and> configs sc' = configs sc @ [c] \<and>
    live c = live (last (configs sc)) - set (la_GIDs args) \<and> assigned (live c) (Shards c)"
proof -
  from execLeave_run [OF assms] obtain c where
    c: "execLeave rng args sc = Inr (record_op (la_Identifier args) zeroConfig (sc\<lparr>configs := configs sc @ [c]\<rparr>))"
      "assigned (live c) (Shards c)"
      "map_of (Groups c) = map_of (Groups (last (configs sc))) |` (- set (la_GIDs args))" by blast
  have "live c = live (last (configs sc)) - set (la_GIDs args)"
    unfolding live_dom c(3) by (simp add: Diff_eq)
  with c(1,2) show ?thesis
    by (intro exI [of _ "record_op (la_Identifier args) zeroConfig (sc\<lparr>configs := configs sc @ [c]\<rparr>)"]
        exI [of _ c]) simp
qed

theorem execLeave_balanced_witness:
  "\<exists>sc' c. execLeave rev \<lparr>la_Identifier = \<lparr>ClientId = 1, CallId = 0\<rparr>, la_GIDs = [4]\<rparr>
     StartServer = Inr sc' \<and> configs sc' = [zeroConfig, c] \<and> live c = {} \<and> assigned (live c) (Shards c)"
  using execLeave_balanced [of StartServer rev
      "\<lparr>la_Identifier = \<lparr>ClientId = 1, CallId = 0\<rparr>, la_GIDs = [4]\<rparr>"]
  by (simp add: ctrl_inv_def StartServer_def zeroConfig_def config_ok_def NShards_def rng_ok_def
      executed_def)

section \<open>Replicas agree, clients are served once\<close>

lemma makeShardBalance_rng:
  assumes "rng_ok rng1" "rng_ok rng2"
  shows "makeShardBalance (rng1 (map fst (Groups c))) c = makeShardBalance (rng2 (map fst (Groups c))) c"
proof -
  have "sort (rng1 ks) = sort (rng2 ks)" for ks
    using assms by (intro properties_for_sort) (simp_all add: rng_ok_def)
  then show ?thesis by (simp add: makeShardBalance_def Let_def sort_key_pair)
qed

lemma execOp_rng:
  assumes "rng_ok rng1" "rng_ok rng2"
  shows "execOp rng1 op sc = execOp rng2 op sc"
proof -
  have "makeShardBalance (rng1 (map fst gs)) \<lparr>Num = k, Shards = sh, Groups = gs\<rparr> =
      makeShardBalance (rng2 (map fst gs)) \<lparr>Num = k, Shards = sh, Groups = gs\<rparr>" for gs k sh
    using makeShardBalance_rng [OF assms, of "\<lparr>Num = k, Shards = sh, Groups = gs\<rparr>"] by simp
  then show ?thesis by (cases op) (simp_all add: execJoin_def execLeave_def Let_def)
qed

text \<open>
  C6: two replicas that execute the same log from the same state end in the same state, although
  each visits its maps in an order of its own.
\<close>

theorem replicas_agree:
  assumes "rng_ok rng1" "rng_ok rng2"
  shows "go_run (execOp rng1) ops sc = go_run (execOp rng2) ops sc"
  using execOp_rng [OF assms] by (induction ops arbitrary: sc) (auto intro!: go_bind_cong)

theorem replicas_agree_witness:
  "go_run (execOp rev) [Join \<lparr>ja_Identifier = \<lparr>ClientId = 1, CallId = 0\<rparr>, ja_Servers = [(4, []), (9, [])]\<rparr>] StartServer =
   go_run (execOp id) [Join \<lparr>ja_Identifier = \<lparr>ClientId = 1, CallId = 0\<rparr>, ja_Servers = [(4, []), (9, [])]\<rparr>] StartServer"
  by (rule replicas_agree) (simp_all add: rng_ok_def)

abbreviation op_client :: "CtrlOp \<Rightarrow> int" where
  "op_client op \<equiv> ClientId (op_identifier op)"

abbreviation op_call :: "CtrlOp \<Rightarrow> int" where
  "op_call op \<equiv> CallId (op_identifier op)"

definition sc_last_call :: "ShardCtrler \<Rightarrow> int \<Rightarrow> int option" where
  "sc_last_call sc k = map_option lo_CallId (sc_lastOp sc k)"

lemma sc_last_call_record_op [simp]:
  "sc_last_call (record_op i conf sc) = (sc_last_call sc)(ClientId i \<mapsto> CallId i)"
  "sc_last_call (sc\<lparr>configs := cs\<rparr>) = sc_last_call sc"
  by (auto simp: sc_last_call_def)

lemma execOp_cases:
  assumes "execOp rng op sc = Inr sc'"
  shows "if executed (op_identifier op) sc then sc' = sc
    else sc_last_call sc' = (sc_last_call sc)(op_client op \<mapsto> op_call op)"
  using assms
  by (cases op)
    (auto simp: execJoin_def execLeave_def execMove_def execQuery_def Let_def go_bind_eq_Inr)

interpretation ctrl_session: session_machine "execOp rng" op_client op_call sc_last_call for rng
proof unfold_locales
  fix sc op m
  assume "sc_last_call sc (op_client op) = Some m" "op_call op \<le> m"
  then have "executed (op_identifier op) sc" by (auto simp: sc_last_call_def executed_def)
  then show "execOp rng op sc = Inr sc"
    by (cases op) (simp_all add: execJoin_def execLeave_def execMove_def execQuery_def)
next
  fix op sc sc'
  assume "execOp rng op sc = Inr sc'"
  from execOp_cases [OF this]
  show "sc' = sc \<or> sc_last_call sc' = (sc_last_call sc)(op_client op \<mapsto> op_call op)"
    by (cases "executed (op_identifier op) sc") simp_all
qed

text \<open>
  C28: exactly once. Executing a log gives the same state as executing only the operations that
  took effect, and among these the calls of each client have strictly increasing call ids: a call
  that the log contains several times is executed at most once.
\<close>

theorem ctrl_exactly_once:
  assumes "go_run (execOp rng) ops sc = Inr sc'"
  shows "go_run (execOp rng) (effects (execOp rng) ops sc) sc = Inr sc' \<and>
    sorted_wrt (<) (map op_call (filter (\<lambda>op. op_client op = k) (effects (execOp rng) ops sc)))"
  using effects_run [OF assms] ctrl_session.effects_increasing by blast

theorem ctrl_exactly_once_witness:
  "\<exists>sc'. go_run (execOp id) (replicate 3 (Query \<lparr>qa_Identifier = \<lparr>ClientId = 1, CallId = 0\<rparr>, qa_Num = -1\<rparr>)) StartServer = Inr sc' \<and>
     sorted_wrt (<) (map op_call (filter (\<lambda>op. op_client op = 1)
       (effects (execOp id) (replicate 3 (Query \<lparr>qa_Identifier = \<lparr>ClientId = 1, CallId = 0\<rparr>, qa_Num = -1\<rparr>)) StartServer)))"
proof -
  let ?ops = "replicate 3 (Query \<lparr>qa_Identifier = \<lparr>ClientId = 1, CallId = 0\<rparr>, qa_Num = -1\<rparr>)"
  obtain sc' where run: "go_run (execOp id) ?ops StartServer = Inr sc'"
    by (simp add: numeral_3_eq_3 execQuery_def executed_def StartServer_def go_index_def)
  with ctrl_exactly_once [OF run, of 1] show ?thesis by blast
qed

section \<open>What a reply means\<close>

text \<open>
  A handler that answers without \<^verbatim>\<open>WrongLeader\<close> answers for its own call: when it was called
  or when it stopped waiting, the last operation executed for the client was this call, and a query
  returns the configuration that was recorded then.
\<close>

theorem handler_reply:
  assumes "handler op query sc start term' sc' = Some reply" "\<not> WrongLeader reply"
  shows "\<exists>v. (sc_lastOp sc (op_client op) = Some v \<or> sc_lastOp sc' (op_client op) = Some v) \<and>
    lo_CallId v = op_call op \<and> (query \<longrightarrow> cr_Config reply = CloneConfig (lo_Config v))"
  using assms
  by (auto simp: handler_def checkExecuted_def finishCall_def split: option.splits prod.splits if_splits)

theorem handler_reply_witness:
  "\<exists>v. (sc_lastOp StartServer 1 = Some v \<or>
      sc_lastOp (record_op \<lparr>ClientId = 1, CallId = 0\<rparr> zeroConfig (StartServer\<lparr>sc_lastApplied := 1\<rparr>)) 1 = Some v) \<and>
    lo_CallId v = 0 \<and> zeroConfig = CloneConfig (lo_Config v)"
  using handler_reply [of "Query \<lparr>qa_Identifier = \<lparr>ClientId = 1, CallId = 0\<rparr>, qa_Num = -1\<rparr>" True StartServer
      "(1, 1, True)" 1 "record_op \<lparr>ClientId = 1, CallId = 0\<rparr> zeroConfig (StartServer\<lparr>sc_lastApplied := 1\<rparr>)"
      "\<lparr>WrongLeader = False, cr_Config = zeroConfig\<rparr>"]
  by (simp add: handler_def checkExecuted_def finishCall_def sc_check_def StartServer_def
      CloneConfig_def cloneMap_def zeroConfig_def)

end
