(* ===== verification/KvRaft.thy ===== *)
theory KvRaft
  imports RaftServer Sessions "HOL-Library.Word"
begin

text \<open>
  The replicated key/value service (\<^verbatim>\<open>src/kvraft/server.go\<close>, \<^verbatim>\<open>common.go\<close>) and the sequential
  model its histories are judged by (\<^verbatim>\<open>src/models/kv.go\<close>). \<open>kv_execOp\<close> runs one committed
  operation, under the mutex, so it is one step; \<open>kv_snapshot\<close> and \<open>applySnapshot\<close>/\<open>restoreState\<close>
  save and load the state; the RPC handlers look at the state when they are called and when they
  stop waiting. A Go \<^verbatim>\<open>map\<close> is a partial function: no operation depends on the order of its keys.
\<close>

section \<open>The sequential model\<close>

record KvInput =
  ki_Op :: "8 word"
  ki_Key :: string
  ki_Value :: string

record KvOutput =
  ko_Value :: string

definition KvModel_Init :: string where
  "KvModel_Init = ''''"

definition KvModel_Step :: "string \<Rightarrow> KvInput \<Rightarrow> KvOutput \<Rightarrow> bool \<times> string" where
  "KvModel_Step st inp out =
     (if ki_Op inp = 0 then (ko_Value out = st, st)
      else if ki_Op inp = 1 then (True, ki_Value inp)
      else if ki_Op inp = 2 then (True, st @ ki_Value inp)
      else (ko_Value out = st, st @ ki_Value inp))"

section \<open>Operations and state\<close>

record KvOp =
  ko_ClientId :: int
  ko_CallId :: int
  GetValid :: bool
  PutValid :: bool
  AppendValid :: bool
  ko_Key :: string
  kop_Value :: string

record KvLastOperation =
  kl_CallId :: int
  kl_Result :: string

record KVServer =
  kv_me :: nat
  kv_dead :: bool
  maxraftstate :: int
  Data :: "string \<rightharpoonup> string"
  LastOp :: "int \<rightharpoonup> KvLastOperation"
  LastApplied :: int

datatype KvErr = OK | ErrNoKey | ErrWrongLeader

record GetArgs =
  ga_Key :: string
  ga_ClientID :: int
  ga_CallID :: int

record PutAppendArgs =
  pa_Key :: string
  pa_Value :: string
  pa_ClientID :: int
  pa_CallID :: int

record GetReply =
  gr_Err :: KvErr
  gr_Value :: string

record PutAppendReply =
  pr_Err :: KvErr

section \<open>Executing a committed operation\<close>

definition kv_value :: "KVServer \<Rightarrow> string \<Rightarrow> string" where
  "kv_value kv key = (case Data kv key of Some v \<Rightarrow> v | None \<Rightarrow> '''')"

text \<open>The change an operation makes, and the result it records.\<close>

definition kv_do :: "KvOp \<Rightarrow> KVServer \<Rightarrow> KVServer" where
  "kv_do op kv =
     (let result = (if GetValid op then kv_value kv (ko_Key op) else '''');
          data = (if GetValid op then Data kv
                  else if PutValid op then (Data kv)(ko_Key op \<mapsto> kop_Value op)
                  else if AppendValid op then (Data kv)(ko_Key op \<mapsto> kv_value kv (ko_Key op) @ kop_Value op)
                  else Data kv)
      in kv\<lparr>Data := data,
            LastOp := (LastOp kv)(ko_ClientId op \<mapsto> \<lparr>kl_CallId = ko_CallId op, kl_Result = result\<rparr>)\<rparr>)"

definition kv_done :: "int \<Rightarrow> int \<Rightarrow> KVServer \<Rightarrow> bool" where
  "kv_done client call kv \<longleftrightarrow>
     (case LastOp kv client of Some v \<Rightarrow> kl_CallId v \<ge> call | None \<Rightarrow> False)"

text \<open>The part of \<^verbatim>\<open>execOp\<close> after the index check: skip a call that was executed, else do it.\<close>

definition kv_apply :: "KvOp \<Rightarrow> KVServer \<Rightarrow> KVServer" where
  "kv_apply op kv = (if kv_done (ko_ClientId op) (ko_CallId op) kv then kv else kv_do op kv)"

definition kv_execOp :: "KvOp \<Rightarrow> int \<Rightarrow> KVServer \<Rightarrow> KVServer go" where
  "kv_execOp op index kv =
     (if LastApplied kv \<ge> index then Inl (ExplicitPanic ''kv.lastApplied >= m.CommandIndex'')
      else if LastApplied kv + 1 \<noteq> index then Inl (ExplicitPanic ''kv.lastApplied + 1 != m.CommandIndex'')
      else Inr (kv_apply op (kv\<lparr>LastApplied := LastApplied kv + 1\<rparr>)))"

section \<open>Snapshots\<close>

datatype kvval = KvData "string \<rightharpoonup> string" | KvLastOp "int \<rightharpoonup> KvLastOperation"

definition kv_snapshot :: "KVServer \<Rightarrow> kvval gob" where
  "kv_snapshot kv =
     Encode (Encode (Encode [] (GInt (LastApplied kv))) (GVal (KvData (Data kv)))) (GVal (KvLastOp (LastOp kv)))"

text \<open>One round of the snapshot loop: what is handed to \<^verbatim>\<open>rf.Snapshot\<close>.\<close>

definition makeSnapshot ::
    "(KvOp LogEntry list gobval \<Rightarrow> nat) \<Rightarrow> KVServer \<Rightarrow> (KvOp, kvval) raft \<Rightarrow> (KvOp, kvval) raft go" where
  "makeSnapshot bytes kv rf =
     (if kv_dead kv \<or> maxraftstate kv = -1 then Inr rf
      else if int (RaftStateSize bytes (persister rf)) \<ge> maxraftstate kv
      then Snapshot (LastApplied kv) (kv_snapshot kv) rf
      else Inr rf)"

text \<open>
  Reading a snapshot back: a value that cannot be decoded stays at its zero value, and what follows
  it in the stream is not read.
\<close>

definition decode_data :: "kvval gob \<Rightarrow> ((string \<rightharpoonup> string) \<times> kvval gob) option" where
  "decode_data g = (case DecodeVal g of Some (KvData d, r) \<Rightarrow> Some (d, r) | _ \<Rightarrow> None)"

definition decode_lastOp :: "kvval gob \<Rightarrow> ((int \<rightharpoonup> KvLastOperation) \<times> kvval gob) option" where
  "decode_lastOp g = (case DecodeVal g of Some (KvLastOp l, r) \<Rightarrow> Some (l, r) | _ \<Rightarrow> None)"

definition decode_snapshot ::
    "kvval gob \<Rightarrow> int \<times> (string \<rightharpoonup> string) \<times> (int \<rightharpoonup> KvLastOperation) \<times> bool" where
  "decode_snapshot g =
     (case DecodeInt g of None \<Rightarrow> (0, Map.empty, Map.empty, False)
      | Some (i, g1) \<Rightarrow> (case decode_data g1 of None \<Rightarrow> (i, Map.empty, Map.empty, False)
        | Some (d, g2) \<Rightarrow> (case decode_lastOp g2 of None \<Rightarrow> (i, d, Map.empty, False)
          | Some (l, _) \<Rightarrow> (i, d, l, True))))"

definition applySnapshot :: "int \<Rightarrow> kvval gob \<Rightarrow> KVServer \<Rightarrow> KVServer go" where
  "applySnapshot snapshotIndex snap kv =
     (case decode_snapshot snap of (index, data, lastOp, _) \<Rightarrow>
        if index \<noteq> snapshotIndex then Inl (ExplicitPanic ''applySnapshot():index != snapshotIndex'')
        else if snapshotIndex < LastApplied kv then Inr kv
        else Inr (kv\<lparr>LastApplied := snapshotIndex, Data := data, LastOp := lastOp\<rparr>))"

definition restoreState :: "kvval gob \<Rightarrow> KVServer \<Rightarrow> KVServer" where
  "restoreState snap kv =
     (if snap = [] then kv
      else case decode_snapshot snap of (lastApp, data, lastOp, ok) \<Rightarrow>
        if \<not> ok then kv
        else kv\<lparr>LastApplied := lastApp, Data := data, LastOp := lastOp\<rparr>)"

definition kv_applier :: "(KvOp, kvval) ApplyMsg \<Rightarrow> KVServer \<Rightarrow> KVServer go" where
  "kv_applier m kv =
     (if CommandValid m then
        (case am_Command m of None \<Rightarrow> Inl (ExplicitPanic ''interface conversion'')
         | Some op \<Rightarrow> kv_execOp op (CommandIndex m) kv)
      else if SnapshotValid m then applySnapshot (SnapshotIndex m) (am_Snapshot m) kv
      else Inr kv)"

definition StartKVServer :: "nat \<Rightarrow> (KvOp LogEntry list, kvval) Persister \<Rightarrow> int \<Rightarrow> KVServer" where
  "StartKVServer self ps maxstate =
     restoreState (ReadSnapshot ps)
       \<lparr>kv_me = self, kv_dead = False, maxraftstate = maxstate, Data = Map.empty,
        LastOp = Map.empty, LastApplied = 0\<rparr>"

definition kv_Kill :: "KVServer \<Rightarrow> KVServer" where
  "kv_Kill kv = kv\<lparr>kv_dead := True\<rparr>"

section \<open>RPC handlers\<close>

definition kv_Check :: "int \<Rightarrow> int \<Rightarrow> int \<Rightarrow> int \<Rightarrow> KVServer \<Rightarrow> bool" where
  "kv_Check clientId callId startTerm currentTerm kv \<longleftrightarrow>
     currentTerm = startTerm \<and> \<not> kv_done clientId callId kv"

text \<open>The answer to an old call, and the answer at the end of the wait; with the recorded result.\<close>

definition kv_old :: "int \<Rightarrow> int \<Rightarrow> KVServer \<Rightarrow> (KvErr \<times> string) option" where
  "kv_old client call kv =
     (case LastOp kv client of None \<Rightarrow> None
      | Some v \<Rightarrow> if call \<le> kl_CallId v
                 then Some (if call = kl_CallId v then (OK, kl_Result v) else (ErrWrongLeader, ''''))
                 else None)"

definition kv_finish :: "int \<Rightarrow> int \<Rightarrow> int \<Rightarrow> int \<Rightarrow> KVServer \<Rightarrow> KvErr \<times> string" where
  "kv_finish client call startTerm currentTerm kv =
     (if currentTerm \<noteq> startTerm then (ErrWrongLeader, '''')
      else case LastOp kv client of
        None \<Rightarrow> (ErrWrongLeader, '''')
      | Some v \<Rightarrow> if kl_CallId v \<noteq> call then (ErrWrongLeader, '''') else (OK, kl_Result v))"

text \<open>
  A handler from its call in state \<open>kv\<close> to its return in state \<open>kv'\<close>; \<open>start\<close> is what \<^verbatim>\<open>rf.Start\<close>
  returned, \<open>term'\<close> the term at the end of the wait. None while the handler waits.
\<close>

definition kv_call ::
    "int \<Rightarrow> int \<Rightarrow> KVServer \<Rightarrow> int \<times> int \<times> bool \<Rightarrow> int \<Rightarrow> KVServer \<Rightarrow> (KvErr \<times> string) option" where
  "kv_call client call kv start term' kv' =
     (case kv_old client call kv of Some r \<Rightarrow> Some r
      | None \<Rightarrow> (case start of (_, startTerm, isLeader) \<Rightarrow>
          if \<not> isLeader then Some (ErrWrongLeader, '''')
          else if kv_Check client call startTerm term' kv' then None
          else Some (kv_finish client call startTerm term' kv')))"

definition Get_op :: "GetArgs \<Rightarrow> KvOp" where
  "Get_op args = \<lparr>ko_ClientId = ga_ClientID args, ko_CallId = ga_CallID args, GetValid = True,
     PutValid = False, AppendValid = False, ko_Key = ga_Key args, kop_Value = ''''\<rparr>"

definition Put_op :: "PutAppendArgs \<Rightarrow> KvOp" where
  "Put_op args = \<lparr>ko_ClientId = pa_ClientID args, ko_CallId = pa_CallID args, GetValid = False,
     PutValid = True, AppendValid = False, ko_Key = pa_Key args, kop_Value = pa_Value args\<rparr>"

definition Append_op :: "PutAppendArgs \<Rightarrow> KvOp" where
  "Append_op args = \<lparr>ko_ClientId = pa_ClientID args, ko_CallId = pa_CallID args, GetValid = False,
     PutValid = False, AppendValid = True, ko_Key = pa_Key args, kop_Value = pa_Value args\<rparr>"

definition kv_Get ::
    "GetArgs \<Rightarrow> KVServer \<Rightarrow> (KvOp \<Rightarrow> int \<times> int \<times> bool) \<Rightarrow> int \<Rightarrow> KVServer \<Rightarrow> GetReply option" where
  "kv_Get args kv start term' kv' =
     map_option (\<lambda>(e, v). \<lparr>gr_Err = e, gr_Value = v\<rparr>)
       (kv_call (ga_ClientID args) (ga_CallID args) kv (start (Get_op args)) term' kv')"

definition kv_Put ::
    "PutAppendArgs \<Rightarrow> KVServer \<Rightarrow> (KvOp \<Rightarrow> int \<times> int \<times> bool) \<Rightarrow> int \<Rightarrow> KVServer \<Rightarrow> PutAppendReply option" where
  "kv_Put args kv start term' kv' =
     map_option (\<lambda>(e, v). \<lparr>pr_Err = e\<rparr>)
       (kv_call (pa_ClientID args) (pa_CallID args) kv (start (Put_op args)) term' kv')"

definition kv_Append ::
    "PutAppendArgs \<Rightarrow> KVServer \<Rightarrow> (KvOp \<Rightarrow> int \<times> int \<times> bool) \<Rightarrow> int \<Rightarrow> KVServer \<Rightarrow> PutAppendReply option" where
  "kv_Append args kv start term' kv' =
     map_option (\<lambda>(e, v). \<lparr>pr_Err = e\<rparr>)
       (kv_call (pa_ClientID args) (pa_CallID args) kv (start (Append_op args)) term' kv')"

section \<open>Client sessions\<close>

definition kv_last_call :: "KVServer \<Rightarrow> int \<Rightarrow> int option" where
  "kv_last_call kv k = map_option kl_CallId (LastOp kv k)"

abbreviation kv_exec :: "KvOp \<Rightarrow> KVServer \<Rightarrow> KVServer go" where
  "kv_exec op kv \<equiv> Inr (kv_apply op kv)"

lemma kv_last_call_do [simp]:
  "kv_last_call (kv_do op kv) = (kv_last_call kv)(ko_ClientId op \<mapsto> ko_CallId op)"
  by (auto simp: kv_last_call_def kv_do_def Let_def fun_eq_iff)

interpretation kv_session: session_machine kv_exec ko_ClientId ko_CallId kv_last_call
proof unfold_locales
  fix kv m and op :: KvOp
  assume "kv_last_call kv (ko_ClientId op) = Some m" "ko_CallId op \<le> m"
  then show "kv_exec op kv = Inr kv" by (auto simp: kv_last_call_def kv_apply_def kv_done_def)
next
  fix kv kv' and op :: KvOp
  assume "kv_exec op kv = Inr kv'"
  then show "kv' = kv \<or> kv_last_call kv' = (kv_last_call kv)(ko_ClientId op \<mapsto> ko_CallId op)"
    by (auto simp: kv_apply_def)
qed

text \<open>
  Delivering a log at consecutive indices, which is what the server gets from Raft. The panics of
  \<^verbatim>\<open>execOp\<close> on other indices are branches of \<open>kv_execOp\<close>; they are not reached here.
\<close>

definition kv_deliver :: "KvOp \<Rightarrow> KVServer \<Rightarrow> KVServer go" where
  "kv_deliver op kv = kv_execOp op (LastApplied kv + 1) kv"

lemma kv_apply_LastApplied [simp]:
  "kv_apply op (kv\<lparr>LastApplied := i\<rparr>) = (kv_apply op kv)\<lparr>LastApplied := i\<rparr>"
  "LastApplied (kv_apply op kv) = LastApplied kv"
  by (simp_all add: kv_apply_def kv_do_def kv_done_def kv_value_def Let_def)

lemma kv_deliver_eq: "kv_deliver op kv = Inr ((kv_apply op kv)\<lparr>LastApplied := LastApplied kv + 1\<rparr>)"
  by (simp add: kv_deliver_def kv_execOp_def)

lemma fold_kv_apply_LastApplied [simp]:
  "fold kv_apply ops (kv\<lparr>LastApplied := i\<rparr>) = (fold kv_apply ops kv)\<lparr>LastApplied := i\<rparr>"
  by (induction ops arbitrary: kv) simp_all

lemma kv_deliver_run:
  "go_run kv_deliver ops kv =
   Inr ((fold kv_apply ops kv)\<lparr>LastApplied := LastApplied kv + int (length ops)\<rparr>)"
  by (induction ops arbitrary: kv) (simp_all add: kv_deliver_eq algebra_simps)

lemma kv_exec_run: "go_run kv_exec ops kv = Inr (fold kv_apply ops kv)"
  by (induction ops arbitrary: kv) simp_all

text \<open>
  C10: exactly once. Delivering a log to a server never panics; its data is that of executing only
  the operations that took effect, and among these the calls of each client have strictly
  increasing call ids, so a call that clients or leaders put into the log several times changes
  the data once.
\<close>

theorem kv_exactly_once:
  "\<exists>kv'. go_run kv_deliver ops kv = Inr kv' \<and> LastApplied kv' = LastApplied kv + int (length ops) \<and>
     Data kv' = Data (fold kv_apply (effects kv_exec ops kv) kv) \<and>
     sorted_wrt (<) (map ko_CallId (filter (\<lambda>op. ko_ClientId op = k) (effects kv_exec ops kv)))"
proof -
  have "fold kv_apply (effects kv_exec ops kv) kv = fold kv_apply ops kv"
    using effects_run [OF kv_exec_run, of ops kv] by (simp add: kv_exec_run)
  with kv_session.effects_increasing show ?thesis by (simp add: kv_deliver_run)
qed

section \<open>Linearization in log order\<close>

text \<open>What a server remembers for a client is the result of one operation of the log, run on the
  state its predecessors in the log left.\<close>

definition kv_result :: "KvOp \<Rightarrow> KVServer \<Rightarrow> string" where
  "kv_result op kv = (if GetValid op then kv_value kv (ko_Key op) else '''')"

lemma kv_apply_LastOp:
  "LastOp (kv_apply op kv) =
     (if kv_done (ko_ClientId op) (ko_CallId op) kv then LastOp kv
      else (LastOp kv)(ko_ClientId op \<mapsto> \<lparr>kl_CallId = ko_CallId op, kl_Result = kv_result op kv\<rparr>))"
  by (simp add: kv_apply_def kv_do_def kv_result_def Let_def)

lemma kv_remembered:
  assumes "LastOp kv = Map.empty" "LastOp (fold kv_apply ops kv) c = Some v"
  shows "\<exists>xs op ys. ops = xs @ op # ys \<and> ko_ClientId op = c \<and> ko_CallId op = kl_CallId v \<and>
    kl_Result v = kv_result op (fold kv_apply xs kv)"
  using assms(2)
proof (induction ops rule: rev_induct)
  case Nil
  with assms(1) show ?case by simp
next
  case (snoc op ops)
  let ?kv = "fold kv_apply ops kv"
  show ?case
  proof (cases "\<not> kv_done (ko_ClientId op) (ko_CallId op) ?kv \<and> ko_ClientId op = c")
    case True
    with snoc.prems have "v = \<lparr>kl_CallId = ko_CallId op, kl_Result = kv_result op ?kv\<rparr>"
      by (auto simp: kv_apply_LastOp)
    with True show ?thesis by (intro exI [of _ ops] exI [of _ op] exI [of _ "[]"]) simp
  next
    case False
    with snoc.prems have "LastOp ?kv c = Some v" by (auto simp: kv_apply_LastOp split: if_splits)
    from snoc.IH [OF this] obtain xs op' ys where
      "ops = xs @ op' # ys" "ko_ClientId op' = c" "ko_CallId op' = kl_CallId v"
      "kl_Result v = kv_result op' (fold kv_apply xs kv)" by blast
    then show ?thesis by (intro exI [of _ xs] exI [of _ op'] exI [of _ "ys @ [op]"]) simp
  qed
qed

lemma kv_call_OK:
  assumes "kv_call client call kv start term' kv' = Some (OK, r)"
  shows "\<exists>v. (LastOp kv client = Some v \<or> LastOp kv' client = Some v) \<and> kl_CallId v = call \<and> kl_Result v = r"
  using assms
  by (auto simp: kv_call_def kv_old_def kv_finish_def split: option.splits prod.splits if_splits)

text \<open>
  What a Get answers. When a server that started empty and executed a log \<open>ops1\<close> when the
  handler was called, and \<open>ops2\<close> when it returned, answers OK, then one of the two logs contains an
  operation with the client id and call id of the request, and the answered value is the result of
  that operation on the state that its predecessors in the log produced.
\<close>

theorem kv_Get_linearized:
  assumes "LastOp kv0 = Map.empty"
    and "go_run kv_deliver ops1 kv0 = Inr kv1" "go_run kv_deliver ops2 kv0 = Inr kv2"
    and "kv_Get args kv1 start term' kv2 = Some reply" "gr_Err reply = OK"
  shows "\<exists>xs op ys. (ops1 = xs @ op # ys \<or> ops2 = xs @ op # ys) \<and>
    ko_ClientId op = ga_ClientID args \<and> ko_CallId op = ga_CallID args \<and>
    gr_Value reply = kv_result op (fold kv_apply xs kv0)"
proof -
  from assms(2,3) have kv: "LastOp kv1 = LastOp (fold kv_apply ops1 kv0)"
    "LastOp kv2 = LastOp (fold kv_apply ops2 kv0)" by (auto simp: kv_deliver_run)
  from assms(4,5) have "kv_call (ga_ClientID args) (ga_CallID args) kv1 (start (Get_op args)) term' kv2 =
      Some (OK, gr_Value reply)" by (auto simp: kv_Get_def)
  from kv_call_OK [OF this] obtain v where
    "LastOp kv1 (ga_ClientID args) = Some v \<or> LastOp kv2 (ga_ClientID args) = Some v"
    "kl_CallId v = ga_CallID args" "kl_Result v = gr_Value reply" by blast
  then show ?thesis
    using kv_remembered [OF assms(1), of ops1 "ga_ClientID args" v]
      kv_remembered [OF assms(1), of ops2 "ga_ClientID args" v] unfolding kv by metis
qed

abbreviation kv_empty :: KVServer where
  "kv_empty \<equiv> StartKVServer 0 MakePersister 1000"

theorem kv_Get_linearized_witness:
  "\<exists>xs op ys. ([Put_op \<lparr>pa_Key = ''k'', pa_Value = ''v'', pa_ClientID = 1, pa_CallID = 0\<rparr>] = xs @ op # ys \<or>
      [Put_op \<lparr>pa_Key = ''k'', pa_Value = ''v'', pa_ClientID = 1, pa_CallID = 0\<rparr>,
       Get_op \<lparr>ga_Key = ''k'', ga_ClientID = 1, ga_CallID = 1\<rparr>] = xs @ op # ys) \<and>
    ko_ClientId op = 1 \<and> ko_CallId op = 1 \<and> ''v'' = kv_result op (fold kv_apply xs kv_empty)"
proof -
  let ?p = "Put_op \<lparr>pa_Key = ''k'', pa_Value = ''v'', pa_ClientID = 1, pa_CallID = 0\<rparr>"
  let ?a = "\<lparr>ga_Key = ''k'', ga_ClientID = 1, ga_CallID = 1\<rparr>"
  have e: "LastOp kv_empty = Map.empty"
    by (simp add: StartKVServer_def MakePersister_def ReadSnapshot_def restoreState_def)
  have "kv_Get ?a (projr (go_run kv_deliver [?p] kv_empty)) (\<lambda>_. (2, 1, True)) 1
      (projr (go_run kv_deliver [?p, Get_op ?a] kv_empty)) = Some \<lparr>gr_Err = OK, gr_Value = ''v''\<rparr>"
    by code_simp
  from kv_Get_linearized [OF e _ _ this, of "[?p]" "[?p, Get_op ?a]"] show ?thesis
    by (simp only: kv_deliver_run sum.sel) simp
qed

section \<open>Refinement of the sequential model\<close>

definition op_valid :: "KvOp \<Rightarrow> bool" where
  "op_valid op \<longleftrightarrow>
     (GetValid op \<and> \<not> PutValid op \<and> \<not> AppendValid op) \<or>
     (\<not> GetValid op \<and> PutValid op \<and> \<not> AppendValid op) \<or>
     (\<not> GetValid op \<and> \<not> PutValid op \<and> AppendValid op)"

definition kv_input :: "KvOp \<Rightarrow> KvInput" where
  "kv_input op = \<lparr>ki_Op = (if GetValid op then 0 else if PutValid op then 1 else 2),
     ki_Key = ko_Key op, ki_Value = kop_Value op\<rparr>"

text \<open>The result that a server remembers for a client.\<close>

definition kv_recorded :: "int \<Rightarrow> KVServer \<Rightarrow> string" where
  "kv_recorded client kv = (case LastOp kv client of Some v \<Rightarrow> kl_Result v | None \<Rightarrow> '''')"

lemma kv_recorded_apply:
  "\<not> kv_done (ko_ClientId op) (ko_CallId op) kv \<Longrightarrow> kv_recorded (ko_ClientId op) (kv_apply op kv) = kv_result op kv"
  by (simp add: kv_recorded_def kv_apply_LastOp)

text \<open>
  The operations that take effect, in log order, each with the result that the server has recorded for
  its client after executing it.
\<close>

fun kv_history :: "KvOp list \<Rightarrow> KVServer \<Rightarrow> (KvInput \<times> KvOutput) list" where
  "kv_history [] kv = []"
| "kv_history (op # ops) kv =
     (if kv_done (ko_ClientId op) (ko_CallId op) kv then kv_history ops kv
      else (kv_input op, \<lparr>ko_Value = kv_recorded (ko_ClientId op) (kv_apply op kv)\<rparr>) # kv_history ops (kv_apply op kv))"

fun model_accepts :: "string \<Rightarrow> (KvInput \<times> KvOutput) list \<Rightarrow> bool" where
  "model_accepts st [] = True"
| "model_accepts st ((i, out) # h) =
     (case KvModel_Step st i out of (ok, st') \<Rightarrow> ok \<and> model_accepts st' h)"

text \<open>The state the sequential model ends in, when it accepts every step of a history.\<close>

fun model_run :: "string \<Rightarrow> (KvInput \<times> KvOutput) list \<Rightarrow> string option" where
  "model_run st [] = Some st"
| "model_run st ((i, out) # h) =
     (case KvModel_Step st i out of (ok, st') \<Rightarrow> if ok then model_run st' h else None)"

lemma kv_apply_model:
  assumes "\<not> kv_done (ko_ClientId op) (ko_CallId op) kv" "op_valid op"
  shows "KvModel_Step (kv_value kv (ko_Key op)) (kv_input op) \<lparr>ko_Value = kv_result op kv\<rparr> =
      (True, kv_value (kv_apply op kv) (ko_Key op))"
    and "k \<noteq> ko_Key op \<Longrightarrow> kv_value (kv_apply op kv) k = kv_value kv k"
  using assms
  by (auto simp: KvModel_Step_def kv_input_def kv_result_def kv_apply_def kv_do_def kv_value_def
      op_valid_def Let_def)

lemma kv_apply_done: "kv_done (ko_ClientId op) (ko_CallId op) kv \<Longrightarrow> kv_apply op kv = kv"
  by (simp add: kv_apply_def)

lemma kv_history_accepted:
  "\<forall>op \<in> set ops. op_valid op \<Longrightarrow>
   model_run (kv_value kv k) (filter (\<lambda>(i, out). ki_Key i = k) (kv_history ops kv)) = Some (kv_value (fold kv_apply ops kv) k)"
proof (induction ops arbitrary: kv)
  case (Cons op ops)
  show ?case
  proof (cases "kv_done (ko_ClientId op) (ko_CallId op) kv")
    case True
    with Cons show ?thesis by (simp add: kv_apply_done)
  next
    case False
    have key: "ki_Key (kv_input op) = ko_Key op" by (simp add: kv_input_def)
    from Cons.IH [of "kv_apply op kv"] Cons.prems kv_apply_model(1) [OF False]
      kv_apply_model(2) [OF False, of k]
    show ?thesis by (cases "ko_Key op = k") (auto simp: False key kv_recorded_apply [OF False])
  qed
qed simp

lemma kv_history_effects: "map fst (kv_history ops kv) = map kv_input (effects kv_exec ops kv)"
proof -
  have "kv_apply op kv = kv \<longleftrightarrow> kv_done (ko_ClientId op) (ko_CallId op) kv" for op kv
  proof
    assume "kv_apply op kv = kv"
    moreover have "LastOp (kv_apply op kv) (ko_ClientId op) = Some \<lparr>kl_CallId = ko_CallId op, kl_Result = kv_result op kv\<rparr>"
      if "\<not> kv_done (ko_ClientId op) (ko_CallId op) kv" using that by (simp add: kv_apply_LastOp)
    ultimately show "kv_done (ko_ClientId op) (ko_CallId op) kv" by (cases "kv_done (ko_ClientId op) (ko_CallId op) kv") (auto simp: kv_done_def)
  qed (rule kv_apply_done)
  then show ?thesis by (induction ops arbitrary: kv) (simp_all add: kv_apply_done)
qed

text \<open>
  C11: the history of every key that a log produces is legal. Deliver a log to an empty server, and
  take the operations that take effect, each with the result that the server records for its client.
  They are those that are not repetitions; keeping those on one key, the sequential model of
  \<^verbatim>\<open>models/kv.go\<close> accepts every step and ends with the value that the server has for the key.
\<close>

theorem kv_log_legal:
  assumes "\<forall>op \<in> set ops. op_valid op" "Data kv = Map.empty" "go_run kv_deliver ops kv = Inr kv'"
  shows "map fst (kv_history ops kv) = map kv_input (effects kv_exec ops kv) \<and>
    model_run KvModel_Init (filter (\<lambda>(i, out). ki_Key i = k) (kv_history ops kv)) = Some (kv_value kv' k)"
proof -
  have "kv_value kv' k = kv_value (fold kv_apply ops kv) k" using assms(3) by (auto simp: kv_deliver_run kv_value_def)
  with kv_history_accepted [OF assms(1), of kv k] kv_history_effects assms(2) show ?thesis
    by (simp add: kv_value_def KvModel_Init_def)
qed

theorem kv_log_legal_witness:
  "let ops = [Append_op \<lparr>pa_Key = ''k'', pa_Value = ''v'', pa_ClientID = 1, pa_CallID = 0\<rparr>,
      Append_op \<lparr>pa_Key = ''k'', pa_Value = ''v'', pa_ClientID = 1, pa_CallID = 0\<rparr>,
      Get_op \<lparr>ga_Key = ''k'', ga_ClientID = 1, ga_CallID = 1\<rparr>]
   in map (ko_Value \<circ> snd) (kv_history ops kv_empty) = ['''', ''v''] \<and>
     model_run KvModel_Init (filter (\<lambda>(i, out). ki_Key i = ''k'') (kv_history ops kv_empty)) = Some ''v''"
proof -
  let ?ops = "[Append_op \<lparr>pa_Key = ''k'', pa_Value = ''v'', pa_ClientID = 1, pa_CallID = 0\<rparr>,
      Append_op \<lparr>pa_Key = ''k'', pa_Value = ''v'', pa_ClientID = 1, pa_CallID = 0\<rparr>,
      Get_op \<lparr>ga_Key = ''k'', ga_ClientID = 1, ga_CallID = 1\<rparr>]"
  have "\<forall>op \<in> set ?ops. op_valid op" "Data kv_empty = Map.empty"
    by (simp_all add: op_valid_def Append_op_def Get_op_def StartKVServer_def MakePersister_def ReadSnapshot_def restoreState_def)
  moreover have "go_run kv_deliver ?ops kv_empty = Inr (projr (go_run kv_deliver ?ops kv_empty))"
    by (simp only: kv_deliver_run sum.sel)
  ultimately have "model_run KvModel_Init (filter (\<lambda>(i, out). ki_Key i = ''k'') (kv_history ?ops kv_empty)) =
      Some (kv_value (projr (go_run kv_deliver ?ops kv_empty)) ''k'')"
    using kv_log_legal by blast
  moreover have "kv_value (projr (go_run kv_deliver ?ops kv_empty)) ''k'' = ''v''" by code_simp
  moreover have "map (ko_Value \<circ> snd) (kv_history ?ops kv_empty) = ['''', ''v'']" by code_simp
  ultimately show ?thesis by (simp only: Let_def)
qed

section \<open>Snapshots and restarts\<close>

definition kv_view :: "KVServer \<Rightarrow> (string \<rightharpoonup> string) \<times> (int \<rightharpoonup> KvLastOperation) \<times> int" where
  "kv_view kv = (Data kv, LastOp kv, LastApplied kv)"

lemma decode_kv_snapshot [simp]:
  "decode_snapshot (kv_snapshot kv) = (LastApplied kv, Data kv, LastOp kv, True)"
  by (simp add: kv_snapshot_def decode_snapshot_def decode_data_def decode_lastOp_def Encode_def)

lemma kv_apply_view:
  "kv_view s = kv_view t \<Longrightarrow> kv_view (kv_apply op s) = kv_view (kv_apply op t)"
  by (simp add: kv_view_def kv_apply_def kv_do_def kv_done_def kv_value_def Let_def)

interpretation kv_snapshots: snapshot_machine kv_deliver kv_snapshot restoreState
  "\<lambda>_ _. True" "\<lambda>s t. kv_view s = kv_view t"
proof unfold_locales
  fix s s0
  show "kv_view (restoreState (kv_snapshot s) s0) = kv_view s"
    by (simp add: restoreState_def kv_view_def) (simp add: kv_snapshot_def Encode_def)
next
  fix s t t' op
  assume "kv_view s = kv_view t" "kv_deliver op t = Inr t'"
  with kv_apply_view [of s t op]
  show "\<exists>s'. kv_deliver op s = Inr s' \<and> kv_view s' = kv_view t'"
    by (auto simp: kv_deliver_eq kv_view_def)
qed

text \<open>
  C22: crash and restart. A server that starts from the snapshot taken after the first part of a log
  and then executes the rest has the same data, the same session table and the same applied index
  as a server that executed the whole log.
\<close>

theorem kv_restart:
  assumes "go_run kv_deliver xs kv = Inr kv1" "go_run kv_deliver (xs @ ys) kv = Inr kv2"
    and "ps_snapshot ps = kv_snapshot kv1"
  shows "\<exists>kv'. go_run kv_deliver ys (StartKVServer self ps maxstate) = Inr kv' \<and> kv_view kv' = kv_view kv2"
  using kv_snapshots.restore_run [OF assms(1,2) TrueI] assms(3)
  by (simp add: StartKVServer_def ReadSnapshot_def)

theorem kv_restart_witness:
  "\<exists>kv'. go_run kv_deliver [Get_op \<lparr>ga_Key = ''k'', ga_ClientID = 1, ga_CallID = 1\<rparr>]
      (StartKVServer 2 \<lparr>raftstate = [], ps_snapshot = kv_snapshot
        (projr (go_run kv_deliver [Put_op \<lparr>pa_Key = ''k'', pa_Value = ''v'', pa_ClientID = 1, pa_CallID = 0\<rparr>] kv_empty))\<rparr> 5)
    = Inr kv' \<and> kv_view kv' = kv_view (projr (go_run kv_deliver
      [Put_op \<lparr>pa_Key = ''k'', pa_Value = ''v'', pa_ClientID = 1, pa_CallID = 0\<rparr>,
       Get_op \<lparr>ga_Key = ''k'', ga_ClientID = 1, ga_CallID = 1\<rparr>] kv_empty))"
  by (rule kv_restart [where xs = "[Put_op \<lparr>pa_Key = ''k'', pa_Value = ''v'', pa_ClientID = 1, pa_CallID = 0\<rparr>]"
        and kv = kv_empty]) (simp_all add: kv_deliver_eq)

text \<open>
  The snapshots the service takes meet what Raft relies on. On a peer that satisfies the Raft
  invariant, a round of the snapshot loop does not panic and keeps the invariant: the data handed
  over starts with the index it covers.
\<close>

theorem makeSnapshot_safe:
  assumes "raft_inv n s rf" "0 \<le> LastApplied kv"
  shows "\<exists>rf'. makeSnapshot bytes kv rf = Inr rf' \<and> raft_inv n s rf' \<and> vote_step rf rf'"
proof -
  have "snap_ok (LastApplied kv) (kv_snapshot kv)"
    using assms(2) by (simp add: snap_ok_def kv_snapshot_def Encode_def)
  from Snapshot_inv [OF assms(1) this] obtain rf' where
    "Snapshot (LastApplied kv) (kv_snapshot kv) rf = Inr rf'" "raft_inv n s rf'" "vote_step rf rf'"
    using quiet_vote_step by blast
  moreover have "vote_step rf rf" by (simp add: quiet_vote_step)
  ultimately show ?thesis using assms(1) by (simp add: makeSnapshot_def)
qed

theorem makeSnapshot_safe_witness:
  "\<exists>rf rf'. Make 3 1 MakePersister = Inr rf \<and> makeSnapshot (\<lambda>_. 9) (kv_empty\<lparr>LastApplied := 4\<rparr>) rf = Inr rf' \<and>
     raft_inv 3 1 rf'"
proof -
  have "\<exists>rf :: (KvOp, kvval) raft. Make 3 1 MakePersister = Inr rf \<and> raft_inv 3 1 rf"
    using Make_inv [OF storage_ok_fresh, of 1 3] by auto
  then obtain rf :: "(KvOp, kvval) raft" where rf: "Make 3 1 MakePersister = Inr rf" "raft_inv 3 1 rf" by blast
  from makeSnapshot_safe [OF rf(2), of "kv_empty\<lparr>LastApplied := 4\<rparr>" "\<lambda>_. 9"] rf(1) show ?thesis by auto
qed

end
