(* ===== verification/ShardKv.thy ===== *)
theory ShardKv
  imports ShardCtrler RaftServer
begin

text \<open>
  A server of a replica group of the sharded key/value service (\<^verbatim>\<open>src/shardkv/server.go\<close>,
  \<^verbatim>\<open>common.go\<close>, \<^verbatim>\<open>key2shard\<close> of \<^verbatim>\<open>client.go\<close>). The group's log holds client operations, new
  configurations, shard data fetched from other groups and garbage collection orders;
  \<open>execCommand\<close> runs one of them, under the mutex. The RPC handlers and the background loops
  (\<^verbatim>\<open>queryConfig\<close>, \<^verbatim>\<open>tryReqShardData\<close>, \<^verbatim>\<open>tryGC\<close>) look at the state and say what is put into the log
  or sent to other groups.

  A Go map whose emptiness or keys the code asks for is an association list (\<open>ShardDataReqs\<close>, the
  inner map of \<open>DataForMigration\<close>) or a set of keys (\<open>MyShards\<close>, the inner map of \<open>GCList\<close>); other
  maps are partial functions. The channels of \<^verbatim>\<open>notifyChan\<close> carry what \<open>execCommand\<close> returns to the
  handler that waits for its index.
\<close>

section \<open>State and messages\<close>

datatype SkvOpType = SGet | SPut | SAppend | ErrChangeGroup

record SkvOp =
  so_OpType :: SkvOpType
  so_ClientId :: int
  so_CallId :: int
  so_Key :: string
  so_Value :: string

record SkvLastOperation =
  sl_CallId :: int
  sl_Result :: string

record MigrateShardArgs =
  mg_ConfigNum :: int
  mg_Shard :: int

record MigrateShardReply =
  mr_ConfigNum :: int
  mr_Shard :: int
  mr_ErrWrongLeader :: bool
  mr_Data :: "string \<rightharpoonup> string"
  mr_LastOperation :: "int \<rightharpoonup> SkvLastOperation"

record GCOp =
  gc_CfgNum :: int
  gc_Shard :: int

datatype SkvCommand =
    CConfig Config
  | CMigrate MigrateShardReply
  | CGC GCOp
  | COp SkvOp

record ShardKV =
  gid :: gid
  skv_dead :: bool
  skv_maxraftstate :: int
  SData :: "string \<rightharpoonup> string"
  SLastOp :: "int \<rightharpoonup> SkvLastOperation"
  SLastApplied :: int
  SConfig :: Config
  MyShards :: "int set"
  DataForMigration :: "int \<rightharpoonup> (int \<times> (string \<rightharpoonup> string)) list"
  ShardDataReqs :: "(int \<times> int) list"
  GCList :: "int \<rightharpoonup> int set"

datatype SkvErr = SNoErr | SOK | SErrNoKey | SErrWrongGroup | SErrWrongLeader

definition key2shard :: "string \<Rightarrow> int" where
  "key2shard key = (if key = [] then 0 else int (of_char (hd key))) mod int NShards"

definition checkRightGroup :: "string \<Rightarrow> ShardKV \<Rightarrow> bool" where
  "checkRightGroup key kv \<longleftrightarrow> key2shard key \<in> MyShards kv"

definition equalOp :: "SkvCommand \<Rightarrow> SkvCommand \<Rightarrow> bool" where
  "equalOp a b \<longleftrightarrow>
     (case (a, b) of
        (COp op1, COp op2) \<Rightarrow> so_OpType op1 = so_OpType op2 \<and> so_ClientId op1 = so_ClientId op2 \<and>
                              so_CallId op2 = so_CallId op2
      | (CConfig cfg1, CConfig cfg2) \<Rightarrow> Num cfg1 = Num cfg2
      | (CMigrate m1, CMigrate m2) \<Rightarrow> mr_ConfigNum m1 = mr_ConfigNum m2 \<and> mr_Shard m1 = mr_Shard m2
      | (CGC g1, CGC g2) \<Rightarrow> gc_CfgNum g1 = gc_CfgNum g2 \<and> gc_Shard g1 = gc_Shard g2
      | _ \<Rightarrow> False)"

section \<open>Executing a command of the log\<close>

text \<open>The first loop of \<^verbatim>\<open>execApplyConfig\<close>: what changes for shard \<open>i\<close>.\<close>

definition apply_shard ::
    "gid \<Rightarrow> Config \<Rightarrow> Config \<Rightarrow> nat \<Rightarrow> (int \<times> int) list \<times> int set \<times> int list \<Rightarrow>
      (int \<times> int) list \<times> int set \<times> int list" where
  "apply_shard g oldConfig newConfig i = (\<lambda>(reqs, my, lost).
     let gid1 = Shards oldConfig ! i; gid2 = Shards newConfig ! i
     in if gid1 \<noteq> gid2 \<and> (gid1 = g \<or> gid2 = g) then
          (if gid1 = g then (reqs, my, lost @ [int i])
           else if Num oldConfig \<noteq> 0 then (AList.update (int i) (Num oldConfig) reqs, my, lost)
           else (reqs, insert (int i) my, lost))
        else (reqs, my, lost))"

text \<open>The second loop: hand over the data of one lost shard.\<close>

definition lose_shard :: "int \<Rightarrow> int \<Rightarrow> ShardKV \<Rightarrow> ShardKV" where
  "lose_shard oldNum shard kv =
     (let data = (\<lambda>k. if key2shard k = shard then SData kv k else None);
          rest = (\<lambda>k. if key2shard k = shard then None else SData kv k);
          inner = (case DataForMigration kv oldNum of None \<Rightarrow> [] | Some m \<Rightarrow> m)
      in kv\<lparr>MyShards := MyShards kv - {shard}, SData := rest,
            DataForMigration := (DataForMigration kv)(oldNum \<mapsto> AList.update shard data inner)\<rparr>)"

definition execApplyConfig :: "Config \<Rightarrow> ShardKV \<Rightarrow> ShardKV" where
  "execApplyConfig newConfig kv =
     (if Num newConfig \<le> Num (SConfig kv) then kv
      else
        let oldConfig = SConfig kv;
            (reqs, my, lost) = fold (apply_shard (gid kv) oldConfig newConfig) [0..<NShards]
                                 (ShardDataReqs kv, MyShards kv, []);
            kv1 = fold (lose_shard (Num oldConfig)) lost (kv\<lparr>ShardDataReqs := reqs, MyShards := my\<rparr>)
        in kv1\<lparr>SConfig := newConfig\<rparr>)"

definition merge_lastOp ::
    "(int \<rightharpoonup> SkvLastOperation) \<Rightarrow> (int \<rightharpoonup> SkvLastOperation) \<Rightarrow> (int \<rightharpoonup> SkvLastOperation)" where
  "merge_lastOp own new = (\<lambda>k. case new k of None \<Rightarrow> own k
     | Some v \<Rightarrow> (case own k of None \<Rightarrow> Some v
        | Some lop \<Rightarrow> if sl_CallId lop \<le> sl_CallId v then Some v else Some lop))"

definition execMigrationDataSync :: "MigrateShardReply \<Rightarrow> ShardKV \<Rightarrow> ShardKV" where
  "execMigrationDataSync m kv =
     (if mr_ConfigNum m \<noteq> Num (SConfig kv) - 1 then kv
      else
        let kv1 = (if mr_Shard m \<in> MyShards kv then kv
                   else kv\<lparr>MyShards := insert (mr_Shard m) (MyShards kv), SData := SData kv ++ mr_Data m,
                           SLastOp := merge_lastOp (SLastOp kv) (mr_LastOperation m)\<rparr>)
        in if mr_Shard m \<in> set (map fst (ShardDataReqs kv1))
           then kv1\<lparr>ShardDataReqs := AList.delete (mr_Shard m) (ShardDataReqs kv1),
                    GCList := (GCList kv1)(mr_ConfigNum m \<mapsto>
                      insert (mr_Shard m) (case GCList kv1 (mr_ConfigNum m) of None \<Rightarrow> {} | Some s \<Rightarrow> s))\<rparr>
           else kv1)"

definition execGC :: "GCOp \<Rightarrow> ShardKV \<Rightarrow> ShardKV" where
  "execGC g kv =
     (case DataForMigration kv (gc_CfgNum g) of None \<Rightarrow> kv
      | Some m \<Rightarrow>
          if gc_Shard g \<notin> set (map fst m) then kv
          else let m' = AList.delete (gc_Shard g) m
               in kv\<lparr>DataForMigration := (if m' = [] then (DataForMigration kv)(gc_CfgNum g := None)
                                          else (DataForMigration kv)(gc_CfgNum g \<mapsto> m'))\<rparr>)"

definition skv_value :: "ShardKV \<Rightarrow> string \<Rightarrow> string" where
  "skv_value kv key = (case SData kv key of Some v \<Rightarrow> v | None \<Rightarrow> '''')"

text \<open>
  A client operation: the operation the waiting handler is told about and the new state. A call
  that was executed, or whose key is not served here, changes nothing.
\<close>

definition execClientOp :: "SkvOp \<Rightarrow> ShardKV \<Rightarrow> SkvOp \<times> ShardKV" where
  "execClientOp op kv =
     (if (case SLastOp kv (so_ClientId op) of Some v \<Rightarrow> sl_CallId v \<ge> so_CallId op | None \<Rightarrow> False)
      then (op, kv)
      else if \<not> checkRightGroup (so_Key op) kv then (op\<lparr>so_OpType := ErrChangeGroup\<rparr>, kv)
      else
        let result = (if so_OpType op = SGet then skv_value kv (so_Key op) else '''');
            data = (case so_OpType op of
                      SPut \<Rightarrow> (SData kv)(so_Key op \<mapsto> so_Value op)
                    | SAppend \<Rightarrow> (SData kv)(so_Key op \<mapsto> skv_value kv (so_Key op) @ so_Value op)
                    | _ \<Rightarrow> SData kv)
        in (op, kv\<lparr>SData := data,
                   SLastOp := (SLastOp kv)(so_ClientId op \<mapsto> \<lparr>sl_CallId = so_CallId op, sl_Result = result\<rparr>)\<rparr>))"

fun run_command :: "SkvCommand \<Rightarrow> ShardKV \<Rightarrow> SkvCommand \<times> ShardKV" where
  "run_command (CConfig c) kv = (CConfig c, execApplyConfig c kv)"
| "run_command (CMigrate m) kv = (CMigrate m, execMigrationDataSync m kv)"
| "run_command (CGC g) kv = (CGC g, execGC g kv)"
| "run_command (COp op) kv = map_prod COp id (execClientOp op kv)"

definition execCommand :: "SkvCommand \<Rightarrow> int \<Rightarrow> ShardKV \<Rightarrow> (SkvCommand \<times> ShardKV) go" where
  "execCommand command index kv =
     (if SLastApplied kv + 1 \<noteq> index then Inl (ExplicitPanic ''kv.lastApplied + 1 != index'')
      else Inr (run_command command (kv\<lparr>SLastApplied := SLastApplied kv + 1\<rparr>)))"

section \<open>RPC handlers\<close>

record SGetArgs =
  sga_Key :: string
  sga_Identifier :: Identifier

record SPutAppendArgs =
  spa_Key :: string
  spa_Value :: string
  spa_Op :: string
  spa_Identifier :: Identifier

text \<open>
  What a handler answers once it has received \<open>currOp\<close> from the channel of its index, in state \<open>kv\<close>;
  the recorded result is part of the answer of a Get only.
\<close>

definition skv_answer :: "SkvOp \<Rightarrow> SkvCommand \<Rightarrow> ShardKV \<Rightarrow> SkvErr \<times> string" where
  "skv_answer op currOp kv =
     (if \<not> equalOp (COp op) currOp then
        (case currOp of
           COp c \<Rightarrow> if so_OpType c = ErrChangeGroup then (SErrWrongGroup, '''') else (SErrWrongLeader, '''')
         | _ \<Rightarrow> (SErrWrongLeader, ''''))
      else case SLastOp kv (so_ClientId op) of
        None \<Rightarrow> (SErrWrongLeader, '''')
      | Some v \<Rightarrow> if sl_CallId v \<noteq> so_CallId op then (SErrWrongLeader, '''') else (SOK, sl_Result v))"

text \<open>
  A handler from its call in state \<open>kv\<close> to its return in state \<open>kv'\<close>: \<open>start\<close> is \<^verbatim>\<open>rf.Start\<close>,
  \<open>recv index\<close> what the channel of the index delivers.
\<close>

definition skv_serve ::
    "SkvOp \<Rightarrow> ShardKV \<Rightarrow> (SkvCommand \<Rightarrow> int \<times> int \<times> bool) \<Rightarrow> (int \<Rightarrow> SkvCommand) \<Rightarrow> ShardKV \<Rightarrow>
      SkvErr \<times> string" where
  "skv_serve op kv start recv kv' =
     (if \<not> checkRightGroup (so_Key op) kv then (SErrWrongGroup, '''')
      else case start (COp op) of (index, _, isLeader) \<Rightarrow>
        if \<not> isLeader then (SErrWrongLeader, '''') else skv_answer op (recv index) kv')"

definition skv_Get ::
    "SGetArgs \<Rightarrow> ShardKV \<Rightarrow> (SkvCommand \<Rightarrow> int \<times> int \<times> bool) \<Rightarrow> (int \<Rightarrow> SkvCommand) \<Rightarrow> ShardKV \<Rightarrow>
      SkvErr \<times> string" where
  "skv_Get args = skv_serve
     \<lparr>so_OpType = SGet, so_ClientId = ClientId (sga_Identifier args), so_CallId = CallId (sga_Identifier args),
      so_Key = sga_Key args, so_Value = ''''\<rparr>"

definition skv_PutAppend ::
    "SPutAppendArgs \<Rightarrow> ShardKV \<Rightarrow> (SkvCommand \<Rightarrow> int \<times> int \<times> bool) \<Rightarrow> (int \<Rightarrow> SkvCommand) \<Rightarrow> ShardKV \<Rightarrow>
      SkvErr" where
  "skv_PutAppend args kv start recv kv' =
     (if spa_Op args \<noteq> ''Put'' \<and> spa_Op args \<noteq> ''Append'' then SNoErr
      else fst (skv_serve
        \<lparr>so_OpType = (if spa_Op args = ''Put'' then SPut else SAppend),
         so_ClientId = ClientId (spa_Identifier args), so_CallId = CallId (spa_Identifier args),
         so_Key = spa_Key args, so_Value = spa_Value args\<rparr> kv start recv kv'))"

definition noMigration :: MigrateShardReply where
  "noMigration = \<lparr>mr_ConfigNum = 0, mr_Shard = 0, mr_ErrWrongLeader = True, mr_Data = Map.empty,
     mr_LastOperation = Map.empty\<rparr>"

definition cloneDataAndLastOperation ::
    "(string \<rightharpoonup> string) \<Rightarrow> ShardKV \<Rightarrow> (string \<rightharpoonup> string) \<times> (int \<rightharpoonup> SkvLastOperation)" where
  "cloneDataAndLastOperation data kv = (Map.empty ++ data, Map.empty ++ SLastOp kv)"

definition MigrateShard :: "bool \<Rightarrow> MigrateShardArgs \<Rightarrow> ShardKV \<Rightarrow> MigrateShardReply" where
  "MigrateShard isLeader args kv =
     (if \<not> isLeader then noMigration
      else if mg_ConfigNum args > Num (SConfig kv) then noMigration
      else case DataForMigration kv (mg_ConfigNum args) of None \<Rightarrow> noMigration
      | Some m \<Rightarrow> (case map_of m (mg_Shard args) of None \<Rightarrow> noMigration
        | Some data \<Rightarrow>
            (case cloneDataAndLastOperation data kv of (d, l) \<Rightarrow>
               \<lparr>mr_ConfigNum = mg_ConfigNum args, mr_Shard = mg_Shard args, mr_ErrWrongLeader = False,
                mr_Data = d, mr_LastOperation = l\<rparr>)))"

text \<open>\<^verbatim>\<open>GC\<close> returns whether the reply has \<^verbatim>\<open>ErrWrongLeader\<close>.\<close>

definition GC :: "GCOp \<Rightarrow> (SkvCommand \<Rightarrow> int \<times> int \<times> bool) \<Rightarrow> (int \<Rightarrow> SkvCommand) \<Rightarrow> bool" where
  "GC args start recv =
     (case start (CGC args) of (index, _, isLeader) \<Rightarrow>
        \<not> isLeader \<or> \<not> equalOp (recv index) (CGC args))"

section \<open>Background loops\<close>

text \<open>One round of each loop; \<open>query\<close> is the controller clerk's \<^verbatim>\<open>Query\<close>.\<close>

definition queryConfig :: "bool \<Rightarrow> (int \<Rightarrow> Config) \<Rightarrow> ShardKV \<Rightarrow> SkvCommand list" where
  "queryConfig isLeader query kv =
     (if isLeader \<and> ShardDataReqs kv = [] then
        let config = query (Num (SConfig kv) + 1)
        in if Num config = Num (SConfig kv) + 1 then [CConfig config] else []
      else [])"

text \<open>The servers of the group that owned a shard in a configuration.\<close>

definition owner_servers :: "Config \<Rightarrow> int \<Rightarrow> string list" where
  "owner_servers config shard =
     (case map_of (Groups config) (Shards config ! nat shard) of None \<Rightarrow> [] | Some servers \<Rightarrow> servers)"

text \<open>Ask the servers in turn; \<open>call\<close> is \<^verbatim>\<open>makeCall\<close>, None when the call fails.\<close>

fun first_reply :: "(string \<Rightarrow> 'r option) \<Rightarrow> ('r \<Rightarrow> bool) \<Rightarrow> string list \<Rightarrow> 'r option" where
  "first_reply call ok [] = None"
| "first_reply call ok (s # ss) =
     (case call s of None \<Rightarrow> first_reply call ok ss
      | Some r \<Rightarrow> if ok r then Some r else first_reply call ok ss)"

definition request_shard ::
    "(int \<Rightarrow> Config) \<Rightarrow> (string \<Rightarrow> MigrateShardArgs \<Rightarrow> MigrateShardReply option) \<Rightarrow> int \<times> int \<Rightarrow> SkvCommand list" where
  "request_shard query call = (\<lambda>(shard, cfgNum).
     let config = query cfgNum; args = \<lparr>mg_ConfigNum = Num config, mg_Shard = shard\<rparr>
     in case first_reply (\<lambda>s. call s args) (\<lambda>r. \<not> mr_ErrWrongLeader r) (owner_servers config shard) of
          None \<Rightarrow> [] | Some reply \<Rightarrow> [CMigrate reply])"

definition tryReqShardData ::
    "bool \<Rightarrow> (int \<Rightarrow> Config) \<Rightarrow> (string \<Rightarrow> MigrateShardArgs \<Rightarrow> MigrateShardReply option) \<Rightarrow> ShardKV \<Rightarrow>
      SkvCommand list" where
  "tryReqShardData isLeader query call kv =
     (if isLeader then concat (map (request_shard query call) (ShardDataReqs kv)) else [])"

definition collect_shard ::
    "(int \<Rightarrow> Config) \<Rightarrow> (string \<Rightarrow> GCOp \<Rightarrow> bool option) \<Rightarrow> int \<times> int \<Rightarrow> ShardKV \<Rightarrow> ShardKV" where
  "collect_shard query call = (\<lambda>(cfgNum, shard) kv.
     let config = query cfgNum; args = \<lparr>gc_CfgNum = Num config, gc_Shard = shard\<rparr>
     in case first_reply (\<lambda>s. call s args) (\<lambda>wrong. \<not> wrong) (owner_servers config shard) of
          None \<Rightarrow> kv
        | Some _ \<Rightarrow>
            (let rest = (case GCList kv (Num config) of None \<Rightarrow> {} | Some s \<Rightarrow> s) - {shard}
             in kv\<lparr>GCList := (if rest = {} then (GCList kv)(Num config := None)
                              else (GCList kv)(Num config \<mapsto> rest))\<rparr>))"

text \<open>\<open>work\<close> lists the entries of \<open>GCList\<close> in the order the runtime visits them.\<close>

definition tryGC ::
    "bool \<Rightarrow> (int \<Rightarrow> Config) \<Rightarrow> (string \<Rightarrow> GCOp \<Rightarrow> bool option) \<Rightarrow> (int \<times> int) list \<Rightarrow> ShardKV \<Rightarrow> ShardKV" where
  "tryGC isLeader query call work kv = (if isLeader then fold (collect_shard query call) work kv else kv)"

section \<open>Snapshots and start\<close>

datatype skvval =
    SvData "string \<rightharpoonup> string" | SvLastOp "int \<rightharpoonup> SkvLastOperation" | SvConfig Config | SvMyShards "int set"
  | SvMigration "int \<rightharpoonup> (int \<times> (string \<rightharpoonup> string)) list" | SvReqs "(int \<times> int) list"
  | SvGCList "int \<rightharpoonup> int set"

definition skv_snapshot :: "ShardKV \<Rightarrow> skvval gob" where
  "skv_snapshot kv =
     fold (\<lambda>v w. Encode w v)
       [GInt (SLastApplied kv), GVal (SvData (SData kv)), GVal (SvLastOp (SLastOp kv)),
        GVal (SvConfig (SConfig kv)), GVal (SvMyShards (MyShards kv)),
        GVal (SvMigration (DataForMigration kv)), GVal (SvReqs (ShardDataReqs kv)),
        GVal (SvGCList (GCList kv))] []"

definition skv_makeSnapshot ::
    "(SkvCommand LogEntry list gobval \<Rightarrow> nat) \<Rightarrow> ShardKV \<Rightarrow> (SkvCommand, skvval) raft \<Rightarrow>
      (SkvCommand, skvval) raft go" where
  "skv_makeSnapshot bytes kv rf =
     (if skv_dead kv \<or> skv_maxraftstate kv = -1 then Inr rf
      else if int (RaftStateSize bytes (persister rf)) \<ge> skv_maxraftstate kv
      then Snapshot (SLastApplied kv) (skv_snapshot kv) rf
      else Inr rf)"

text \<open>Decoding the eight values in order into a server; None when one of them does not decode.\<close>

fun svData :: "skvval \<Rightarrow> (string \<rightharpoonup> string) option" where
  "svData (SvData d) = Some d" | "svData _ = None"

fun svLastOp :: "skvval \<Rightarrow> (int \<rightharpoonup> SkvLastOperation) option" where
  "svLastOp (SvLastOp l) = Some l" | "svLastOp _ = None"

fun svConfig :: "skvval \<Rightarrow> Config option" where
  "svConfig (SvConfig c) = Some c" | "svConfig _ = None"

fun svMyShards :: "skvval \<Rightarrow> int set option" where
  "svMyShards (SvMyShards m) = Some m" | "svMyShards _ = None"

fun svMigration :: "skvval \<Rightarrow> (int \<rightharpoonup> (int \<times> (string \<rightharpoonup> string)) list) option" where
  "svMigration (SvMigration g) = Some g" | "svMigration _ = None"

fun svReqs :: "skvval \<Rightarrow> (int \<times> int) list option" where
  "svReqs (SvReqs r) = Some r" | "svReqs _ = None"

fun svGCList :: "skvval \<Rightarrow> (int \<rightharpoonup> int set) option" where
  "svGCList (SvGCList x) = Some x" | "svGCList _ = None"

definition decode_as :: "('x \<Rightarrow> 'v option) \<Rightarrow> 'x gob \<Rightarrow> ('v \<times> 'x gob) option" where
  "decode_as f g = Option.bind (DecodeVal g) (\<lambda>(x, r). map_option (\<lambda>v. (v, r)) (f x))"

definition decode_into :: "skvval gob \<Rightarrow> ShardKV \<Rightarrow> ShardKV option" where
  "decode_into g0 kv =
     Option.bind (DecodeInt g0) (\<lambda>(i, g1).
     Option.bind (decode_as svData g1) (\<lambda>(d, g2).
     Option.bind (decode_as svLastOp g2) (\<lambda>(l, g3).
     Option.bind (decode_as svConfig g3) (\<lambda>(c, g4).
     Option.bind (decode_as svMyShards g4) (\<lambda>(m, g5).
     Option.bind (decode_as svMigration g5) (\<lambda>(mig, g6).
     Option.bind (decode_as svReqs g6) (\<lambda>(r, g7).
     Option.bind (decode_as svGCList g7) (\<lambda>(x, _).
       Some (kv\<lparr>SLastApplied := i, SData := d, SLastOp := l, SConfig := c, MyShards := m,
                DataForMigration := mig, ShardDataReqs := r, GCList := x\<rparr>)))))))))"

definition skv_applySnapshot :: "int \<Rightarrow> skvval gob \<Rightarrow> ShardKV \<Rightarrow> ShardKV go" where
  "skv_applySnapshot snapshotIndex snap kv =
     (case decode_into snap kv of None \<Rightarrow> Inl (Fatal ''applySnapshot() error!'')
      | Some kv' \<Rightarrow>
          if SLastApplied kv' \<noteq> snapshotIndex
          then Inl (ExplicitPanic ''applySnapshot():index != snapshotIndex'')
          else if snapshotIndex < SLastApplied kv then Inr kv
          else Inr kv')"

definition skv_restoreState :: "skvval gob \<Rightarrow> ShardKV \<Rightarrow> ShardKV" where
  "skv_restoreState snap kv =
     (if snap = [] then kv else case decode_into snap kv of None \<Rightarrow> kv | Some kv' \<Rightarrow> kv')"

definition skv_applier :: "(SkvCommand, skvval) ApplyMsg \<Rightarrow> ShardKV \<Rightarrow> ShardKV go" where
  "skv_applier m kv =
     (if CommandValid m then
        (case am_Command m of None \<Rightarrow> Inl (ExplicitPanic ''interface conversion'')
         | Some c \<Rightarrow> go_bind (execCommand c (CommandIndex m) kv) (\<lambda>(_, kv'). Inr kv'))
      else if SnapshotValid m then skv_applySnapshot (SnapshotIndex m) (am_Snapshot m) kv
      else Inr kv)"

definition skv_fresh :: "gid \<Rightarrow> int \<Rightarrow> ShardKV" where
  "skv_fresh g maxstate =
     \<lparr>gid = g, skv_dead = False, skv_maxraftstate = maxstate, SData = Map.empty, SLastOp = Map.empty,
      SLastApplied = 0, SConfig = zeroConfig, MyShards = {}, DataForMigration = Map.empty,
      ShardDataReqs = [], GCList = Map.empty\<rparr>"

definition skv_StartServer :: "gid \<Rightarrow> (SkvCommand LogEntry list, skvval) Persister \<Rightarrow> int \<Rightarrow> ShardKV" where
  "skv_StartServer g ps maxstate = skv_restoreState (ReadSnapshot ps) (skv_fresh g maxstate)"

definition skv_Kill :: "ShardKV \<Rightarrow> ShardKV" where
  "skv_Kill kv = kv\<lparr>skv_dead := True\<rparr>"

end
