(* ===== verification/ShardKvProps.thy ===== *)
theory ShardKvProps
  imports ShardKv KvRaft
begin

text \<open>
  What one command does to a server of the sharded service: closed forms of the loops of
  \<open>execApplyConfig\<close>, of installing migrated data and of a client operation, the session and snapshot
  interfaces on the server, and what its handlers answer. The theory of the whole system builds on
  these facts.
\<close>

named_theorems skv_fields \<open>fields a command leaves alone\<close>

section \<open>Configuration changes\<close>

text \<open>The group that owns a shard in a configuration, and the shards there are.\<close>

definition owner :: "Config \<Rightarrow> int \<Rightarrow> gid" where
  "owner c s = Shards c ! nat s"

abbreviation all_shards :: "int set" where
  "all_shards \<equiv> {0..<int NShards}"

definition gained :: "gid \<Rightarrow> Config \<Rightarrow> Config \<Rightarrow> int set" where
  "gained g old new = {s \<in> all_shards. owner old s \<noteq> g \<and> owner new s = g}"

definition lost :: "gid \<Rightarrow> Config \<Rightarrow> Config \<Rightarrow> int set" where
  "lost g old new = {s \<in> all_shards. owner old s = g \<and> owner new s \<noteq> g}"

text \<open>The part of a store that belongs to one shard.\<close>

definition shard_part :: "int \<Rightarrow> (string \<rightharpoonup> string) \<Rightarrow> (string \<rightharpoonup> string)" where
  "shard_part s d = (\<lambda>k. if key2shard k = s then d k else None)"

text \<open>The data a server keeps for the group that gained a shard after configuration \<open>n\<close>.\<close>

definition migration :: "ShardKV \<Rightarrow> int \<Rightarrow> int \<Rightarrow> (string \<rightharpoonup> string) option" where
  "migration kv n s = Option.bind (DataForMigration kv n) (\<lambda>m. map_of m s)"

lemma key2shard_range: "key2shard k \<in> all_shards"
  by (simp add: key2shard_def NShards_def)

definition gained_below :: "gid \<Rightarrow> Config \<Rightarrow> Config \<Rightarrow> nat \<Rightarrow> int set" where
  "gained_below g old new n = int ` {i. i < n \<and> Shards old ! i \<noteq> g \<and> Shards new ! i = g}"

lemma gained_below_Suc:
  "gained_below g old new (Suc n) =
     (if Shards old ! n \<noteq> g \<and> Shards new ! n = g then insert (int n) (gained_below g old new n)
      else gained_below g old new n)"
  by (auto simp: gained_below_def less_Suc_eq)

lemma gained_below_all: "gained_below g old new NShards = gained g old new"
proof (rule set_eqI)
  fix s
  show "s \<in> gained_below g old new NShards \<longleftrightarrow> s \<in> gained g old new"
    by (cases s rule: int_cases) (auto simp: gained_below_def gained_def owner_def)
qed

lemma apply_shards:
  "\<exists>reqs'. fold (apply_shard g old new) [0..<n] (reqs, my, []) =
     (reqs', my \<union> (if Num old = 0 then gained_below g old new n else {}),
      map int (filter (\<lambda>i. Shards old ! i = g \<and> Shards new ! i \<noteq> g) [0..<n])) \<and>
   map_of reqs' = (\<lambda>s. if Num old \<noteq> 0 \<and> s \<in> gained_below g old new n then Some (Num old) else map_of reqs s)"
proof (induction n)
  case 0
  show ?case by (simp add: gained_below_def)
next
  case (Suc n)
  then obtain reqs' where IH:
    "fold (apply_shard g old new) [0..<n] (reqs, my, []) =
     (reqs', my \<union> (if Num old = 0 then gained_below g old new n else {}),
      map int (filter (\<lambda>i. Shards old ! i = g \<and> Shards new ! i \<noteq> g) [0..<n]))"
    "map_of reqs' = (\<lambda>s. if Num old \<noteq> 0 \<and> s \<in> gained_below g old new n then Some (Num old) else map_of reqs s)"
    by blast
  have fold: "fold f [0..<Suc n] z = f n (fold f [0..<n] z)" for f :: "nat \<Rightarrow> _ \<Rightarrow> _" and z by simp
  show ?case
    unfolding fold IH(1) gained_below_Suc
    by (cases "Shards old ! n = g"; cases "Shards new ! n = g"; cases "Num old = 0")
      (simp_all add: apply_shard_def IH(2) update_conv' fun_eq_iff)
qed

lemma lose_shard_fields [simp, skv_fields]:
  "gid (lose_shard n s kv) = gid kv" "skv_dead (lose_shard n s kv) = skv_dead kv"
  "SLastOp (lose_shard n s kv) = SLastOp kv" "SLastApplied (lose_shard n s kv) = SLastApplied kv"
  "SConfig (lose_shard n s kv) = SConfig kv" "ShardDataReqs (lose_shard n s kv) = ShardDataReqs kv"
  "GCList (lose_shard n s kv) = GCList kv" "MyShards (lose_shard n s kv) = MyShards kv - {s}"
  "skv_maxraftstate (lose_shard n s kv) = skv_maxraftstate kv"
  by (simp_all add: lose_shard_def Let_def)

lemma lose_shard_data:
  "SData (lose_shard n s kv) = (\<lambda>k. if key2shard k = s then None else SData kv k)"
  "migration (lose_shard n s kv) = (migration kv)(n := (migration kv n)(s \<mapsto> shard_part s (SData kv)))"
  by (auto simp: lose_shard_def Let_def migration_def shard_part_def fun_eq_iff update_conv' split: option.splits)

lemma lose_shards:
  assumes "distinct l"
  shows "MyShards (fold (lose_shard n) l kv) = MyShards kv - set l"
    and "SData (fold (lose_shard n) l kv) = (\<lambda>k. if key2shard k \<in> set l then None else SData kv k)"
    and "migration (fold (lose_shard n) l kv) =
      (migration kv)(n := \<lambda>s. if s \<in> set l then Some (shard_part s (SData kv)) else migration kv n s)"
    and "gid (fold (lose_shard n) l kv) = gid kv" "SLastOp (fold (lose_shard n) l kv) = SLastOp kv"
      "SLastApplied (fold (lose_shard n) l kv) = SLastApplied kv" "ShardDataReqs (fold (lose_shard n) l kv) = ShardDataReqs kv"
      "GCList (fold (lose_shard n) l kv) = GCList kv" "skv_dead (fold (lose_shard n) l kv) = skv_dead kv"
      "skv_maxraftstate (fold (lose_shard n) l kv) = skv_maxraftstate kv"
  using assms
  by (induction l arbitrary: kv)
    (auto simp: lose_shard_data shard_part_def fun_eq_iff)

lemma lost_list: "set (map int (filter (\<lambda>i. Shards old ! i = g \<and> Shards new ! i \<noteq> g) [0..<NShards])) = lost g old new"
proof (rule set_eqI)
  fix s
  show "s \<in> set (map int (filter (\<lambda>i. Shards old ! i = g \<and> Shards new ! i \<noteq> g) [0..<NShards])) \<longleftrightarrow> s \<in> lost g old new"
    by (cases s rule: int_cases) (auto simp: lost_def owner_def)
qed

text \<open>Executing a new configuration, field by field.\<close>

lemma execApplyConfig_run:
  assumes "Num (SConfig kv) < Num c"
  defines "old \<equiv> SConfig kv" and "kv' \<equiv> execApplyConfig c kv"
  shows "SConfig kv' = c" "gid kv' = gid kv" "SLastOp kv' = SLastOp kv" "SLastApplied kv' = SLastApplied kv"
    "GCList kv' = GCList kv" "skv_dead kv' = skv_dead kv" "skv_maxraftstate kv' = skv_maxraftstate kv"
    and "MyShards kv' = (MyShards kv \<union> (if Num old = 0 then gained (gid kv) old c else {})) - lost (gid kv) old c"
    and "map_of (ShardDataReqs kv') =
      (\<lambda>s. if Num old \<noteq> 0 \<and> s \<in> gained (gid kv) old c then Some (Num old) else map_of (ShardDataReqs kv) s)"
    and "SData kv' = (\<lambda>k. if key2shard k \<in> lost (gid kv) old c then None else SData kv k)"
    and "migration kv' = (migration kv)(Num old :=
      \<lambda>s. if s \<in> lost (gid kv) old c then Some (shard_part s (SData kv)) else migration kv (Num old) s)"
proof -
  define l where "l = map int (filter (\<lambda>i. Shards old ! i = gid kv \<and> Shards c ! i \<noteq> gid kv) [0..<NShards])"
  from apply_shards [of "gid kv" old c NShards "ShardDataReqs kv" "MyShards kv"] obtain reqs where
    f: "fold (apply_shard (gid kv) old c) [0..<NShards] (ShardDataReqs kv, MyShards kv, []) =
      (reqs, MyShards kv \<union> (if Num old = 0 then gained (gid kv) old c else {}), l)" and
    r: "map_of reqs = (\<lambda>s. if Num old \<noteq> 0 \<and> s \<in> gained (gid kv) old c then Some (Num old) else map_of (ShardDataReqs kv) s)"
    unfolding l_def gained_below_all by blast
  define kv1 where "kv1 = kv\<lparr>ShardDataReqs := reqs, MyShards := MyShards kv \<union> (if Num old = 0 then gained (gid kv) old c else {})\<rparr>"
  have run: "kv' = (fold (lose_shard (Num old)) l kv1)\<lparr>SConfig := c\<rparr>"
    unfolding kv'_def execApplyConfig_def Let_def using assms(1) f by (simp add: old_def [symmetric] kv1_def)
  have "distinct l" by (simp add: l_def distinct_map)
  note fs = lose_shards [OF this]
  have l: "set l = lost (gid kv) old c" unfolding l_def by (rule lost_list)
  have mig: "migration (x\<lparr>SConfig := c\<rparr>) = migration x" "migration kv1 = migration kv" for x
    by (simp_all add: migration_def fun_eq_iff kv1_def)
  show "SConfig kv' = c" "gid kv' = gid kv" "SLastOp kv' = SLastOp kv" "SLastApplied kv' = SLastApplied kv"
    "GCList kv' = GCList kv" "skv_dead kv' = skv_dead kv" "skv_maxraftstate kv' = skv_maxraftstate kv"
    by (simp_all add: run fs kv1_def)
  show "MyShards kv' = (MyShards kv \<union> (if Num old = 0 then gained (gid kv) old c else {})) - lost (gid kv) old c"
    by (simp add: run fs l kv1_def)
  show "map_of (ShardDataReqs kv') =
      (\<lambda>s. if Num old \<noteq> 0 \<and> s \<in> gained (gid kv) old c then Some (Num old) else map_of (ShardDataReqs kv) s)"
    by (simp add: run fs r kv1_def)
  show "SData kv' = (\<lambda>k. if key2shard k \<in> lost (gid kv) old c then None else SData kv k)"
    by (auto simp: run fs l kv1_def fun_eq_iff)
  show "migration kv' = (migration kv)(Num old :=
      \<lambda>s. if s \<in> lost (gid kv) old c then Some (shard_part s (SData kv)) else migration kv (Num old) s)"
    by (auto simp: run mig fs l fun_eq_iff) (auto simp: kv1_def)
qed

lemma apply_shards_distinct:
  "distinct (map fst reqs) \<Longrightarrow> distinct (map fst (fst (fold (apply_shard g old new) is (reqs, my, l))))"
proof (induction "is" arbitrary: reqs my l)
  case (Cons i "is")
  have "distinct (map fst (fst (apply_shard g old new i (reqs, my, l))))"
    using Cons.prems by (simp add: apply_shard_def Let_def distinct_update)
  with Cons.IH show ?case by (cases "apply_shard g old new i (reqs, my, l)") simp
qed simp

lemma execApplyConfig_distinct:
  assumes "distinct (map fst (ShardDataReqs kv))"
  shows "distinct (map fst (ShardDataReqs (execApplyConfig c kv)))"
proof -
  obtain reqs my l where f: "fold (apply_shard (gid kv) (SConfig kv) c) [0..<NShards]
    (ShardDataReqs kv, MyShards kv, []) = (reqs, my, l)" by (metis prod_cases3)
  have reqs: "ShardDataReqs (fold (lose_shard n) l x) = ShardDataReqs x" for n x
    by (induction l arbitrary: x) simp_all
  from apply_shards_distinct [OF assms, of "gid kv" "SConfig kv" c "[0..<NShards]" "MyShards kv" "[]"] f assms
  show ?thesis by (simp add: execApplyConfig_def Let_def reqs)
qed

lemma execApplyConfig_stale: "Num c \<le> Num (SConfig kv) \<Longrightarrow> execApplyConfig c kv = kv"
  by (simp add: execApplyConfig_def)

section \<open>Migrated data, garbage collection, client operations\<close>

lemma execMigrationDataSync_stale: "mr_ConfigNum m \<noteq> Num (SConfig kv) - 1 \<Longrightarrow> execMigrationDataSync m kv = kv"
  by (simp add: execMigrationDataSync_def)

lemma execMigrationDataSync_run:
  assumes "mr_ConfigNum m = Num (SConfig kv) - 1"
  defines "kv' \<equiv> execMigrationDataSync m kv"
  shows "SConfig kv' = SConfig kv" "gid kv' = gid kv" "SLastApplied kv' = SLastApplied kv"
    "DataForMigration kv' = DataForMigration kv" "migration kv' = migration kv"
    "skv_dead kv' = skv_dead kv" "skv_maxraftstate kv' = skv_maxraftstate kv"
    and "MyShards kv' = insert (mr_Shard m) (MyShards kv)"
    and "map_of (ShardDataReqs kv') = (map_of (ShardDataReqs kv))(mr_Shard m := None)"
    and "SData kv' = (if mr_Shard m \<in> MyShards kv then SData kv else SData kv ++ mr_Data m)"
    and "SLastOp kv' = (if mr_Shard m \<in> MyShards kv then SLastOp kv
      else merge_lastOp (SLastOp kv) (mr_LastOperation m))"
    and "GCList kv' = (if map_of (ShardDataReqs kv) (mr_Shard m) = None then GCList kv
      else (GCList kv)(mr_ConfigNum m \<mapsto>
        insert (mr_Shard m) (case GCList kv (mr_ConfigNum m) of None \<Rightarrow> {} | Some s \<Rightarrow> s)))"
proof -
  have none: "mr_Shard m \<notin> fst ` set (ShardDataReqs kv) \<longleftrightarrow> map_of (ShardDataReqs kv) (mr_Shard m) = None"
    by (simp add: map_of_eq_None_iff)
  show "SConfig kv' = SConfig kv" "gid kv' = gid kv" "SLastApplied kv' = SLastApplied kv"
    "DataForMigration kv' = DataForMigration kv" "migration kv' = migration kv"
    "skv_dead kv' = skv_dead kv" "skv_maxraftstate kv' = skv_maxraftstate kv"
    by (simp_all add: kv'_def execMigrationDataSync_def Let_def assms(1) migration_def fun_eq_iff)
  show "MyShards kv' = insert (mr_Shard m) (MyShards kv)"
    by (auto simp: kv'_def execMigrationDataSync_def Let_def assms(1))
  show "map_of (ShardDataReqs kv') = (map_of (ShardDataReqs kv))(mr_Shard m := None)"
    by (simp add: kv'_def execMigrationDataSync_def Let_def assms(1) delete_conv' none [symmetric])
      (simp add: none fun_upd_idem)
  show "SData kv' = (if mr_Shard m \<in> MyShards kv then SData kv else SData kv ++ mr_Data m)"
    "SLastOp kv' = (if mr_Shard m \<in> MyShards kv then SLastOp kv
      else merge_lastOp (SLastOp kv) (mr_LastOperation m))"
    "GCList kv' = (if map_of (ShardDataReqs kv) (mr_Shard m) = None then GCList kv
      else (GCList kv)(mr_ConfigNum m \<mapsto>
        insert (mr_Shard m) (case GCList kv (mr_ConfigNum m) of None \<Rightarrow> {} | Some s \<Rightarrow> s)))"
    by (simp_all add: kv'_def execMigrationDataSync_def Let_def assms(1) none [symmetric])
qed

lemma execGC_run:
  "SConfig (execGC g kv) = SConfig kv" "gid (execGC g kv) = gid kv" "SLastApplied (execGC g kv) = SLastApplied kv"
  "MyShards (execGC g kv) = MyShards kv" "ShardDataReqs (execGC g kv) = ShardDataReqs kv"
  "SData (execGC g kv) = SData kv" "SLastOp (execGC g kv) = SLastOp kv" "GCList (execGC g kv) = GCList kv"
  "migration (execGC g kv) = (migration kv)(gc_CfgNum g := (migration kv (gc_CfgNum g))(gc_Shard g := None))"
proof -
  show "SConfig (execGC g kv) = SConfig kv" "gid (execGC g kv) = gid kv" "SLastApplied (execGC g kv) = SLastApplied kv"
    "MyShards (execGC g kv) = MyShards kv" "ShardDataReqs (execGC g kv) = ShardDataReqs kv"
    "SData (execGC g kv) = SData kv" "SLastOp (execGC g kv) = SLastOp kv" "GCList (execGC g kv) = GCList kv"
    by (simp_all add: execGC_def Let_def split: option.splits)
  show "migration (execGC g kv) = (migration kv)(gc_CfgNum g := (migration kv (gc_CfgNum g))(gc_Shard g := None))"
  proof (cases "DataForMigration kv (gc_CfgNum g)")
    case None
    then show ?thesis by (auto simp: execGC_def migration_def fun_eq_iff)
  next
    case (Some m)
    have "map_of m s = map_of (AList.delete (gc_Shard g) m) s" if "s \<noteq> gc_Shard g" for s
      using that by (simp add: delete_conv')
    then have "map_of m s = None" if "AList.delete (gc_Shard g) m = []" "s \<noteq> gc_Shard g" for s
      using that by simp
    then have del: "Option.bind (if AList.delete (gc_Shard g) m = [] then None else Some (AList.delete (gc_Shard g) m)) (\<lambda>m. map_of m s) =
        ((map_of m)(gc_Shard g := None)) s" for s
      by (cases "s = gc_Shard g") (simp_all add: delete_conv')
    show ?thesis
    proof (cases "gc_Shard g \<in> set (map fst m)")
      case True
      with Some have eq: "DataForMigration (execGC g kv) = (DataForMigration kv)(gc_CfgNum g :=
          if AList.delete (gc_Shard g) m = [] then None else Some (AList.delete (gc_Shard g) m))"
        by (simp add: execGC_def Let_def)
      show ?thesis
        by (rule ext, rule ext) (simp add: migration_def eq del Some del: if_split)
    next
      case False
      then have "map_of m (gc_Shard g) = None" by (simp add: map_of_eq_None_iff)
      moreover from False Some have "execGC g kv = kv" by (simp add: execGC_def)
      ultimately show ?thesis using Some by (simp add: migration_def fun_eq_iff)
    qed
  qed
qed

definition skv_dup :: "SkvOp \<Rightarrow> ShardKV \<Rightarrow> bool" where
  "skv_dup op kv \<longleftrightarrow> (case SLastOp kv (so_ClientId op) of Some v \<Rightarrow> sl_CallId v \<ge> so_CallId op | None \<Rightarrow> False)"

text \<open>A client operation takes effect when it is new and its key is served here.\<close>

definition effective :: "SkvOp \<Rightarrow> ShardKV \<Rightarrow> bool" where
  "effective op kv \<longleftrightarrow> \<not> skv_dup op kv \<and> checkRightGroup (so_Key op) kv"

definition skv_result :: "SkvOp \<Rightarrow> ShardKV \<Rightarrow> string" where
  "skv_result op kv = (if so_OpType op = SGet then skv_value kv (so_Key op) else '''')"

text \<open>What an operation stores, as a function of the old contents.\<close>

definition store_op :: "SkvOp \<Rightarrow> (string \<rightharpoonup> string) \<Rightarrow> (string \<rightharpoonup> string)" where
  "store_op op d = (case so_OpType op of
     SPut \<Rightarrow> d(so_Key op \<mapsto> so_Value op)
   | SAppend \<Rightarrow> d(so_Key op \<mapsto> (case d (so_Key op) of Some v \<Rightarrow> v | None \<Rightarrow> '''') @ so_Value op)
   | _ \<Rightarrow> d)"

lemma execClientOp_ineffective: "\<not> effective op kv \<Longrightarrow> snd (execClientOp op kv) = kv"
  by (auto simp: effective_def skv_dup_def execClientOp_def)

lemma execClientOp_run:
  assumes "effective op kv"
  shows "execClientOp op kv = (op, kv\<lparr>SData := store_op op (SData kv),
     SLastOp := (SLastOp kv)(so_ClientId op \<mapsto> \<lparr>sl_CallId = so_CallId op, sl_Result = skv_result op kv\<rparr>)\<rparr>)"
  using assms
  by (auto simp: effective_def skv_dup_def execClientOp_def Let_def store_op_def skv_result_def skv_value_def
      split: SkvOpType.splits)

section \<open>Client sessions\<close>

text \<open>The sessions of one table are at most as far as those of another.\<close>

definition lops_le :: "(int \<rightharpoonup> SkvLastOperation) \<Rightarrow> (int \<rightharpoonup> SkvLastOperation) \<Rightarrow> bool" where
  "lops_le l l' \<longleftrightarrow> (\<forall>c v. l c = Some v \<longrightarrow> (\<exists>v'. l' c = Some v' \<and> sl_CallId v \<le> sl_CallId v'))"

lemma lops_le_refl [simp]: "lops_le l l"
  by (auto simp: lops_le_def)

lemma lops_le_trans: "lops_le l1 l2 \<Longrightarrow> lops_le l2 l3 \<Longrightarrow> lops_le l1 l3"
  unfolding lops_le_def by (meson order_trans)

lemma lops_le_merge: "lops_le l (merge_lastOp l l')" "lops_le l' (merge_lastOp l l')"
  by (auto simp: lops_le_def merge_lastOp_def split: option.splits)

lemma execApplyConfig_SLastOp [simp]: "SLastOp (execApplyConfig c kv) = SLastOp kv"
  using execApplyConfig_run(3) execApplyConfig_stale by (cases "Num (SConfig kv) < Num c") auto

lemma execMigrationDataSync_lops: "lops_le (SLastOp kv) (SLastOp (execMigrationDataSync m kv))"
  using execMigrationDataSync_run(11) [of m kv] lops_le_merge(1) execMigrationDataSync_stale [of m kv]
  by (cases "mr_ConfigNum m = Num (SConfig kv) - 1") auto

lemma execClientOp_lops: "lops_le (SLastOp kv) (SLastOp (snd (execClientOp op kv)))"
proof (cases "effective op kv")
  case True
  then have "sl_CallId v \<le> so_CallId op" if "SLastOp kv (so_ClientId op) = Some v" for v
    using that by (auto simp: effective_def skv_dup_def)
  then show ?thesis by (auto simp: execClientOp_run [OF True] lops_le_def)
qed (simp add: execClientOp_ineffective)

lemma run_command_lops: "lops_le (SLastOp kv) (SLastOp (snd (run_command c kv)))"
  by (cases c) (simp_all add: execMigrationDataSync_lops execClientOp_lops execGC_run)

definition skv_last_call :: "ShardKV \<Rightarrow> int \<Rightarrow> int option" where
  "skv_last_call kv k = map_option sl_CallId (SLastOp kv k)"

abbreviation skv_exec :: "SkvOp \<Rightarrow> ShardKV \<Rightarrow> ShardKV go" where
  "skv_exec op kv \<equiv> Inr (snd (execClientOp op kv))"

interpretation skv_session: session_machine skv_exec so_ClientId so_CallId skv_last_call
proof unfold_locales
  fix kv m and op :: SkvOp
  assume "skv_last_call kv (so_ClientId op) = Some m" "so_CallId op \<le> m"
  then have "\<not> effective op kv" by (auto simp: skv_last_call_def effective_def skv_dup_def)
  then show "skv_exec op kv = Inr kv" by (simp add: execClientOp_ineffective)
next
  fix kv kv' and op :: SkvOp
  assume "skv_exec op kv = Inr kv'"
  then show "kv' = kv \<or> skv_last_call kv' = (skv_last_call kv)(so_ClientId op \<mapsto> so_CallId op)"
    by (cases "effective op kv")
      (auto simp: execClientOp_run execClientOp_ineffective skv_last_call_def fun_eq_iff)
qed

section \<open>Snapshots and restarts\<close>

text \<open>Delivering a log at consecutive indices.\<close>

definition skv_deliver :: "SkvCommand \<Rightarrow> ShardKV \<Rightarrow> ShardKV go" where
  "skv_deliver c kv = go_bind (execCommand c (SLastApplied kv + 1) kv) (\<lambda>(_, kv'). Inr kv')"

lemma skv_deliver_eq:
  "skv_deliver c kv = Inr (snd (run_command c (kv\<lparr>SLastApplied := SLastApplied kv + 1\<rparr>)))"
  by (simp add: skv_deliver_def execCommand_def split: prod.splits)

text \<open>What a replica of the group has in common with the others: all but its life and its settings.\<close>

definition skv_view :: "ShardKV \<Rightarrow> ShardKV" where
  "skv_view kv = kv\<lparr>skv_dead := False, skv_maxraftstate := 0\<rparr>"

lemma lose_shard_view: "lose_shard n s (skv_view kv) = skv_view (lose_shard n s kv)"
  by (simp add: skv_view_def lose_shard_def Let_def cong: if_cong)

lemma fold_lose_shard_view:
  "fold (lose_shard n) l (skv_view kv) = skv_view (fold (lose_shard n) l kv)"
  by (induction l arbitrary: kv) (simp_all add: lose_shard_view)

lemma execApplyConfig_view: "execApplyConfig c (skv_view kv) = skv_view (execApplyConfig c kv)"
proof (cases "Num c \<le> Num (SConfig kv)")
  case True
  then show ?thesis by (simp add: execApplyConfig_def skv_view_def)
next
  case False
  obtain reqs my l where f: "fold (apply_shard (gid kv) (SConfig kv) c) [0..<NShards]
    (ShardDataReqs kv, MyShards kv, []) = (reqs, my, l)" by (metis prod_cases3)
  have "(skv_view kv)\<lparr>ShardDataReqs := reqs, MyShards := my\<rparr> = skv_view (kv\<lparr>ShardDataReqs := reqs, MyShards := my\<rparr>)"
    by (simp add: skv_view_def)
  then have "fold (lose_shard n) l ((skv_view kv)\<lparr>ShardDataReqs := reqs, MyShards := my\<rparr>) =
      skv_view (fold (lose_shard n) l (kv\<lparr>ShardDataReqs := reqs, MyShards := my\<rparr>))" for n
    by (simp only: fold_lose_shard_view)
  moreover have "(skv_view x)\<lparr>SConfig := c\<rparr> = skv_view (x\<lparr>SConfig := c\<rparr>)" for x by (simp add: skv_view_def)
  moreover have "gid (skv_view kv) = gid kv" "SConfig (skv_view kv) = SConfig kv"
    "ShardDataReqs (skv_view kv) = ShardDataReqs kv" "MyShards (skv_view kv) = MyShards kv"
    by (simp_all add: skv_view_def)
  ultimately show ?thesis using False f by (simp add: execApplyConfig_def Let_def)
qed

lemma run_command_view: "snd (run_command c (skv_view kv)) = skv_view (snd (run_command c kv))"
proof (cases c)
  case (CMigrate m)
  then show ?thesis by (simp add: skv_view_def execMigrationDataSync_def Let_def)
next
  case (CGC g)
  then show ?thesis by (simp add: skv_view_def execGC_def Let_def split: option.splits)
next
  case (COp op)
  have "effective op (skv_view kv) = effective op kv" "skv_result op (skv_view kv) = skv_result op kv"
    by (simp_all add: skv_view_def effective_def skv_dup_def checkRightGroup_def skv_result_def skv_value_def)
  with COp show ?thesis
    by (cases "effective op kv")
      (simp_all add: execClientOp_run execClientOp_ineffective, simp add: skv_view_def)
qed (simp add: execApplyConfig_view)

lemma skv_deliver_view:
  assumes "skv_view s = skv_view t"
  shows "skv_view (snd (run_command c (s\<lparr>SLastApplied := SLastApplied s + 1\<rparr>))) =
    skv_view (snd (run_command c (t\<lparr>SLastApplied := SLastApplied t + 1\<rparr>)))"
proof -
  have "skv_view (x\<lparr>SLastApplied := i\<rparr>) = (skv_view x)\<lparr>SLastApplied := i\<rparr>"
    "SLastApplied (skv_view x) = SLastApplied x" for x i by (simp_all add: skv_view_def)
  with assms have "skv_view (s\<lparr>SLastApplied := SLastApplied s + 1\<rparr>) = skv_view (t\<lparr>SLastApplied := SLastApplied t + 1\<rparr>)"
    by metis
  then show ?thesis by (metis run_command_view)
qed

lemma decode_skv_snapshot:
  "decode_into (skv_snapshot kv) kv0 =
     Some (kv\<lparr>gid := gid kv0, skv_dead := skv_dead kv0, skv_maxraftstate := skv_maxraftstate kv0\<rparr>)"
  by (simp add: decode_into_def skv_snapshot_def Encode_def decode_as_def)

lemma skv_snapshot_nonempty: "skv_snapshot kv \<noteq> []"
  by (simp add: skv_snapshot_def Encode_def)

interpretation skv_snapshots: snapshot_machine skv_deliver skv_snapshot skv_restoreState
  "\<lambda>s t. gid s = gid t" "\<lambda>s t. skv_view s = skv_view t"
proof unfold_locales
  fix s0 s :: ShardKV
  assume "gid s0 = gid s"
  then show "skv_view (skv_restoreState (skv_snapshot s) s0) = skv_view s"
    by (simp add: skv_restoreState_def skv_snapshot_nonempty decode_skv_snapshot skv_view_def)
next
  fix s t t' and c :: SkvCommand
  assume "skv_view s = skv_view t" "skv_deliver c t = Inr t'"
  then show "\<exists>s'. skv_deliver c s = Inr s' \<and> skv_view s' = skv_view t'"
    by (auto simp: skv_deliver_eq skv_deliver_view)
qed

lemma run_command_gid [simp]: "gid (snd (run_command c kv)) = gid kv"
proof (cases c)
  case (CConfig x)
  then show ?thesis using execApplyConfig_run(2) execApplyConfig_stale by (cases "Num (SConfig kv) < Num x") auto
next
  case (CMigrate m)
  then show ?thesis by (simp add: execMigrationDataSync_def Let_def)
next
  case (COp op)
  then show ?thesis
    by (cases "effective op kv") (simp_all add: execClientOp_run execClientOp_ineffective)
qed (simp add: execGC_run)

lemma skv_run_gid: "go_run skv_deliver cs kv = Inr kv' \<Longrightarrow> gid kv' = gid kv"
  by (induction cs arbitrary: kv) (auto simp: skv_deliver_eq)

text \<open>
  C21: crash and restart of a server of a group. A server of the group that starts from the snapshot
  taken after the first part of the log and executes the rest agrees with a server that executed the
  whole log, on client data, sessions, configuration, served shards, pending requests, kept
  migration data and collection list.
\<close>

theorem skv_restart:
  assumes "go_run skv_deliver xs kv = Inr kv1" "go_run skv_deliver (xs @ ys) kv = Inr kv2"
    and "ps_snapshot ps = skv_snapshot kv1"
  shows "\<exists>kv'. go_run skv_deliver ys (skv_StartServer (gid kv) ps maxstate) = Inr kv' \<and> skv_view kv' = skv_view kv2"
proof -
  have "gid (skv_fresh (gid kv) maxstate) = gid kv1"
    using skv_run_gid [OF assms(1)] by (simp add: skv_fresh_def)
  from skv_snapshots.restore_run [OF assms(1,2) this] assms(3) show ?thesis
    by (simp add: skv_StartServer_def ReadSnapshot_def)
qed

theorem skv_restart_witness:
  "\<exists>kv'. go_run skv_deliver [COp \<lparr>so_OpType = SPut, so_ClientId = 1, so_CallId = 0, so_Key = ''k'', so_Value = ''v''\<rparr>]
      (skv_StartServer 7 \<lparr>raftstate = [], ps_snapshot = skv_snapshot
        (projr (go_run skv_deliver [CConfig \<lparr>Num = 1, Shards = replicate 10 7, Groups = [(7, [])]\<rparr>] (skv_fresh 7 3)))\<rparr> 5)
    = Inr kv' \<and> skv_view kv' = skv_view (projr (go_run skv_deliver
      [CConfig \<lparr>Num = 1, Shards = replicate 10 7, Groups = [(7, [])]\<rparr>,
       COp \<lparr>so_OpType = SPut, so_ClientId = 1, so_CallId = 0, so_Key = ''k'', so_Value = ''v''\<rparr>] (skv_fresh 7 3)))"
  using skv_restart [where xs = "[CConfig \<lparr>Num = 1, Shards = replicate 10 7, Groups = [(7, [])]\<rparr>]"
      and kv = "skv_fresh 7 3"
      and ys = "[COp \<lparr>so_OpType = SPut, so_ClientId = 1, so_CallId = 0, so_Key = ''k'', so_Value = ''v''\<rparr>]"
      and maxstate = 5 and ps = "\<lparr>raftstate = [], ps_snapshot = skv_snapshot
        (projr (go_run skv_deliver [CConfig \<lparr>Num = 1, Shards = replicate 10 7, Groups = [(7, [])]\<rparr>] (skv_fresh 7 3)))\<rparr>"]
  by (simp add: skv_deliver_eq) (simp add: skv_fresh_def)

text \<open>
  The snapshots a server of a group takes meet what Raft relies on: a round of the snapshot loop
  does not panic and keeps the invariant of the Raft peer.
\<close>

lemma skv_makeSnapshot_safe:
  assumes "raft_inv n s rf" "0 \<le> SLastApplied kv"
  shows "\<exists>rf'. skv_makeSnapshot bytes kv rf = Inr rf' \<and> raft_inv n s rf' \<and> vote_step rf rf'"
proof -
  have "snap_ok (SLastApplied kv) (skv_snapshot kv)"
    using assms(2) by (simp add: snap_ok_def skv_snapshot_def Encode_def)
  from Snapshot_inv [OF assms(1) this] obtain rf' where
    "Snapshot (SLastApplied kv) (skv_snapshot kv) rf = Inr rf'" "raft_inv n s rf'" "vote_step rf rf'"
    using quiet_vote_step by blast
  moreover have "vote_step rf rf" by (simp add: quiet_vote_step)
  ultimately show ?thesis using assms(1) by (simp add: skv_makeSnapshot_def)
qed

end
