(* ===== verification/ShardKvSystem.thy ===== *)
theory ShardKvSystem
  imports ShardKvProps
begin

text \<open>
  The sharded service as a whole: the controller, the replica groups and what passes between them.
  A group is the sequence of the states after each prefix of its committed log; a server of the
  group is at one of these states (a leader that lags behind, too), and what its handlers and
  background loops hand to \<^verbatim>\<open>rf.Start\<close> may be committed at any later time, any number of times.
  Replies of \<^verbatim>\<open>MigrateShard\<close> may come from any server of the asked group. The theory also holds the
  invariant of a single server relative to the history of configurations.
\<close>

section \<open>The system\<close>

text \<open>What \<^verbatim>\<open>Query\<close> returns while the controller is in state \<open>sc\<close>.\<close>

definition ctrl_query :: "ShardCtrler \<Rightarrow> int \<Rightarrow> Config" where
  "ctrl_query sc num =
     (if num = -1 \<or> num \<ge> int (length (configs sc)) then last (configs sc) else configs sc ! nat num)"

lemma execQuery_records:
  assumes "ctrl_inv sc" "-1 \<le> qa_Num args" "\<not> executed (qa_Identifier args) sc"
  shows "execQuery args sc = Inr (record_op (qa_Identifier args) (ctrl_query sc (qa_Num args)) sc)"
proof (cases "qa_Num args = -1 \<or> qa_Num args \<ge> int (length (configs sc))")
  case True
  with assms ctrl_inv_last [OF assms(1)] show ?thesis by (simp add: execQuery_def ctrl_query_def)
next
  case False
  with assms(2) have i: "0 \<le> qa_Num args \<and> qa_Num args < int (length (configs sc))" by auto
  with assms(1) have "config_ok (configs sc ! nat (qa_Num args))" by (auto simp: ctrl_inv_def nat_less_iff)
  with assms i False show ?thesis by (simp add: execQuery_def ctrl_query_def)
qed

record sharded =
  ctrl :: ShardCtrler
  hist :: "gid \<Rightarrow> ShardKV list"
  pool :: "gid \<Rightarrow> SkvCommand list"
  lin :: "(SkvOp \<times> string) list"

definition now :: "sharded \<Rightarrow> gid \<Rightarrow> ShardKV" where
  "now st g = last (hist st g)"

definition propose :: "gid \<Rightarrow> SkvCommand \<Rightarrow> sharded \<Rightarrow> sharded" where
  "propose g c st = st\<lparr>pool := (pool st)(g := c # pool st g)\<rparr>"

text \<open>
  The client operation that takes effect when a command is executed, with the result that its execution
  records for the client.
\<close>

definition recorded_result :: "int \<Rightarrow> ShardKV \<Rightarrow> string" where
  "recorded_result client kv = (case SLastOp kv client of Some v \<Rightarrow> sl_Result v | None \<Rightarrow> '''')"

definition lin_op :: "SkvCommand \<Rightarrow> ShardKV \<Rightarrow> (SkvOp \<times> string) list" where
  "lin_op c kv = (case c of
     COp op \<Rightarrow> if effective op kv then [(op, recorded_result (so_ClientId op) (snd (execClientOp op kv)))] else []
   | _ \<Rightarrow> [])"

lemma lin_op_eq:
  "lin_op c kv = (case c of COp op \<Rightarrow> if effective op kv then [(op, skv_result op kv)] else [] | _ \<Rightarrow> [])"
  by (auto simp: lin_op_def recorded_result_def execClientOp_run split: SkvCommand.split)

definition commit :: "gid \<Rightarrow> SkvCommand \<Rightarrow> ShardKV \<Rightarrow> sharded \<Rightarrow> sharded" where
  "commit g c kv' st = st\<lparr>hist := (hist st)(g := hist st g @ [kv']), lin := lin st @ lin_op c (now st g)\<rparr>"

text \<open>
  \<open>home\<close> tells which group a server name belongs to. A call of \<^verbatim>\<open>MigrateShard\<close> that is answered is
  answered by a server of that group; a join names servers of the joining group only.
\<close>

definition answers ::
    "(string \<Rightarrow> gid) \<Rightarrow> sharded \<Rightarrow> (string \<Rightarrow> MigrateShardArgs \<Rightarrow> MigrateShardReply option) \<Rightarrow> bool" where
  "answers home st call \<longleftrightarrow> (\<forall>srv args r. call srv args = Some r \<longrightarrow>
     (\<exists>isLeader. \<exists>kv \<in> set (hist st (home srv)). r = MigrateShard isLeader args kv))"

definition names_ok :: "(string \<Rightarrow> gid) \<Rightarrow> string list gomap \<Rightarrow> bool" where
  "names_ok home gs \<longleftrightarrow> (\<forall>g names. map_of gs g = Some names \<longrightarrow> (\<forall>srv \<in> set names. home srv = g))"

fun join_ok :: "(string \<Rightarrow> gid) \<Rightarrow> CtrlOp \<Rightarrow> bool" where
  "join_ok home (Join a) \<longleftrightarrow> distinct (map fst (ja_Servers a)) \<and>
     (\<forall>(g, names) \<in> set (ja_Servers a). \<forall>srv \<in> set names. home srv = g)"
| "join_ok home _ \<longleftrightarrow> True"

inductive shard_step :: "(string \<Rightarrow> gid) \<Rightarrow> sharded \<Rightarrow> sharded \<Rightarrow> bool" for home where
  step_ctrl: "op_ok op \<Longrightarrow> join_ok home op \<Longrightarrow> rng_ok rng \<Longrightarrow> execOp rng op (ctrl st) = Inr sc \<Longrightarrow>
    shard_step home st (st\<lparr>ctrl := sc\<rparr>)"
| step_client: "kv \<in> set (hist st g) \<Longrightarrow> checkRightGroup (so_Key op) kv \<Longrightarrow> so_OpType op \<noteq> ErrChangeGroup \<Longrightarrow>
    shard_step home st (propose g (COp op) st)"
| step_config: "kv \<in> set (hist st g) \<Longrightarrow> c \<in> set (queryConfig isLeader (ctrl_query (ctrl st)) kv) \<Longrightarrow>
    shard_step home st (propose g c st)"
| step_fetch: "kv \<in> set (hist st g) \<Longrightarrow> answers home st call \<Longrightarrow>
    c \<in> set (tryReqShardData isLeader (ctrl_query (ctrl st)) call kv) \<Longrightarrow>
    shard_step home st (propose g c st)"
| step_gc: "kv \<in> set (hist st g) \<Longrightarrow> GCList kv n = Some S \<Longrightarrow> s \<in> S \<Longrightarrow>
    srv \<in> set (owner_servers (ctrl_query (ctrl st) n) s) \<Longrightarrow>
    shard_step home st (propose (home srv) (CGC \<lparr>gc_CfgNum = Num (ctrl_query (ctrl st) n), gc_Shard = s\<rparr>) st)"
| step_commit: "g \<noteq> InvalidGid \<Longrightarrow> c \<in> set (pool st g) \<Longrightarrow>
    execCommand c (SLastApplied (now st g) + 1) (now st g) = Inr (c', kv') \<Longrightarrow>
    shard_step home st (commit g c kv' st)"

inductive_cases shard_stepE: "shard_step home st st'"

definition sharded_init :: "sharded \<Rightarrow> bool" where
  "sharded_init st \<longleftrightarrow> ctrl st = StartServer \<and> (\<forall>g. \<exists>m. hist st g = [skv_fresh g m]) \<and>
     (\<forall>g. pool st g = []) \<and> lin st = []"

abbreviation sharded_reach :: "(string \<Rightarrow> gid) \<Rightarrow> sharded \<Rightarrow> bool" where
  "sharded_reach home \<equiv> reach sharded_init (shard_step home)"

section \<open>The invariant of one server\<close>

abbreviation own :: "Config list \<Rightarrow> int \<Rightarrow> int \<Rightarrow> gid" where
  "own C n s \<equiv> owner (C ! nat n) s"

abbreviation cfg_num :: "ShardKV \<Rightarrow> int" where
  "cfg_num kv \<equiv> Num (SConfig kv)"

text \<open>The history of configurations as the groups rely on it.\<close>

definition history_ok :: "(string \<Rightarrow> gid) \<Rightarrow> Config list \<Rightarrow> bool" where
  "history_ok home C \<longleftrightarrow> C \<noteq> [] \<and> C ! 0 = zeroConfig \<and>
     (\<forall>i < length C. Num (C ! i) = int i \<and> names_ok home (Groups (C ! i)))"

text \<open>Shard \<open>s\<close> changes hands from group \<open>g\<close> to another one between \<open>n\<close> and \<open>n + 1\<close>.\<close>

definition leaves :: "Config list \<Rightarrow> gid \<Rightarrow> int \<Rightarrow> int \<Rightarrow> bool" where
  "leaves C g n s \<longleftrightarrow> 1 \<le> n \<and> n + 1 < int (length C) \<and> s \<in> all_shards \<and> own C n s = g \<and> own C (n + 1) s \<noteq> g"

definition enters :: "Config list \<Rightarrow> gid \<Rightarrow> int \<Rightarrow> int \<Rightarrow> bool" where
  "enters C g n s \<longleftrightarrow> 1 \<le> n \<and> n + 1 < int (length C) \<and> s \<in> all_shards \<and> own C n s \<noteq> g \<and> own C (n + 1) s = g"

definition keys_in :: "int \<Rightarrow> (string \<rightharpoonup> string) \<Rightarrow> bool" where
  "keys_in s d \<longleftrightarrow> (\<forall>k v. d k = Some v \<longrightarrow> key2shard k = s)"

definition config_at :: "Config list \<Rightarrow> ShardKV \<Rightarrow> bool" where
  "config_at C kv \<longleftrightarrow> 0 \<le> cfg_num kv \<and> cfg_num kv < int (length C) \<and> C ! nat (cfg_num kv) = SConfig kv"

definition shards_at :: "gid \<Rightarrow> ShardKV \<Rightarrow> bool" where
  "shards_at g kv \<longleftrightarrow>
     (\<forall>s \<in> MyShards kv. s \<in> all_shards \<and> owner (SConfig kv) s = g \<and> map_of (ShardDataReqs kv) s = None) \<and>
     (\<forall>s \<in> all_shards. owner (SConfig kv) s = g \<longrightarrow> s \<in> MyShards kv \<or> map_of (ShardDataReqs kv) s \<noteq> None) \<and>
     (\<forall>k v. SData kv k = Some v \<longrightarrow> key2shard k \<in> MyShards kv)"

definition pending_at :: "Config list \<Rightarrow> gid \<Rightarrow> ShardKV \<Rightarrow> bool" where
  "pending_at C g kv \<longleftrightarrow>
     (\<forall>s n. map_of (ShardDataReqs kv) s = Some n \<longrightarrow> n = cfg_num kv - 1 \<and> enters C g n s) \<and>
     (\<forall>n s d. migration kv n s = Some d \<longrightarrow> n < cfg_num kv \<and> leaves C g n s \<and> keys_in s d) \<and>
     (\<forall>n S s. GCList kv n = Some S \<longrightarrow> s \<in> S \<longrightarrow>
        enters C g n s \<and> (n + 1 < cfg_num kv \<or> n + 1 = cfg_num kv \<and> s \<in> MyShards kv))"

definition local_ok :: "Config list \<Rightarrow> gid \<Rightarrow> ShardKV \<Rightarrow> bool" where
  "local_ok C g kv \<longleftrightarrow> gid kv = g \<and> config_at C kv \<and> shards_at g kv \<and> pending_at C g kv \<and>
     distinct (map fst (ShardDataReqs kv))"

text \<open>A later state of the same group.\<close>

definition before :: "ShardKV \<Rightarrow> ShardKV \<Rightarrow> bool" where
  "before kv kv' \<longleftrightarrow> cfg_num kv \<le> cfg_num kv' \<and>
     (cfg_num kv = cfg_num kv' \<longrightarrow>
        (ShardDataReqs kv = [] \<longrightarrow> ShardDataReqs kv' = []) \<and> MyShards kv \<subseteq> MyShards kv')"

lemma before_refl [simp]: "before kv kv"
  by (simp add: before_def)

lemma before_trans: "before k1 k2 \<Longrightarrow> before k2 k3 \<Longrightarrow> before k1 k3"
  unfolding before_def by (metis order_antisym order_trans)

text \<open>What the commands of a group's log satisfy, relative to the state they are executed in.\<close>

fun command_ok :: "Config list \<Rightarrow> gid \<Rightarrow> ShardKV \<Rightarrow> SkvCommand \<Rightarrow> bool" where
  "command_ok C g kv (CConfig c) \<longleftrightarrow> 1 \<le> Num c \<and> Num c < int (length C) \<and> C ! nat (Num c) = c \<and>
     (cfg_num kv < Num c \<longrightarrow> Num c = cfg_num kv + 1 \<and> ShardDataReqs kv = [])"
| "command_ok C g kv (CMigrate m) \<longleftrightarrow>
     enters C g (mr_ConfigNum m) (mr_Shard m) \<and> keys_in (mr_Shard m) (mr_Data m)"
| "command_ok C g kv (CGC x) \<longleftrightarrow> True"
| "command_ok C g kv (COp op) \<longleftrightarrow> so_OpType op \<noteq> ErrChangeGroup"


section \<open>One command keeps the invariant of the server\<close>

lemma local_ok_SLastApplied [simp]: "local_ok C g (kv\<lparr>SLastApplied := i\<rparr>) \<longleftrightarrow> local_ok C g kv"
  by (simp add: local_ok_def config_at_def shards_at_def pending_at_def migration_def)

lemma command_ok_SLastApplied [simp]: "command_ok C g (kv\<lparr>SLastApplied := i\<rparr>) c \<longleftrightarrow> command_ok C g kv c"
  by (cases c) simp_all

lemma zeroConfig_owner: "s \<in> all_shards \<Longrightarrow> owner zeroConfig s = InvalidGid"
  by (simp add: owner_def zeroConfig_def InvalidGid_def nat_less_iff)

lemma local_okD:
  assumes "local_ok C g kv"
  shows "gid kv = g" "0 \<le> cfg_num kv" "cfg_num kv < int (length C)" "C ! nat (cfg_num kv) = SConfig kv"
    and "s \<in> MyShards kv \<Longrightarrow> s \<in> all_shards" "s \<in> MyShards kv \<Longrightarrow> owner (SConfig kv) s = g"
      "s \<in> MyShards kv \<Longrightarrow> map_of (ShardDataReqs kv) s = None"
    and "s \<in> all_shards \<Longrightarrow> owner (SConfig kv) s = g \<Longrightarrow> map_of (ShardDataReqs kv) s = None \<Longrightarrow> s \<in> MyShards kv"
    and "SData kv k = Some v \<Longrightarrow> key2shard k \<in> MyShards kv"
    and "map_of (ShardDataReqs kv) s = Some n \<Longrightarrow> n = cfg_num kv - 1"
      "map_of (ShardDataReqs kv) s = Some n \<Longrightarrow> enters C g n s"
    and "migration kv n s = Some d \<Longrightarrow> n < cfg_num kv" "migration kv n s = Some d \<Longrightarrow> leaves C g n s"
      "migration kv n s = Some d \<Longrightarrow> keys_in s d"
    and "GCList kv n = Some S \<Longrightarrow> s \<in> S \<Longrightarrow> enters C g n s"
      "GCList kv n = Some S \<Longrightarrow> s \<in> S \<Longrightarrow> n + 1 < cfg_num kv \<or> n + 1 = cfg_num kv \<and> s \<in> MyShards kv"
    and "distinct (map fst (ShardDataReqs kv))"
proof -
  from assms show "distinct (map fst (ShardDataReqs kv))" by (simp add: local_ok_def)
  from assms have "gid kv = g \<and> config_at C kv" by (simp add: local_ok_def)
  then show "gid kv = g" "0 \<le> cfg_num kv" "cfg_num kv < int (length C)" "C ! nat (cfg_num kv) = SConfig kv"
    by (simp_all add: config_at_def)
  from assms have sh: "shards_at g kv" by (simp add: local_ok_def)
  show "s \<in> MyShards kv \<Longrightarrow> s \<in> all_shards" "s \<in> MyShards kv \<Longrightarrow> owner (SConfig kv) s = g"
    "s \<in> MyShards kv \<Longrightarrow> map_of (ShardDataReqs kv) s = None"
    "s \<in> all_shards \<Longrightarrow> owner (SConfig kv) s = g \<Longrightarrow> map_of (ShardDataReqs kv) s = None \<Longrightarrow> s \<in> MyShards kv"
    "SData kv k = Some v \<Longrightarrow> key2shard k \<in> MyShards kv"
    using sh unfolding shards_at_def by blast+
  from assms have pend: "pending_at C g kv" by (simp add: local_ok_def)
  show "map_of (ShardDataReqs kv) s = Some n \<Longrightarrow> n = cfg_num kv - 1"
    "map_of (ShardDataReqs kv) s = Some n \<Longrightarrow> enters C g n s"
    "migration kv n s = Some d \<Longrightarrow> n < cfg_num kv" "migration kv n s = Some d \<Longrightarrow> leaves C g n s"
    "migration kv n s = Some d \<Longrightarrow> keys_in s d"
    "GCList kv n = Some S \<Longrightarrow> s \<in> S \<Longrightarrow> enters C g n s"
    "GCList kv n = Some S \<Longrightarrow> s \<in> S \<Longrightarrow> n + 1 < cfg_num kv \<or> n + 1 = cfg_num kv \<and> s \<in> MyShards kv"
    using pend unfolding pending_at_def by blast+
qed

lemma config_local:
  assumes C: "history_ok home C" "g \<noteq> InvalidGid" and kv: "local_ok C g kv"
    and c: "Num c = cfg_num kv + 1" "Num c < int (length C)" "C ! nat (Num c) = c" "ShardDataReqs kv = []"
  shows "local_ok C g (execApplyConfig c kv)"
proof -
  have less: "cfg_num kv < Num c" using c(1) by simp
  note run = execApplyConfig_run [OF less]
  let ?old = "SConfig kv" and ?kv' = "execApplyConfig c kv"
  note old = local_okD [OF kv]
  have my: "s \<in> MyShards kv" if "s \<in> all_shards" "owner ?old s = g" for s
    using old(8) [OF that] c(4) by simp
  have zero: "owner ?old s = InvalidGid" if "cfg_num kv = 0" "s \<in> all_shards" for s
    using that C(1) old(4) zeroConfig_owner by (simp add: history_ok_def)
  have own: "own C (cfg_num kv) s = owner ?old s" "own C (cfg_num kv + 1) s = owner c s" for s
    using old(4) c(3) by (simp_all add: c(1) [symmetric])
  have reqs: "map_of (ShardDataReqs ?kv') = (\<lambda>s. if cfg_num kv \<noteq> 0 \<and> s \<in> gained g ?old c then Some (cfg_num kv) else None)"
    using run(9) c(4) old(1) by (simp add: fun_eq_iff)
  have MyS: "MyShards ?kv' = MyShards kv \<union> (if cfg_num kv = 0 then gained g ?old c else {}) - lost g ?old c"
    using run(8) old(1) by simp
  have dat: "SData ?kv' = (\<lambda>k. if key2shard k \<in> lost g ?old c then None else SData kv k)"
    using run(10) old(1) by simp
  have "config_at C ?kv'" using c(2,3) old(2) less by (simp add: config_at_def run(1))
  moreover have "shards_at g ?kv'"
    unfolding shards_at_def run(1)
  proof (intro conjI ballI allI impI)
    fix s assume "s \<in> MyShards ?kv'"
    then have s: "s \<in> MyShards kv \<and> s \<notin> lost g ?old c \<or> cfg_num kv = 0 \<and> s \<in> gained g ?old c"
      by (auto simp: MyS split: if_splits)
    then show "s \<in> all_shards" "owner c s = g" "map_of (ShardDataReqs ?kv') s = None"
      using old(5,6) [of s] by (auto simp: reqs gained_def lost_def)
  next
    fix s assume "s \<in> all_shards" "owner c s = g"
    then show "s \<in> MyShards ?kv' \<or> map_of (ShardDataReqs ?kv') s \<noteq> None"
      using my [of s] by (auto simp: MyS reqs gained_def lost_def)
  next
    fix k v assume "SData ?kv' k = Some v"
    then show "key2shard k \<in> MyShards ?kv'" using old(9) [of k v] by (auto simp: MyS dat split: if_splits)
  qed
  moreover have "m = Num c - 1 \<and> enters C g m s" if "map_of (ShardDataReqs ?kv') s = Some m" for s m
    using that old(2) c(1,2) own by (auto simp: reqs enters_def gained_def split: if_splits)
  moreover have "m < Num c \<and> leaves C g m s \<and> keys_in s d" if m: "migration ?kv' m s = Some d" for m s d
  proof (cases "m = cfg_num kv \<and> s \<in> lost g ?old c")
    case True
    then have d: "d = shard_part s (SData kv)" using m by (simp add: run(11) old(1))
    from True zero C(2) have "cfg_num kv \<noteq> 0" by (auto simp: lost_def)
    with True old(2) c(1,2) own have "leaves C g m s" by (auto simp: leaves_def lost_def)
    with True c(1) d show ?thesis by (auto simp: keys_in_def shard_part_def split: if_splits)
  next
    case False
    then have "migration kv m s = Some d" using m by (auto simp: run(11) old(1) split: if_splits)
    from old(12-14) [OF this] c(1) show ?thesis by simp
  qed
  moreover have "enters C g m s \<and> m + 1 < Num c" if "GCList ?kv' m = Some S" "s \<in> S" for m S s
    using old(15,16) [of m S s] that c(1) by (auto simp: run(5))
  ultimately show ?thesis by (simp add: local_ok_def pending_at_def run(1,2) old(1) execApplyConfig_distinct old(17))
qed

lemma migrate_local:
  assumes kv: "local_ok C g kv" and m: "enters C g (mr_ConfigNum m) (mr_Shard m)" "keys_in (mr_Shard m) (mr_Data m)"
    and n: "mr_ConfigNum m = cfg_num kv - 1"
  shows "local_ok C g (execMigrationDataSync m kv)"
proof -
  note run = execMigrationDataSync_run [OF n]
  let ?kv' = "execMigrationDataSync m kv"
  note old = local_okD [OF kv]
  from m(1) have s: "mr_Shard m \<in> all_shards" "owner (SConfig kv) (mr_Shard m) = g"
    using old(4) n by (simp_all add: enters_def)
  have "shards_at g ?kv'"
    unfolding shards_at_def run(1) run(8) run(9)
  proof (intro conjI ballI allI impI)
    fix x assume "x \<in> insert (mr_Shard m) (MyShards kv)"
    then show "x \<in> all_shards" "owner (SConfig kv) x = g" "((map_of (ShardDataReqs kv))(mr_Shard m := None)) x = None"
      using s old(5-7) [of x] by auto
  next
    fix x assume "x \<in> all_shards" "owner (SConfig kv) x = g"
    then show "x \<in> insert (mr_Shard m) (MyShards kv) \<or> ((map_of (ShardDataReqs kv))(mr_Shard m := None)) x \<noteq> None"
      using old(8) [of x] by auto
  next
    fix k v assume "SData ?kv' k = Some v"
    then show "key2shard k \<in> insert (mr_Shard m) (MyShards kv)"
      using old(9) [of k v] m(2) by (auto simp: run(10) keys_in_def map_add_Some_iff split: if_splits)
  qed
  moreover have "pending_at C g ?kv'"
    unfolding pending_at_def run(1) run(5) run(8)
  proof (intro conjI allI impI)
    fix x i assume "map_of (ShardDataReqs ?kv') x = Some i"
    then show "i = cfg_num kv - 1" "enters C g i x" using old(10,11) [of x i] by (auto simp: run(9) split: if_splits)
  next
    fix i x d assume "migration kv i x = Some d"
    then show "i < cfg_num kv" "leaves C g i x" "keys_in x d" using old(12-14) by simp_all
  next
    fix i S x assume "GCList ?kv' i = Some S" "x \<in> S"
    then have "(i = mr_ConfigNum m \<and> x = mr_Shard m) \<or> (\<exists>S'. GCList kv i = Some S' \<and> x \<in> S')"
      by (auto simp: run(12) split: if_splits option.splits)
    then show "enters C g i x" "i + 1 < cfg_num kv \<or> i + 1 = cfg_num kv \<and> x \<in> insert (mr_Shard m) (MyShards kv)"
      using old(15,16) [of i _ x] m(1) n by auto
  qed
  moreover have "distinct (map fst (ShardDataReqs ?kv'))"
    using old(17) by (simp add: execMigrationDataSync_def Let_def distinct_delete)
  ultimately show ?thesis using kv by (simp add: local_ok_def config_at_def run(1,2))
qed

lemma local_ok_frame:
  assumes kv: "local_ok C g kv"
    and eq: "gid kv' = gid kv" "SConfig kv' = SConfig kv" "MyShards kv' = MyShards kv"
      "ShardDataReqs kv' = ShardDataReqs kv" "GCList kv' = GCList kv"
    and mig: "\<And>n s d. migration kv' n s = Some d \<Longrightarrow> migration kv n s = Some d"
    and dat: "\<And>k v. SData kv' k = Some v \<Longrightarrow> key2shard k \<in> MyShards kv"
  shows "local_ok C g kv'"
proof -
  have "config_at C kv'" "gid kv' = g" "distinct (map fst (ShardDataReqs kv'))"
    using kv by (simp_all add: local_ok_def config_at_def eq)
  moreover have "shards_at g kv'"
    using kv dat unfolding local_ok_def shards_at_def eq by blast
  moreover have "pending_at C g kv'"
    using kv mig unfolding local_ok_def pending_at_def eq by blast
  ultimately show ?thesis by (simp add: local_ok_def)
qed

lemma op_local:
  assumes kv: "local_ok C g kv"
  shows "local_ok C g (snd (execClientOp op kv))"
proof (cases "effective op kv")
  case True
  have "so_Key op = k \<or> SData kv k = Some v" if "store_op op (SData kv) k = Some v" for k v
    using that by (auto simp: store_op_def split: SkvOpType.splits if_splits)
  moreover have "key2shard (so_Key op) \<in> MyShards kv" using True by (simp add: effective_def checkRightGroup_def)
  ultimately have "key2shard k \<in> MyShards kv" if "store_op op (SData kv) k = Some v" for k v
    using that local_okD(9) [OF kv] by metis
  with local_ok_frame [OF kv, of "snd (execClientOp op kv)"] show ?thesis
    by (simp add: execClientOp_run [OF True] migration_def)
qed (simp add: execClientOp_ineffective kv)

lemma gc_local:
  assumes "local_ok C g kv"
  shows "local_ok C g (execGC x kv)"
proof -
  have "migration kv n s = Some d" if "migration (execGC x kv) n s = Some d" for n s d
    using that by (auto simp: execGC_run split: if_splits)
  with local_ok_frame [OF assms, of "execGC x kv"] local_okD(9) [OF assms] show ?thesis
    by (simp add: execGC_run(1-8))
qed

lemma run_command_local:
  assumes "history_ok home C" "g \<noteq> InvalidGid" "local_ok C g kv" "command_ok C g kv c"
  shows "local_ok C g (snd (run_command c kv))"
proof (cases c)
  case (CConfig x)
  with config_local [OF assms(1-3)] execApplyConfig_stale [of x kv] assms(3,4) show ?thesis
    by (cases "cfg_num kv < Num x") auto
next
  case (CMigrate m)
  with migrate_local [OF assms(3)] execMigrationDataSync_stale [of m kv] assms(3,4) show ?thesis
    by (cases "mr_ConfigNum m = cfg_num kv - 1") auto
next
  case (COp op)
  with op_local [OF assms(3)] show ?thesis by simp
qed (use gc_local assms(3) in simp)

lemma run_command_before:
  assumes "local_ok C g kv" "command_ok C g kv c"
  shows "before kv (snd (run_command c kv))"
proof (cases c)
  case (CConfig x)
  then show ?thesis
    using execApplyConfig_run(1) [of kv x] execApplyConfig_stale [of x kv]
    by (cases "cfg_num kv < Num x") (auto simp: before_def)
next
  case (CMigrate m)
  show ?thesis
  proof (cases "mr_ConfigNum m = cfg_num kv - 1")
    case True
    note run = execMigrationDataSync_run [OF True]
    have "ShardDataReqs (execMigrationDataSync m kv) = []" if "ShardDataReqs kv = []"
      using that by (simp add: execMigrationDataSync_def Let_def)
    with CMigrate run(1,8) show ?thesis by (auto simp: before_def)
  qed (use CMigrate execMigrationDataSync_stale [of m kv] in simp)
next
  case (CGC x)
  then show ?thesis by (simp add: before_def execGC_run)
next
  case (COp op)
  then show ?thesis
    by (cases "effective op kv") (simp_all add: before_def execClientOp_run execClientOp_ineffective)
qed

end
