(* ===== verification/ShardKvSafety.thy ===== *)
theory ShardKvSafety
  imports ShardKvSystem
begin

text \<open>
  Safety of the sharded service across configuration changes: at most one group serves a shard, the
  groups together behave like one key/value store that executes each client call once, and the data
  of a shard is never lost between two groups. The invariant relates the groups through the history
  of configurations: whoever serves a shard knows that all earlier owners have left it.
\<close>

section \<open>Handing a shard over\<close>

abbreviation cfgs :: "sharded \<Rightarrow> Config list" where
  "cfgs st \<equiv> configs (ctrl st)"

abbreviation cnum :: "sharded \<Rightarrow> gid \<Rightarrow> int" where
  "cnum st g \<equiv> cfg_num (now st g)"

text \<open>Every group that shard \<open>s\<close> left up to configuration \<open>n\<close> has executed that configuration.\<close>

definition handed :: "sharded \<Rightarrow> int \<Rightarrow> int \<Rightarrow> bool" where
  "handed st s n \<longleftrightarrow> (\<forall>j. 2 \<le> j \<longrightarrow> j \<le> n \<longrightarrow> own (cfgs st) (j - 1) s \<noteq> own (cfgs st) j s \<longrightarrow>
     j \<le> cnum st (own (cfgs st) (j - 1) s))"

text \<open>The owner of \<open>s\<close> in configuration \<open>n\<close> has got the shard, or has even gone on.\<close>

definition installed :: "sharded \<Rightarrow> int \<Rightarrow> int \<Rightarrow> bool" where
  "installed st s n \<longleftrightarrow> n < cnum st (own (cfgs st) n s) \<or>
     n = cnum st (own (cfgs st) n s) \<and> s \<in> MyShards (now st (own (cfgs st) n s))"

text \<open>The contents of the abstract store after the operations of a history.\<close>

definition replay :: "(SkvOp \<times> string) list \<Rightarrow> (string \<rightharpoonup> string)" where
  "replay l = fold (\<lambda>(op, _). store_op op) l Map.empty"

text \<open>\<open>d\<close> and \<open>t\<close> are up to date for shard \<open>s\<close>: the data is that of the history, and every call of the
  history on the shard is known in the session table.\<close>

definition covers :: "(SkvOp \<times> string) list \<Rightarrow> int \<Rightarrow> (string \<rightharpoonup> string) \<Rightarrow> (int \<rightharpoonup> SkvLastOperation) \<Rightarrow> bool" where
  "covers l s d t \<longleftrightarrow> (\<forall>k. key2shard k = s \<longrightarrow> d k = replay l k) \<and>
     (\<forall>(op, r) \<in> set l. key2shard (so_Key op) = s \<longrightarrow>
        (\<exists>v. t (so_ClientId op) = Some v \<and> so_CallId op \<le> sl_CallId v))"

definition moved ::
    "sharded \<Rightarrow> int \<Rightarrow> int \<Rightarrow> (string \<rightharpoonup> string) \<Rightarrow> (int \<rightharpoonup> SkvLastOperation) \<Rightarrow> bool" where
  "moved st n s d t \<longleftrightarrow> handed st s (n + 1) \<and> (\<not> installed st s (n + 1) \<longrightarrow> covers (lin st) s d t)"

text \<open>Every remembered call is one of the history, with its result.\<close>

definition recorded :: "(SkvOp \<times> string) list \<Rightarrow> (int \<rightharpoonup> SkvLastOperation) \<Rightarrow> bool" where
  "recorded l t \<longleftrightarrow> (\<forall>c v. t c = Some v \<longrightarrow>
     (\<exists>(op, r) \<in> set l. so_ClientId op = c \<and> so_CallId op = sl_CallId v \<and> r = sl_Result v))"

definition base_inv :: "(string \<Rightarrow> gid) \<Rightarrow> sharded \<Rightarrow> bool" where
  "base_inv home st \<longleftrightarrow> ctrl_inv (ctrl st) \<and> history_ok home (cfgs st) \<and> (\<exists>m. hist st InvalidGid = [skv_fresh InvalidGid m]) \<and>
     (\<forall>g. g \<noteq> InvalidGid \<longrightarrow> hist st g \<noteq> [] \<and>
        (\<forall>kv \<in> set (hist st g). local_ok (cfgs st) g kv \<and> before kv (now st g)))"

fun pool_ok :: "sharded \<Rightarrow> gid \<Rightarrow> SkvCommand \<Rightarrow> bool" where
  "pool_ok st g (CConfig c) \<longleftrightarrow> 1 \<le> Num c \<and> Num c < int (length (cfgs st)) \<and> cfgs st ! nat (Num c) = c \<and>
     (\<exists>kv \<in> set (hist st g). cfg_num kv = Num c - 1 \<and> ShardDataReqs kv = [])"
| "pool_ok st g (CMigrate m) \<longleftrightarrow>
     enters (cfgs st) g (mr_ConfigNum m) (mr_Shard m) \<and> keys_in (mr_Shard m) (mr_Data m) \<and>
     moved st (mr_ConfigNum m) (mr_Shard m) (mr_Data m) (mr_LastOperation m) \<and> recorded (lin st) (mr_LastOperation m)"
| "pool_ok st g (CGC x) \<longleftrightarrow> 1 \<le> gc_CfgNum x \<and> gc_CfgNum x + 1 < int (length (cfgs st)) \<and>
     installed st (gc_Shard x) (gc_CfgNum x + 1)"
| "pool_ok st g (COp op) \<longleftrightarrow> so_OpType op \<noteq> ErrChangeGroup"

definition pool_inv :: "sharded \<Rightarrow> bool" where
  "pool_inv st \<longleftrightarrow> (\<forall>g c. g \<noteq> InvalidGid \<longrightarrow> c \<in> set (pool st g) \<longrightarrow> pool_ok st g c)"

definition holds_inv :: "sharded \<Rightarrow> bool" where
  "holds_inv st \<longleftrightarrow> (\<forall>g s. g \<noteq> InvalidGid \<longrightarrow> s \<in> MyShards (now st g) \<longrightarrow>
     handed st s (cnum st g) \<and> covers (lin st) s (SData (now st g)) (SLastOp (now st g)))"

definition moves_inv :: "sharded \<Rightarrow> bool" where
  "moves_inv st \<longleftrightarrow> (\<forall>g kv. g \<noteq> InvalidGid \<longrightarrow> kv \<in> set (hist st g) \<longrightarrow>
     (\<forall>n s d. migration kv n s = Some d \<longrightarrow> moved st n s d (SLastOp kv)) \<and> recorded (lin st) (SLastOp kv))"

definition kept_inv :: "sharded \<Rightarrow> bool" where
  "kept_inv st \<longleftrightarrow> (\<forall>g n s. g \<noteq> InvalidGid \<longrightarrow> leaves (cfgs st) g n s \<longrightarrow> n < cnum st g \<longrightarrow>
     \<not> installed st s (n + 1) \<longrightarrow> migration (now st g) n s \<noteq> None)"

section \<open>Growth of the system\<close>

definition grows :: "sharded \<Rightarrow> sharded \<Rightarrow> bool" where
  "grows st st' \<longleftrightarrow> prefix (cfgs st) (cfgs st') \<and> (\<forall>h. before (now st h) (now st' h))"

lemma grows_own:
  assumes "grows st st'" "0 \<le> n" "n < int (length (cfgs st))"
  shows "cfgs st' ! nat n = cfgs st ! nat n"
  using assms by (auto simp: grows_def prefix_def nth_append nat_less_iff)

lemma grows_cnum: "grows st st' \<Longrightarrow> cnum st h \<le> cnum st' h"
  by (simp add: grows_def before_def)

lemma grows_handed:
  assumes "grows st st'" "handed st s n" "n < int (length (cfgs st))"
  shows "handed st' s n"
  unfolding handed_def
proof (intro allI impI)
  fix j assume j: "2 \<le> j" "j \<le> n" "own (cfgs st') (j - 1) s \<noteq> own (cfgs st') j s"
  have eq: "cfgs st' ! nat (j - 1) = cfgs st ! nat (j - 1)" "cfgs st' ! nat j = cfgs st ! nat j"
    using j(1,2) assms(3) by (auto intro!: grows_own [OF assms(1)])
  from assms(2) j(1,2) have "own (cfgs st) (j - 1) s \<noteq> own (cfgs st) j s \<longrightarrow> j \<le> cnum st (own (cfgs st) (j - 1) s)"
    unfolding handed_def by blast
  with j(3) grows_cnum [OF assms(1)] show "j \<le> cnum st' (own (cfgs st') (j - 1) s)"
    unfolding eq by (meson order_trans)
qed

lemma grows_installed:
  assumes "grows st st'" "installed st s n" "0 \<le> n" "n < int (length (cfgs st))"
  shows "installed st' s n"
proof -
  let ?g = "own (cfgs st) n s"
  have "before (now st ?g) (now st' ?g)" using assms(1) by (simp add: grows_def)
  with assms(2) show ?thesis
    unfolding installed_def grows_own [OF assms(1,3,4)] before_def by (auto simp: order_less_le)
qed

lemma grows_history:
  assumes "grows st st'" "leaves (cfgs st) g n s" shows "leaves (cfgs st') g n s"
  using assms grows_own [OF assms(1), of n] grows_own [OF assms(1), of "n + 1"] prefix_length_le
  by (fastforce simp: leaves_def grows_def)

lemma grows_history':
  assumes "grows st st'" "enters (cfgs st) g n s" shows "enters (cfgs st') g n s"
  using assms grows_own [OF assms(1), of n] grows_own [OF assms(1), of "n + 1"] prefix_length_le
  by (fastforce simp: enters_def grows_def)

section \<open>Exclusive ownership\<close>

text \<open>A group that has not gone past \<open>n\<close> keeps a shard it owns at \<open>n\<close> in all configurations up to \<open>m\<close>.\<close>

lemma stays:
  assumes "handed st s m" "1 \<le> n" "n \<le> m" "own (cfgs st) n s = g" "cnum st g \<le> n"
  shows "own (cfgs st) m s = g"
  using assms(3,1)
proof (induction m rule: int_ge_induct)
  case base
  show ?case by (rule assms(4))
next
  case (step m)
  have "handed st s m" using step.prems by (simp add: handed_def)
  from step.IH [OF this] have IH: "own (cfgs st) m s = g" .
  show ?case
  proof (rule ccontr)
    assume "own (cfgs st) (m + 1) s \<noteq> g"
    moreover have "own (cfgs st) (m + 1 - 1) s \<noteq> own (cfgs st) (m + 1) s \<longrightarrow> m + 1 \<le> cnum st (own (cfgs st) (m + 1 - 1) s)"
      using handed_def [THEN iffD1, OF step.prems, THEN spec, of "m + 1"] step.hyps assms(2) by simp
    ultimately have "m + 1 \<le> cnum st g" using IH by simp
    with step.hyps assms(5) show False by simp
  qed
qed

lemma now_ok:
  assumes "base_inv home st" "g \<noteq> InvalidGid"
  shows "now st g \<in> set (hist st g)" "local_ok (cfgs st) g (now st g)"
proof -
  show "now st g \<in> set (hist st g)" using assms by (simp add: base_inv_def now_def)
  with assms show "local_ok (cfgs st) g (now st g)" by (simp add: base_inv_def)
qed

lemma holder:
  assumes "base_inv home st" "g \<noteq> InvalidGid" "s \<in> MyShards (now st g)"
  shows "own (cfgs st) (cnum st g) s = g" "1 \<le> cnum st g" "s \<in> all_shards" "cnum st g < int (length (cfgs st))"
proof -
  note ok = local_okD [OF now_ok(2) [OF assms(1,2)]]
  show own: "own (cfgs st) (cnum st g) s = g" using ok(4,6) assms(3) by simp
  show s: "s \<in> all_shards" using ok(5) assms(3) by simp
  show "cnum st g < int (length (cfgs st))" by (rule ok(3))
  have "cfgs st ! 0 = zeroConfig" using assms(1) by (simp add: base_inv_def history_ok_def)
  with own s assms(2) zeroConfig_owner have "cnum st g \<noteq> 0" by fastforce
  with ok(2) show "1 \<le> cnum st g" by simp
qed

lemma exclusive:
  assumes "base_inv home st" "holds_inv st" "g \<noteq> InvalidGid" "h \<noteq> InvalidGid"
    and "s \<in> MyShards (now st g)" "s \<in> MyShards (now st h)"
  shows "g = h"
proof -
  have le: "g = h" if "cnum st g \<le> cnum st h" "g \<noteq> InvalidGid" "h \<noteq> InvalidGid"
    "s \<in> MyShards (now st g)" "s \<in> MyShards (now st h)" for g h
  proof -
    have "handed st s (cnum st h)" using assms(2) that by (simp add: holds_inv_def)
    from stays [OF this holder(2) [OF assms(1) that(2,4)] that(1) holder(1) [OF assms(1) that(2,4)]]
    show ?thesis using holder(1) [OF assms(1) that(3,5)] by simp
  qed
  show ?thesis using linear [of "cnum st g" "cnum st h"] le [of g h] le [of h g] assms(3-6) by auto
qed

text \<open>Whoever serves a shard shows that an earlier transfer of it was completed.\<close>

lemma holder_installed:
  assumes "base_inv home st" "holds_inv st" "h \<noteq> InvalidGid" "s \<in> MyShards (now st h)"
    and "handed st s n" "1 \<le> n" "n = 1 \<or> own (cfgs st) (n - 1) s \<noteq> own (cfgs st) n s"
  shows "installed st s n"
proof (rule ccontr)
  assume no: "\<not> installed st s n"
  let ?g = "own (cfgs st) n s"
  note h = holder [OF assms(1,3,4)]
  have hd: "handed st s (cnum st h)" using assms(2-4) by (simp add: holds_inv_def)
  show False
  proof (cases "n \<le> cnum st h")
    case True
    from no have "cnum st ?g \<le> n" by (simp add: installed_def)
    from stays [OF hd assms(6) True refl this] h(1) have "h = ?g" by simp
    with no True assms(4) show False by (simp add: installed_def)
  next
    case False
    then have "cnum st h \<le> n" "cnum st h \<le> n - 1" by simp_all
    moreover have "handed st s (n - 1)" using assms(5) by (simp add: handed_def)
    ultimately have "own (cfgs st) n s = h" "own (cfgs st) (n - 1) s = h"
      using stays [OF assms(5) h(2) _ h(1) order_refl] stays [OF _ h(2) _ h(1) order_refl] by simp_all
    with assms(7) False h(2) show False by auto
  qed
qed

section \<open>The abstract store\<close>

lemma replay_simps [simp]: "replay [] = Map.empty" "replay (l @ [(op, r)]) = store_op op (replay l)"
  by (simp_all add: replay_def)

lemma store_op_other: "k \<noteq> so_Key op \<Longrightarrow> store_op op d k = d k"
  by (simp add: store_op_def split: SkvOpType.splits)

lemma store_op_key: "d (so_Key op) = d' (so_Key op) \<Longrightarrow> store_op op d (so_Key op) = store_op op d' (so_Key op)"
  by (simp add: store_op_def split: SkvOpType.splits)

lemma store_op_shard:
  assumes "\<And>k. key2shard k = s \<Longrightarrow> d k = d' k" "key2shard k = s"
  shows "store_op op d k = store_op op d' k"
  using assms store_op_other [of k op] store_op_key [of d op d'] by (cases "k = so_Key op") auto

lemma covers_other:
  assumes "key2shard (so_Key op) \<noteq> s"
  shows "covers (l @ [(op, r)]) s d t \<longleftrightarrow> covers l s d t"
proof -
  have "store_op op (replay l) k = replay l k" if "key2shard k = s" for k
    using that assms by (intro store_op_other) auto
  with assms show ?thesis by (simp add: covers_def)
qed

lemma covers_weaken:
  assumes "covers l s d t" "lops_le t t'" "\<And>k. key2shard k = s \<Longrightarrow> d' k = d k"
  shows "covers l s d' t'"
  unfolding covers_def
proof (intro conjI allI impI ballI, goal_cases)
  case (1 k)
  with assms(1,3) show ?case by (simp add: covers_def)
next
  case (2 x)
  obtain op r where x: "x = (op, r)" by fastforce
  show ?case unfolding x prod.case
  proof
    assume "key2shard (so_Key op) = s"
    with assms(1) 2 x obtain v where "t (so_ClientId op) = Some v" "so_CallId op \<le> sl_CallId v"
      by (fastforce simp: covers_def)
    with assms(2) show "\<exists>v. t' (so_ClientId op) = Some v \<and> so_CallId op \<le> sl_CallId v"
      unfolding lops_le_def by (meson order_trans)
  qed
qed

lemma covers_snoc:
  assumes "covers l s d t" "key2shard (so_Key op) = s" "effective op kv" "SLastOp kv = t" "SData kv = d"
  shows "covers (l @ [(op, r)]) s (SData (snd (execClientOp op kv))) (SLastOp (snd (execClientOp op kv)))"
proof -
  have "covers l s d (SLastOp (snd (execClientOp op kv)))"
    using covers_weaken [OF assms(1)] execClientOp_lops [of kv op] assms(4) by simp
  moreover have "\<exists>v. SLastOp (snd (execClientOp op kv)) (so_ClientId op) = Some v \<and> so_CallId op \<le> sl_CallId v"
    by (simp add: execClientOp_run [OF assms(3)])
  moreover have "store_op op d k = store_op op (replay l) k" if "key2shard k = s" for k
    by (rule store_op_shard [OF _ that]) (use assms(1) in \<open>simp add: covers_def\<close>)
  ultimately show ?thesis
    by (auto simp: covers_def execClientOp_run [OF assms(3)] assms(5))
qed

text \<open>An extension of the history by an operation that some group executes on a shard it serves.\<close>

definition lin_step :: "sharded \<Rightarrow> sharded \<Rightarrow> bool" where
  "lin_step st st' \<longleftrightarrow> lin st' = lin st \<or> (\<exists>g op r. g \<noteq> InvalidGid \<and>
     key2shard (so_Key op) \<in> MyShards (now st g) \<and> lin st' = lin st @ [(op, r)])"

lemma recorded_mono: "recorded l t \<Longrightarrow> set l \<subseteq> set l' \<Longrightarrow> recorded l' t"
  unfolding recorded_def by (fast dest: subsetD)

lemma lin_step_recorded: "lin_step st st' \<Longrightarrow> recorded (lin st) t \<Longrightarrow> recorded (lin st') t"
  by (auto simp: lin_step_def elim!: recorded_mono)

lemma moved_step:
  assumes "base_inv home st" "holds_inv st" "grows st st'" "lin_step st st'"
    and "moved st n s d t" "1 \<le> n" "n + 1 < int (length (cfgs st))" "own (cfgs st) n s \<noteq> own (cfgs st) (n + 1) s"
  shows "moved st' n s d t"
proof -
  have hd: "handed st s (n + 1)" using assms(5) by (simp add: moved_def)
  have "covers (lin st') s d t" if "\<not> installed st' s (n + 1)"
  proof -
    from that grows_installed [OF assms(3)] assms(6,7) have no: "\<not> installed st s (n + 1)" by auto
    then have cov: "covers (lin st) s d t" using assms(5) by (simp add: moved_def)
    from assms(4) show ?thesis
      unfolding lin_step_def
    proof (elim disjE exE conjE)
      fix g op r
      assume g: "g \<noteq> InvalidGid" "key2shard (so_Key op) \<in> MyShards (now st g)" "lin st' = lin st @ [(op, r)]"
      have "key2shard (so_Key op) \<noteq> s"
        using holder_installed [OF assms(1,2) g(1) _ hd] g(2) no assms(6,8) by auto
      with cov g(3) show ?thesis by (simp add: covers_other)
    qed (use cov in simp)
  qed
  with grows_handed [OF assms(3) hd assms(7)] show ?thesis by (simp add: moved_def)
qed

lemma moved_weaken: "moved st n s d t \<Longrightarrow> lops_le t t' \<Longrightarrow> moved st n s d t'"
  using covers_weaken [of "lin st" s d t t' d] by (auto simp: moved_def)

section \<open>Committing a command\<close>

lemma fields_SLastApplied [simp]:
  "migration (kv\<lparr>SLastApplied := i\<rparr>) = migration kv" "effective op (kv\<lparr>SLastApplied := i\<rparr>) = effective op kv"
  "skv_result op (kv\<lparr>SLastApplied := i\<rparr>) = skv_result op kv" "before kv0 (kv\<lparr>SLastApplied := i\<rparr>) = before kv0 kv"
  "before (kv\<lparr>SLastApplied := i\<rparr>) kv1 = before kv kv1"
  by (simp_all add: migration_def fun_eq_iff effective_def skv_dup_def checkRightGroup_def skv_result_def
      skv_value_def before_def)

lemma pool_command_ok:
  assumes "base_inv home st" "g \<noteq> InvalidGid" "pool_ok st g c"
  shows "command_ok (cfgs st) g (now st g) c"
proof (cases c)
  case (CConfig x)
  with assms(3) obtain kv where kv: "kv \<in> set (hist st g)" "cfg_num kv = Num x - 1" "ShardDataReqs kv = []" by auto
  with assms(1,2) have "before kv (now st g)" by (simp add: base_inv_def)
  with kv(2,3) CConfig assms(3) show ?thesis by (auto simp: before_def)
qed (use assms(3) in simp_all)

text \<open>The state after a commit.\<close>

definition after :: "sharded \<Rightarrow> gid \<Rightarrow> SkvCommand \<Rightarrow> ShardKV" where
  "after st g c = snd (run_command c ((now st g)\<lparr>SLastApplied := SLastApplied (now st g) + 1\<rparr>))"

lemma commit_simps [simp]:
  "ctrl (commit g c kv' st) = ctrl st" "pool (commit g c kv' st) = pool st"
  "now (commit g c kv' st) h = (if h = g then kv' else now st h)"
  "lin (commit g c kv' st) = lin st @ lin_op c (now st g)"
  "hist (commit g c kv' st) h = (if h = g then hist st g @ [kv'] else hist st h)"
  by (simp_all add: commit_def now_def)

lemma execCommand_after:
  "execCommand c (SLastApplied (now st g) + 1) (now st g) = Inr (c', kv') \<Longrightarrow> kv' = after st g c"
  by (simp add: execCommand_def after_def)

lemma after_ok:
  assumes "base_inv home st" "g \<noteq> InvalidGid" "pool_ok st g c"
  shows "local_ok (cfgs st) g (after st g c)" "before (now st g) (after st g c)"
    "lops_le (SLastOp (now st g)) (SLastOp (after st g c))"
proof -
  let ?kv1 = "(now st g)\<lparr>SLastApplied := SLastApplied (now st g) + 1\<rparr>"
  have ok: "local_ok (cfgs st) g ?kv1" "command_ok (cfgs st) g ?kv1 c"
    using now_ok [OF assms(1,2)] pool_command_ok [OF assms] by simp_all
  have "history_ok home (cfgs st)" using assms(1) by (simp add: base_inv_def)
  from run_command_local [OF this assms(2) ok] show "local_ok (cfgs st) g (after st g c)" by (simp add: after_def)
  from run_command_before [OF ok] show "before (now st g) (after st g c)" by (simp add: after_def)
  from run_command_lops [of ?kv1 c] show "lops_le (SLastOp (now st g)) (SLastOp (after st g c))"
    by (simp add: after_def)
qed

lemma commit_grows:
  assumes "base_inv home st" "g \<noteq> InvalidGid" "pool_ok st g c"
  shows "grows st (commit g c (after st g c) st)"
  using after_ok(2) [OF assms] by (simp add: grows_def)

lemma commit_lin_step:
  assumes "g \<noteq> InvalidGid"
  shows "lin_step st (commit g c (after st g c) st)"
proof (cases c)
  case (COp op)
  with assms show ?thesis
    by (auto simp: lin_step_def lin_op_eq effective_def checkRightGroup_def)
qed (simp_all add: lin_step_def lin_op_eq)

lemma commit_base:
  assumes "base_inv home st" "g \<noteq> InvalidGid" "pool_ok st g c"
  shows "base_inv home (commit g c (after st g c) st)"
proof -
  have "before kv (after st g c)" if "kv \<in> set (hist st g)" for kv
    using that assms(1,2) before_trans [OF _ after_ok(2) [OF assms]] by (simp add: base_inv_def)
  with assms(1,2) after_ok(1) [OF assms] show ?thesis
    by (auto simp: base_inv_def)
qed

text \<open>No operation was executed on a shard before its first owner got it.\<close>

definition started_inv :: "sharded \<Rightarrow> bool" where
  "started_inv st \<longleftrightarrow> (\<forall>(op, r) \<in> set (lin st). so_OpType op \<noteq> ErrChangeGroup \<and> 1 < length (cfgs st) \<and>
     installed st (key2shard (so_Key op)) 1)"

lemma replay_untouched:
  "(\<And>op r. (op, r) \<in> set l \<Longrightarrow> key2shard (so_Key op) \<noteq> key2shard k) \<Longrightarrow> replay l k = None"
proof (induction l rule: rev_induct)
  case (snoc x l)
  obtain op r where x: "x = (op, r)" by fastforce
  with snoc.prems have "k \<noteq> so_Key op" by auto
  with snoc x show ?case by (auto simp: store_op_other)
qed simp

lemma untouched_covers:
  assumes "started_inv st" "\<not> installed st s 1" "\<And>k. key2shard k = s \<Longrightarrow> d k = None"
  shows "covers (lin st) s d t"
proof -
  have no: "key2shard (so_Key op) \<noteq> s" if "(op, r) \<in> set (lin st)" for op r
    using assms(1,2) that unfolding started_inv_def by fastforce
  have "d k = replay (lin st) k" if k: "key2shard k = s" for k
  proof -
    have "key2shard (so_Key op) \<noteq> key2shard k" if "(op, r) \<in> set (lin st)" for op r
      using no [OF that] k by simp
    with replay_untouched [of "lin st" k] assms(3) [OF k] show ?thesis by simp
  qed
  with no show ?thesis unfolding covers_def by fastforce
qed

lemma holds_config:
  assumes inv: "base_inv home st" "holds_inv st" "started_inv st" and g: "g \<noteq> InvalidGid"
    and c: "pool_ok st g (CConfig x)" and s: "s \<in> MyShards (after st g (CConfig x))"
  shows "handed (commit g (CConfig x) (after st g (CConfig x)) st) s (cfg_num (after st g (CConfig x)))"
    "covers (lin st) s (SData (after st g (CConfig x))) (SLastOp (after st g (CConfig x)))"
proof -
  let ?kv = "now st g" and ?st' = "commit g (CConfig x) (after st g (CConfig x)) st"
  let ?kv1 = "?kv\<lparr>SLastApplied := SLastApplied ?kv + 1\<rparr>"
  note grows = commit_grows [OF inv(1) g c]
  note ok = local_okD [OF now_ok(2) [OF inv(1) g]]
  have old: "handed ?st' s (cnum st g)" "covers (lin st) s (SData ?kv) (SLastOp ?kv)" if "s \<in> MyShards ?kv"
    using inv(2) g that grows_handed [OF grows _ ok(3)] by (simp_all add: holds_inv_def)
  show "handed ?st' s (cfg_num (after st g (CConfig x)))"
    "covers (lin st) s (SData (after st g (CConfig x))) (SLastOp (after st g (CConfig x)))"
  proof (atomize (full), cases "Num x \<le> cnum st g")
    case True
    then have after: "after st g (CConfig x) = ?kv1" by (simp add: after_def execApplyConfig_stale)
    with s old show "handed ?st' s (cfg_num (after st g (CConfig x))) \<and>
      covers (lin st) s (SData (after st g (CConfig x))) (SLastOp (after st g (CConfig x)))" by simp
  next
    case False
    then have less: "cfg_num ?kv1 < Num x" by simp
    note run = execApplyConfig_run [OF less]
    have after: "after st g (CConfig x) = execApplyConfig x ?kv1" by (simp add: after_def)
    from pool_command_ok [OF inv(1) g c] False have x: "Num x = cnum st g + 1" "cfgs st ! nat (Num x) = x"
      "Num x < int (length (cfgs st))" unfolding command_ok.simps not_le by blast+
    have own: "own (cfgs st) (cnum st g) s = owner (SConfig ?kv) s" "own (cfgs st) (cnum st g + 1) s = owner x s"
      using ok(4) x(2) by (simp_all add: x(1) [symmetric])
    from s have "(s \<in> MyShards ?kv \<or> cnum st g = 0 \<and> s \<in> gained g (SConfig ?kv) x) \<and> s \<notin> lost g (SConfig ?kv) x"
      using ok(1) by (auto simp: after run(8) split: if_splits)
    then show "handed ?st' s (cfg_num (after st g (CConfig x))) \<and>
      covers (lin st) s (SData (after st g (CConfig x))) (SLastOp (after st g (CConfig x)))"
    proof (elim conjE disjE)
      assume my: "s \<in> MyShards ?kv" and "s \<notin> lost g (SConfig ?kv) x"
      then have "own (cfgs st) (cnum st g) s = own (cfgs st) (cnum st g + 1) s"
        using ok(5,6) own by (simp add: lost_def)
      with old(1) [OF my] have "handed ?st' s (cnum st g + 1)"
        unfolding handed_def by (auto simp: le_less zle_add1_eq_le)
      moreover have "SData (after st g (CConfig x)) k = SData ?kv k" if "key2shard k = s" for k
        using that \<open>s \<notin> lost g (SConfig ?kv) x\<close> ok(1) by (simp add: after run(10))
      ultimately show ?thesis
        using covers_weaken [OF old(2) [OF my] lops_le_refl, of "SData (after st g (CConfig x))"] x(1) run(1,3)
        by (simp add: after)
    next
      assume z: "cnum st g = 0" and gain: "s \<in> gained g (SConfig ?kv) x"
      have "s \<notin> MyShards ?kv" using ok(6) gain by (auto simp: gained_def)
      then have "SData ?kv k = None" if "key2shard k = s" for k
        using ok(9) [of k] that by (cases "SData ?kv k") auto
      then have "SData (after st g (CConfig x)) k = None" if "key2shard k = s" for k
        using that by (simp add: after run(10))
      moreover have "\<not> installed st s 1"
        using z gain own by (simp add: installed_def gained_def)
      ultimately show ?thesis
        using untouched_covers [OF inv(3), of s "SData (after st g (CConfig x))"] x(1) z run(1)
        by (simp add: after handed_def)
    qed
  qed
qed

lemma migrate_nothing:
  assumes "\<not> (mr_ConfigNum m = cfg_num kv - 1 \<and> mr_Shard m \<notin> MyShards kv)"
  shows "SConfig (execMigrationDataSync m kv) = SConfig kv" "SData (execMigrationDataSync m kv) = SData kv"
    "SLastOp (execMigrationDataSync m kv) = SLastOp kv" "MyShards (execMigrationDataSync m kv) = MyShards kv"
  using assms execMigrationDataSync_stale [of m kv] execMigrationDataSync_run(1,8,10,11) [of m kv]
  by (cases "mr_ConfigNum m = cfg_num kv - 1"; simp add: insert_absorb)+

lemma holds_migrate:
  assumes inv: "base_inv home st" "holds_inv st" and g: "g \<noteq> InvalidGid"
    and c: "pool_ok st g (CMigrate m)" and s: "s \<in> MyShards (after st g (CMigrate m))"
  shows "handed st s (cfg_num (after st g (CMigrate m)))"
    "covers (lin st) s (SData (after st g (CMigrate m))) (SLastOp (after st g (CMigrate m)))"
proof -
  let ?kv = "now st g" and ?a = "after st g (CMigrate m)"
  let ?kv1 = "?kv\<lparr>SLastApplied := SLastApplied ?kv + 1\<rparr>"
  note ok = local_okD [OF now_ok(2) [OF inv(1) g]]
  have old: "handed st x (cnum st g)" "covers (lin st) x (SData ?kv) (SLastOp ?kv)" if "x \<in> MyShards ?kv" for x
    using inv(2) g that by (simp_all add: holds_inv_def)
  show "handed st s (cfg_num ?a)" "covers (lin st) s (SData ?a) (SLastOp ?a)"
  proof (atomize (full), cases "mr_ConfigNum m = cfg_num ?kv1 - 1 \<and> mr_Shard m \<notin> MyShards ?kv")
    case False
    then have "SConfig ?a = SConfig ?kv" "SData ?a = SData ?kv" "SLastOp ?a = SLastOp ?kv" "MyShards ?a = MyShards ?kv"
      using migrate_nothing [of m ?kv1] by (simp_all add: after_def)
    with s old show "handed st s (cfg_num ?a) \<and> covers (lin st) s (SData ?a) (SLastOp ?a)" by simp
  next
    case True
    then have n: "mr_ConfigNum m = cfg_num ?kv1 - 1" and new: "mr_Shard m \<notin> MyShards ?kv" by simp_all
    note run = execMigrationDataSync_run [OF n]
    have after: "?a = execMigrationDataSync m ?kv1" by (simp add: after_def)
    from c have m: "enters (cfgs st) g (mr_ConfigNum m) (mr_Shard m)" "keys_in (mr_Shard m) (mr_Data m)"
      "moved st (mr_ConfigNum m) (mr_Shard m) (mr_Data m) (mr_LastOperation m)" by simp_all
    have dat: "SData ?a = SData ?kv ++ mr_Data m" "SLastOp ?a = merge_lastOp (SLastOp ?kv) (mr_LastOperation m)"
      using new run(10,11) by (simp_all add: after)
    have num: "cfg_num ?a = cnum st g" "mr_ConfigNum m + 1 = cnum st g" using run(1) n by (simp_all add: after)
    from s run(8) consider "s = mr_Shard m" | "s \<noteq> mr_Shard m" "s \<in> MyShards ?kv" by (auto simp: after)
    then show "handed st s (cfg_num ?a) \<and> covers (lin st) s (SData ?a) (SLastOp ?a)"
    proof cases
      case 1
      have "own (cfgs st) (cnum st g) (mr_Shard m) = g" using m(1) num(2) by (simp add: enters_def)
      then have "\<not> installed st (mr_Shard m) (cnum st g)" using new by (simp add: installed_def)
      with m(3) num have "handed st s (cnum st g)" "covers (lin st) s (mr_Data m) (mr_LastOperation m)"
        by (simp_all add: moved_def 1)
      moreover have "SData ?a k = mr_Data m k" if "key2shard k = s" for k
        using ok(9) [of k] that new 1 by (cases "SData ?kv k"; cases "mr_Data m k") (auto simp: dat map_add_def)
      ultimately show ?thesis using covers_weaken [OF _ lops_le_merge(2)] by (simp add: dat(2) num)
    next
      case 2
      then have "SData ?a k = SData ?kv k" if "key2shard k = s" for k
        using m(2) that by (cases "mr_Data m k") (auto simp: dat keys_in_def map_add_def)
      with old [OF 2(2)] covers_weaken [OF _ lops_le_merge(1)] show ?thesis by (simp add: dat(2) num)
    qed
  qed
qed

lemma holds_op:
  assumes inv: "base_inv home st" "holds_inv st" and g: "g \<noteq> InvalidGid"
    and s: "s \<in> MyShards (after st g (COp op))"
  shows "handed st s (cfg_num (after st g (COp op)))"
    "covers (lin st @ lin_op (COp op) (now st g)) s (SData (after st g (COp op))) (SLastOp (after st g (COp op)))"
proof -
  let ?kv = "now st g" and ?a = "after st g (COp op)"
  let ?kv1 = "?kv\<lparr>SLastApplied := SLastApplied ?kv + 1\<rparr>"
  have after: "?a = snd (execClientOp op ?kv1)" by (simp add: after_def)
  have same: "SConfig ?a = SConfig ?kv" "MyShards ?a = MyShards ?kv"
    by (cases "effective op ?kv1"; simp add: after execClientOp_run execClientOp_ineffective)+
  with s have old: "handed st s (cnum st g)" "covers (lin st) s (SData ?kv) (SLastOp ?kv)"
    using inv(2) g by (simp_all add: holds_inv_def)
  show "handed st s (cfg_num ?a)" using old(1) same by simp
  show "covers (lin st @ lin_op (COp op) (now st g)) s (SData ?a) (SLastOp ?a)"
  proof (cases "effective op ?kv1")
    case False
    then show ?thesis using old(2) by (simp add: after execClientOp_ineffective lin_op_eq)
  next
    case True
    then have lin: "lin_op (COp op) (now st g) = [(op, skv_result op ?kv)]" by (simp add: lin_op_eq)
    show ?thesis
    proof (cases "key2shard (so_Key op) = s")
      case True
      from covers_snoc [OF old(2) this \<open>effective op ?kv1\<close>] lin show ?thesis by (simp add: after)
    next
      case False
      then have "store_op op (SData ?kv) k = SData ?kv k" if "key2shard k = s" for k
        using that by (intro store_op_other) auto
      with covers_weaken [OF old(2), of "SLastOp ?a" "SData ?a"] execClientOp_lops [of ?kv1 op]
      have "covers (lin st) s (SData ?a) (SLastOp ?a)" by (simp add: after execClientOp_run [OF True])
      with False show ?thesis by (simp add: lin covers_other)
    qed
  qed
qed

lemma commit_holds:
  assumes inv: "base_inv home st" "holds_inv st" "started_inv st" and g: "g \<noteq> InvalidGid" and c: "pool_ok st g c"
  shows "holds_inv (commit g c (after st g c) st)"
  unfolding holds_inv_def
proof (intro allI impI)
  let ?st' = "commit g c (after st g c) st"
  note grows = commit_grows [OF inv(1) g c]
  fix h s
  assume h: "h \<noteq> InvalidGid" and s: "s \<in> MyShards (now ?st' h)"
  show "handed ?st' s (cnum ?st' h) \<and> covers (lin ?st') s (SData (now ?st' h)) (SLastOp (now ?st' h))"
  proof (cases "h = g")
    case False
    with s have s': "s \<in> MyShards (now st h)" by simp
    with inv(2) h have old: "handed st s (cnum st h)" "covers (lin st) s (SData (now st h)) (SLastOp (now st h))"
      by (simp_all add: holds_inv_def)
    have "covers (lin ?st') s (SData (now st h)) (SLastOp (now st h))"
      using commit_lin_step [OF g, of st c] unfolding lin_step_def
    proof (elim disjE exE conjE)
      fix g' op r
      assume g': "g' \<noteq> InvalidGid" "key2shard (so_Key op) \<in> MyShards (now st g')" "lin ?st' = lin st @ [(op, r)]"
      then have "lin_op c (now st g) = [(op, r)]" by simp
      then have "key2shard (so_Key op) \<in> MyShards (now st g)"
        by (auto simp: lin_op_eq effective_def checkRightGroup_def split: SkvCommand.splits if_splits)
      with exclusive [OF inv(1,2) h g s'] False have "key2shard (so_Key op) \<noteq> s" by auto
      with old(2) show ?thesis unfolding g'(3) by (simp add: covers_other)
    qed (use old(2) in simp)
    with grows_handed [OF grows old(1) holder(4) [OF inv(1) h s']] False show ?thesis by simp
  next
    case True
    have "handed ?st' s (cfg_num (after st g c)) \<and>
      covers (lin st @ lin_op c (now st g)) s (SData (after st g c)) (SLastOp (after st g c))"
    proof -
      have len: "cfg_num (after st g c) < int (length (cfgs st))"
        using local_okD(3) [OF after_ok(1) [OF inv(1) g c]] .
      from s True have s': "s \<in> MyShards (after st g c)" by simp
      show ?thesis
      proof (cases c)
        case (CConfig x)
        with holds_config [OF inv g, of x s] c s' show ?thesis by (simp add: lin_op_eq)
      next
        case (CMigrate m)
        with holds_migrate [OF inv(1,2) g, of m s] c s' grows_handed [OF grows _ len] show ?thesis
          by (simp add: lin_op_eq)
      next
        case (CGC x)
        with s' have "handed st s (cnum st g)" "covers (lin st) s (SData (now st g)) (SLastOp (now st g))"
          using inv(2) g by (simp_all add: holds_inv_def after_def execGC_run)
        with CGC grows_handed [OF grows _ len] show ?thesis by (simp add: lin_op_eq after_def execGC_run)
      next
        case (COp op)
        with holds_op [OF inv(1,2) g, of s op] s' grows_handed [OF grows _ len] show ?thesis by simp
      qed
    qed
    with True show ?thesis by simp
  qed
qed

lemma moves_moved:
  assumes "base_inv home st" "moves_inv st" "g \<noteq> InvalidGid" "kv \<in> set (hist st g)" "migration kv n s = Some d"
  shows "moved st n s d (SLastOp kv)" "1 \<le> n" "n + 1 < int (length (cfgs st))"
    "own (cfgs st) n s = g" "own (cfgs st) n s \<noteq> own (cfgs st) (n + 1) s"
proof -
  show "moved st n s d (SLastOp kv)" using assms(2-5) by (simp add: moves_inv_def)
  have "local_ok (cfgs st) g kv" using assms(1,3,4) by (simp add: base_inv_def)
  from local_okD(13) [OF this assms(5)] show "1 \<le> n" "n + 1 < int (length (cfgs st))"
    "own (cfgs st) n s = g" "own (cfgs st) n s \<noteq> own (cfgs st) (n + 1) s" by (auto simp: leaves_def)
qed

lemma after_migration:
  assumes inv: "base_inv home st" and g: "g \<noteq> InvalidGid" and c: "pool_ok st g c"
    and m: "migration (after st g c) n s = Some d"
  shows "migration (now st g) n s = Some d \<or>
    (\<exists>x. c = CConfig x \<and> n = cnum st g \<and> cfg_num (after st g c) = n + 1 \<and> s \<in> MyShards (now st g) \<and>
      d = shard_part s (SData (now st g)))"
proof (cases c)
  case (CConfig x)
  let ?kv1 = "(now st g)\<lparr>SLastApplied := SLastApplied (now st g) + 1\<rparr>"
  note ok = local_okD [OF now_ok(2) [OF inv g]]
  show ?thesis
  proof (cases "cfg_num ?kv1 < Num x")
    case True
    note run = execApplyConfig_run [OF True]
    from pool_command_ok [OF inv g c] CConfig True have x: "Num x = cnum st g + 1" "ShardDataReqs (now st g) = []"
      by auto
    from m CConfig ok(1) have "migration (now st g) n s = Some d \<or>
      n = cnum st g \<and> s \<in> lost g (SConfig (now st g)) x \<and> d = shard_part s (SData (now st g))"
      by (auto simp: after_def run(11) split: if_splits)
    moreover have "s \<in> MyShards (now st g)" if "s \<in> lost g (SConfig (now st g)) x"
      using that ok(8) [of s] x(2) by (simp add: lost_def)
    ultimately show ?thesis using CConfig x(1) run(1) by (auto simp: after_def)
  next
    case False
    with m CConfig show ?thesis by (simp add: after_def execApplyConfig_stale)
  qed
next
  case (CMigrate y)
  with m show ?thesis
    by (simp add: after_def execMigrationDataSync_def Let_def migration_def split: if_splits)
next
  case (CGC x)
  with m show ?thesis by (auto simp: after_def execGC_run split: if_splits)
next
  case (COp op)
  let ?kv1 = "(now st g)\<lparr>SLastApplied := SLastApplied (now st g) + 1\<rparr>"
  from COp m show ?thesis
    by (cases "effective op ?kv1") (simp_all add: after_def execClientOp_run execClientOp_ineffective migration_def)
qed

lemma after_recorded:
  assumes "recorded (lin st) (SLastOp (now st g))" "pool_ok st g c"
  shows "recorded (lin st @ lin_op c (now st g)) (SLastOp (after st g c))"
proof (cases c)
  case (CMigrate m)
  let ?kv1 = "(now st g)\<lparr>SLastApplied := SLastApplied (now st g) + 1\<rparr>"
  have "recorded l (merge_lastOp t t')" if "recorded l t" "recorded l t'" for l t t'
    using that unfolding recorded_def merge_lastOp_def by (auto split: option.splits if_splits)
  moreover from CMigrate assms(2) have "recorded (lin st) (mr_LastOperation m)" by simp
  moreover have "SLastOp (after st g c) = SLastOp (now st g) \<or>
      SLastOp (after st g c) = merge_lastOp (SLastOp (now st g)) (mr_LastOperation m)"
    using CMigrate by (simp add: after_def execMigrationDataSync_def Let_def)
  ultimately show ?thesis using CMigrate assms(1) by (auto simp: lin_op_eq)
next
  case (COp op)
  let ?kv1 = "(now st g)\<lparr>SLastApplied := SLastApplied (now st g) + 1\<rparr>"
  show ?thesis
  proof (cases "effective op ?kv1")
    case True
    then have l: "lin_op c (now st g) = [(op, skv_result op (now st g))]" using COp by (simp add: lin_op_eq)
    from recorded_mono [OF assms(1)] have "recorded (lin st @ lin_op c (now st g)) (SLastOp (now st g))" by simp
    then show ?thesis
      using COp True unfolding recorded_def l by (auto simp: after_def execClientOp_run [OF True])
  qed (use COp assms(1) in \<open>simp add: after_def execClientOp_ineffective lin_op_eq\<close>)
qed (use assms(1) in \<open>simp_all add: after_def lin_op_eq execGC_run\<close>)

lemma commit_moves:
  assumes inv: "base_inv home st" "holds_inv st" "moves_inv st" and g: "g \<noteq> InvalidGid" and c: "pool_ok st g c"
  shows "moves_inv (commit g c (after st g c) st)"
  unfolding moves_inv_def
proof (intro allI impI conjI)
  let ?st' = "commit g c (after st g c) st"
  note grows = commit_grows [OF inv(1) g c] and lins = commit_lin_step [OF g, of st c]
  note nowg = now_ok [OF inv(1) g]
  fix h kv
  assume h: "h \<noteq> InvalidGid" and "kv \<in> set (hist ?st' h)"
  then consider "kv \<in> set (hist st h)" | "h = g" "kv = after st g c" by (auto split: if_splits)
  note cases = this
  from cases show "recorded (lin ?st') (SLastOp kv)"
  proof cases
    case 1
    with inv(3) h have "recorded (lin st) (SLastOp kv)" by (simp add: moves_inv_def)
    then show ?thesis by (rule lin_step_recorded [OF lins])
  next
    case 2
    have "recorded (lin st) (SLastOp (now st g))" using inv(3) g nowg(1) by (simp add: moves_inv_def)
    from after_recorded [OF this c] 2 show ?thesis by simp
  qed
  fix n s d
  assume m: "migration kv n s = Some d"
  have old: "moved ?st' n s d (SLastOp k)" if "k \<in> set (hist st h)" "migration k n s = Some d" for k
    using moves_moved [OF inv(1,3) h that] by (intro moved_step [OF inv(1,2) grows lins])
  from cases show "moved ?st' n s d (SLastOp kv)"
  proof cases
    case 1
    from old [OF this m] show ?thesis .
  next
    case 2
    from after_migration [OF inv(1) g c] m 2 consider "migration (now st g) n s = Some d"
      | x where "c = CConfig x" "n = cnum st g" "cfg_num (after st g c) = n + 1" "s \<in> MyShards (now st g)"
        "d = shard_part s (SData (now st g))" by blast
    then show ?thesis
    proof cases
      case 1
      with old nowg(1) 2(1) have "moved ?st' n s d (SLastOp (now st g))" by blast
      from moved_weaken [OF this after_ok(3) [OF inv(1) g c]] 2(2) show ?thesis by simp
    next
      case (2 x)
      with inv(2) g have hd: "handed st s n" and cov: "covers (lin st) s (SData (now st g)) (SLastOp (now st g))"
        by (simp_all add: holds_inv_def)
      note hold = holder [OF inv(1) g 2(4)]
      from grows_handed [OF grows hd] hold(4) 2(2) have "handed ?st' s n" by simp
      with hold(1) 2(2,3) have "handed ?st' s (n + 1)"
        unfolding handed_def by (auto simp: le_less zle_add1_eq_le)
      moreover have "covers (lin ?st') s d (SLastOp kv)"
        using covers_weaken [OF cov, of "SLastOp kv" d] 2 after_ok(3) [OF inv(1) g c] \<open>kv = after st g c\<close>
        by (simp add: shard_part_def lin_op_eq)
      ultimately show ?thesis by (simp add: moved_def)
    qed
  qed
qed

lemma pool_ok_step:
  assumes inv: "base_inv home st" "holds_inv st" "grows st st'" "lin_step st st'"
    and hist: "set (hist st h) \<subseteq> set (hist st' h)" and c: "pool_ok st h c"
  shows "pool_ok st' h c"
proof -
  have len: "int (length (cfgs st)) \<le> int (length (cfgs st'))"
    using inv(3) prefix_length_le by (auto simp: grows_def)
  show ?thesis
  proof (cases c)
    case (CConfig x)
    with c hist len grows_own [OF inv(3), of "Num x"] show ?thesis by auto
  next
    case (CMigrate m)
    with c have m: "enters (cfgs st) h (mr_ConfigNum m) (mr_Shard m)"
      "moved st (mr_ConfigNum m) (mr_Shard m) (mr_Data m) (mr_LastOperation m)"
      "recorded (lin st) (mr_LastOperation m)" by simp_all
    from m(1) have "moved st' (mr_ConfigNum m) (mr_Shard m) (mr_Data m) (mr_LastOperation m)"
      by (intro moved_step [OF inv m(2)]) (auto simp: enters_def)
    with CMigrate c grows_history' [OF inv(3) m(1)] lin_step_recorded [OF inv(4) m(3)] show ?thesis by simp
  next
    case (CGC x)
    with c len grows_installed [OF inv(3), of "gc_Shard x" "gc_CfgNum x + 1"] show ?thesis by auto
  qed (use c in simp)
qed

lemma commit_pool:
  assumes inv: "base_inv home st" "holds_inv st" "pool_inv st" and g: "g \<noteq> InvalidGid" and c: "pool_ok st g c"
  shows "pool_inv (commit g c (after st g c) st)"
proof -
  have "pool_ok (commit g c (after st g c) st) h x" if "pool_ok st h x" for h x
    by (rule pool_ok_step [OF inv(1,2) commit_grows [OF inv(1) g c] commit_lin_step [OF g] _ that]) auto
  with inv(3) show ?thesis by (simp add: pool_inv_def)
qed

lemma after_kept:
  assumes inv: "base_inv home st" and g: "g \<noteq> InvalidGid" and c: "pool_ok st g c"
    and l: "leaves (cfgs st) g n s" "n < cfg_num (after st g c)"
    and old: "n < cnum st g \<Longrightarrow> migration (now st g) n s \<noteq> None"
    and no: "\<not> installed st s (n + 1)"
  shows "migration (after st g c) n s \<noteq> None"
proof (cases c)
  case (CConfig x)
  let ?kv1 = "(now st g)\<lparr>SLastApplied := SLastApplied (now st g) + 1\<rparr>"
  note ok = local_okD [OF now_ok(2) [OF inv g]]
  show ?thesis
  proof (cases "cfg_num ?kv1 < Num x")
    case True
    note run = execApplyConfig_run [OF True]
    from pool_command_ok [OF inv g c] CConfig True have x: "Num x = cnum st g + 1" "cfgs st ! nat (Num x) = x"
      unfolding CConfig command_ok.simps by auto
    from l(2) CConfig run(1) x(1) consider "n < cnum st g" | "n = cnum st g" by (force simp: after_def)
    then show ?thesis
    proof cases
      case 1
      with old CConfig show ?thesis by (simp add: after_def run(11))
    next
      case 2
      have "s \<in> lost g (SConfig (now st g)) x"
        using l(1) ok(4) x(2) unfolding 2 leaves_def lost_def x(1) by simp
      with 2 CConfig ok(1) show ?thesis by (simp add: after_def run(11))
    qed
  next
    case False
    with l(2) old CConfig show ?thesis by (simp add: after_def execApplyConfig_stale)
  qed
next
  case (CMigrate m)
  with l(2) old show ?thesis
    by (simp add: after_def execMigrationDataSync_def Let_def migration_def split: if_splits)
next
  case (CGC x)
  with c no have "\<not> (n = gc_CfgNum x \<and> s = gc_Shard x)" by auto
  with CGC l(2) old show ?thesis by (auto simp: after_def execGC_run)
next
  case (COp op)
  let ?kv1 = "(now st g)\<lparr>SLastApplied := SLastApplied (now st g) + 1\<rparr>"
  from COp l(2) old show ?thesis
    by (cases "effective op ?kv1") (simp_all add: after_def execClientOp_run execClientOp_ineffective migration_def)
qed

lemma commit_kept:
  assumes inv: "base_inv home st" "kept_inv st" and g: "g \<noteq> InvalidGid" and c: "pool_ok st g c"
  shows "kept_inv (commit g c (after st g c) st)"
  unfolding kept_inv_def
proof (intro allI impI)
  let ?st' = "commit g c (after st g c) st"
  fix h n s
  assume h: "h \<noteq> InvalidGid" and l: "leaves (cfgs ?st') h n s" "n < cnum ?st' h" and no: "\<not> installed ?st' s (n + 1)"
  from no grows_installed [OF commit_grows [OF inv(1) g c], of s "n + 1"] l(1)
  have no': "\<not> installed st s (n + 1)" by (auto simp: leaves_def)
  have old: "migration (now st h) n s \<noteq> None" if "n < cnum st h"
    using inv(2) h l(1) that no' by (simp add: kept_inv_def)
  show "migration (now ?st' h) n s \<noteq> None"
  proof (cases "h = g")
    case True
    with after_kept [OF inv(1) g c] l old no' show ?thesis by simp
  qed (use old l(2) in simp)
qed

lemma commit_started:
  assumes inv: "base_inv home st" "holds_inv st" "started_inv st" and g: "g \<noteq> InvalidGid" and c: "pool_ok st g c"
  shows "started_inv (commit g c (after st g c) st)"
  unfolding started_inv_def
proof (intro ballI)
  let ?st' = "commit g c (after st g c) st"
  note grows = commit_grows [OF inv(1) g c]
  fix y assume "y \<in> set (lin ?st')"
  moreover obtain op r where y: "y = (op, r)" by fastforce
  ultimately consider "(op, r) \<in> set (lin st)" | "c = COp op" "effective op (now st g)"
    by (auto simp: lin_op_eq split: SkvCommand.splits if_splits)
  then show "case y of (op, r) \<Rightarrow> so_OpType op \<noteq> ErrChangeGroup \<and> 1 < length (cfgs ?st') \<and>
      installed ?st' (key2shard (so_Key op)) 1"
  proof cases
    case 1
    with inv(3) have "so_OpType op \<noteq> ErrChangeGroup \<and> 1 < length (cfgs st) \<and> installed st (key2shard (so_Key op)) 1"
      by (fastforce simp: started_inv_def)
    with y grows_installed [OF grows, of "key2shard (so_Key op)" 1] show ?thesis by simp
  next
    case 2
    then have s: "key2shard (so_Key op) \<in> MyShards (now st g)" by (simp add: effective_def checkRightGroup_def)
    note hold = holder [OF inv(1) g s]
    have "installed st (key2shard (so_Key op)) 1"
      by (rule holder_installed [OF inv(1,2) g s]) (simp_all add: handed_def)
    with y 2 c hold grows_installed [OF grows, of "key2shard (so_Key op)" 1] show ?thesis by auto
  qed
qed

end
