(* ===== verification/ShardKvCorrect.thy ===== *)
theory ShardKvCorrect
  imports ShardKvSafety
begin

text \<open>
  The invariant of the sharded service holds in every reachable state; what follows from it is stated
  as theorems: exclusive ownership, refinement of one sequential store with every call executed
  once, availability of the data of a shard on the move, and what the handlers answer.
\<close>

section \<open>The history of effective operations\<close>

text \<open>The result an operation has on an abstract store, and histories with these results.\<close>

definition op_result :: "SkvOp \<Rightarrow> (string \<rightharpoonup> string) \<Rightarrow> string" where
  "op_result op d = (if so_OpType op = SGet then (case d (so_Key op) of Some v \<Rightarrow> v | None \<Rightarrow> '''') else '''')"

definition consistent :: "(SkvOp \<times> string) list \<Rightarrow> bool" where
  "consistent l \<longleftrightarrow> (\<forall>i < length l. snd (l ! i) = op_result (fst (l ! i)) (replay (take i l)))"

text \<open>The calls of client \<open>c\<close> on shard \<open>s\<close>, in the order in which they took effect.\<close>

definition shard_calls :: "int \<Rightarrow> int \<Rightarrow> (SkvOp \<times> string) list \<Rightarrow> int list" where
  "shard_calls c s l =
     map (\<lambda>x. so_CallId (fst x)) (filter (\<lambda>x. so_ClientId (fst x) = c \<and> key2shard (so_Key (fst x)) = s) l)"

definition history_inv :: "sharded \<Rightarrow> bool" where
  "history_inv st \<longleftrightarrow> consistent (lin st) \<and> (\<forall>c s. sorted_wrt (<) (shard_calls c s (lin st)))"

lemma consistent_snoc:
  "consistent l \<Longrightarrow> r = op_result op (replay l) \<Longrightarrow> consistent (l @ [(op, r)])"
  by (auto simp: consistent_def nth_append less_Suc_eq)

lemma effective_history:
  assumes inv: "base_inv home st" "holds_inv st" "history_inv st" and g: "g \<noteq> InvalidGid"
    and eff: "effective op (now st g)"
  shows "consistent (lin st @ [(op, skv_result op (now st g))])"
    "sorted_wrt (<) (shard_calls c s (lin st @ [(op, skv_result op (now st g))]))"
proof -
  let ?s = "key2shard (so_Key op)"
  from eff have "?s \<in> MyShards (now st g)" by (simp add: effective_def checkRightGroup_def)
  with inv(2) g have cov: "covers (lin st) ?s (SData (now st g)) (SLastOp (now st g))" by (simp add: holds_inv_def)
  then have "SData (now st g) (so_Key op) = replay (lin st) (so_Key op)" by (simp add: covers_def)
  then have "skv_result op (now st g) = op_result op (replay (lin st))"
    by (simp add: skv_result_def op_result_def skv_value_def)
  with consistent_snoc inv(3) show "consistent (lin st @ [(op, skv_result op (now st g))])"
    by (simp add: history_inv_def)
  have "x < so_CallId op" if "x \<in> set (shard_calls (so_ClientId op) ?s (lin st))" for x
  proof -
    from that obtain op' r' where o: "(op', r') \<in> set (lin st)" "so_ClientId op' = so_ClientId op"
      "key2shard (so_Key op') = ?s" "x = so_CallId op'" by (auto simp: shard_calls_def)
    with cov obtain v where "SLastOp (now st g) (so_ClientId op) = Some v" "so_CallId op' \<le> sl_CallId v"
      by (fastforce simp: covers_def)
    with eff o(4) show ?thesis by (auto simp: effective_def skv_dup_def)
  qed
  with inv(3) show "sorted_wrt (<) (shard_calls c s (lin st @ [(op, skv_result op (now st g))]))"
    by (cases "so_ClientId op = c \<and> ?s = s") (auto simp: history_inv_def shard_calls_def sorted_wrt_append)
qed

lemma commit_history:
  assumes "base_inv home st" "holds_inv st" "history_inv st" "g \<noteq> InvalidGid"
  shows "history_inv (commit g c kv' st)"
proof (cases "\<exists>op. c = COp op \<and> effective op (now st g)")
  case True
  then obtain op where "lin_op c (now st g) = [(op, skv_result op (now st g))]" "effective op (now st g)"
    by (auto simp: lin_op_eq)
  with effective_history [OF assms] show ?thesis by (simp add: history_inv_def)
next
  case False
  then have "lin_op c (now st g) = []" by (cases c) (auto simp: lin_op_eq)
  with assms(3) show ?thesis by (simp add: history_inv_def)
qed

section \<open>The other steps\<close>

definition sys_inv :: "(string \<Rightarrow> gid) \<Rightarrow> sharded \<Rightarrow> bool" where
  "sys_inv home st \<longleftrightarrow> base_inv home st \<and> pool_inv st \<and> holds_inv st \<and> moves_inv st \<and> kept_inv st \<and>
     started_inv st \<and> history_inv st"

lemma commit_inv:
  assumes "sys_inv home st" "g \<noteq> InvalidGid" "c \<in> set (pool st g)"
  shows "sys_inv home (commit g c (after st g c) st)"
proof -
  from assms have inv: "base_inv home st" "pool_inv st" "holds_inv st" "moves_inv st" "kept_inv st"
    "started_inv st" "history_inv st" by (simp_all add: sys_inv_def)
  from inv(2) assms(2,3) have c: "pool_ok st g c" by (simp add: pool_inv_def)
  show ?thesis
    unfolding sys_inv_def
    by (intro conjI commit_base [OF inv(1) assms(2) c] commit_pool [OF inv(1,3,2) assms(2) c]
        commit_holds [OF inv(1,3,6) assms(2) c] commit_moves [OF inv(1,3,4) assms(2) c]
        commit_kept [OF inv(1,5) assms(2) c] commit_started [OF inv(1,3,6) assms(2) c]
        commit_history [OF inv(1,3,7) assms(2)])
qed

lemma propose_simps [simp]:
  "ctrl (propose g c st) = ctrl st" "hist (propose g c st) = hist st" "lin (propose g c st) = lin st"
  "now (propose g c st) = now st" "pool (propose g c st) h = (if h = g then c # pool st g else pool st h)"
  by (simp_all add: propose_def now_def fun_eq_iff)

lemma propose_preds [simp]:
  "handed (propose g c st) = handed st" "installed (propose g c st) = installed st" "moved (propose g c st) = moved st"
  by (simp_all add: handed_def installed_def moved_def fun_eq_iff)

lemma propose_pool_ok [simp]: "pool_ok (propose g c st) h x = pool_ok st h x"
  by (cases x) simp_all

lemma propose_inv:
  assumes "sys_inv home st" "g \<noteq> InvalidGid \<Longrightarrow> pool_ok st g c"
  shows "sys_inv home (propose g c st)"
proof -
  have "pool_inv (propose g c st)" using assms by (auto simp: sys_inv_def pool_inv_def)
  with assms(1) show ?thesis
    by (simp add: sys_inv_def base_inv_def holds_inv_def moves_inv_def kept_inv_def started_inv_def history_inv_def)
qed

lemma hist_ok:
  assumes "base_inv home st" "g \<noteq> InvalidGid" "kv \<in> set (hist st g)"
  shows "local_ok (cfgs st) g kv" "before kv (now st g)"
  using assms by (simp_all add: base_inv_def)

lemma query_at:
  assumes "base_inv home st" "0 \<le> n" "n < int (length (cfgs st))"
  shows "ctrl_query (ctrl st) n = cfgs st ! nat n" "Num (cfgs st ! nat n) = n"
    "names_ok home (Groups (cfgs st ! nat n))"
  using assms by (auto simp: ctrl_query_def base_inv_def history_ok_def nat_less_iff)

lemma config_pool_ok:
  assumes inv: "base_inv home st" and g: "g \<noteq> InvalidGid" and kv: "kv \<in> set (hist st g)"
    and c: "c \<in> set (queryConfig isLeader (ctrl_query (ctrl st)) kv)"
  shows "pool_ok st g c"
proof -
  note ok = local_okD [OF hist_ok(1) [OF inv g kv]]
  let ?n = "cfg_num kv + 1" and ?c = "ctrl_query (ctrl st) (cfg_num kv + 1)"
  from c have c: "c = CConfig ?c" "Num ?c = ?n" "ShardDataReqs kv = []"
    by (auto simp: queryConfig_def Let_def split: if_splits)
  have len: "?n < int (length (cfgs st))"
  proof (rule ccontr)
    assume big: "\<not> ?thesis"
    then have "?c = last (cfgs st)" by (simp add: ctrl_query_def)
    moreover have "Num (last (cfgs st)) = int (length (cfgs st)) - 1"
      using inv by (simp add: base_inv_def history_ok_def last_conv_nth of_nat_diff Suc_leI)
    ultimately show False using c(2) big by simp
  qed
  with query_at [OF inv, of ?n] ok(2) c kv show ?thesis by auto
qed

lemma first_reply_SomeD:
  "first_reply call ok ss = Some r \<Longrightarrow> ok r \<and> (\<exists>srv \<in> set ss. call srv = Some r)"
  by (induction ss) (auto split: option.splits if_splits)

lemma MigrateShard_success:
  assumes "\<not> mr_ErrWrongLeader (MigrateShard isLeader args kv)"
  shows "\<exists>d. migration kv (mg_ConfigNum args) (mg_Shard args) = Some d \<and>
    MigrateShard isLeader args kv = \<lparr>mr_ConfigNum = mg_ConfigNum args, mr_Shard = mg_Shard args,
      mr_ErrWrongLeader = False, mr_Data = d, mr_LastOperation = SLastOp kv\<rparr>"
  using assms
  by (auto simp: MigrateShard_def noMigration_def migration_def cloneDataAndLastOperation_def
      split: if_splits option.splits)

lemma owner_servers_home:
  assumes "names_ok home (Groups c)" "srv \<in> set (owner_servers c s)"
  shows "home srv = owner c s"
proof -
  from assms(2) obtain names where "map_of (Groups c) (owner c s) = Some names" "srv \<in> set names"
    by (cases "map_of (Groups c) (owner c s)") (simp_all add: owner_servers_def owner_def)
  with assms(1) show ?thesis by (simp add: names_ok_def)
qed

lemma fetch_pool_ok:
  assumes inv: "base_inv home st" "moves_inv st" and g: "g \<noteq> InvalidGid" and kv: "kv \<in> set (hist st g)"
    and call: "answers home st call" and c: "c \<in> set (tryReqShardData isLeader (ctrl_query (ctrl st)) call kv)"
  shows "pool_ok st g c"
proof -
  note ok = local_okD [OF hist_ok(1) [OF inv(1) g kv]]
  from c obtain s n where sn: "(s, n) \<in> set (ShardDataReqs kv)" and
    c: "c \<in> set (request_shard (ctrl_query (ctrl st)) call (s, n))"
    by (auto simp: tryReqShardData_def split: if_splits)
  from sn ok(17) have "map_of (ShardDataReqs kv) s = Some n" by simp
  from ok(11) [OF this] have ent: "enters (cfgs st) g n s" .
  then have n: "0 \<le> n" "n < int (length (cfgs st))" by (auto simp: enters_def)
  note q = query_at [OF inv(1) n]
  from c q obtain reply where c: "c = CMigrate reply" and
    r: "first_reply (\<lambda>srv. call srv \<lparr>mg_ConfigNum = n, mg_Shard = s\<rparr>) (\<lambda>r. \<not> mr_ErrWrongLeader r)
      (owner_servers (cfgs st ! nat n) s) = Some reply"
    by (auto simp: request_shard_def Let_def split: option.splits)
  from first_reply_SomeD [OF r] obtain srv where srv: "srv \<in> set (owner_servers (cfgs st ! nat n) s)"
    "call srv \<lparr>mg_ConfigNum = n, mg_Shard = s\<rparr> = Some reply" "\<not> mr_ErrWrongLeader reply" by blast
  let ?p = "own (cfgs st) n s"
  have "home srv = ?p" by (rule owner_servers_home [OF q(3) srv(1)])
  with call srv(2) obtain b kv' where kv': "kv' \<in> set (hist st ?p)"
    "reply = MigrateShard b \<lparr>mg_ConfigNum = n, mg_Shard = s\<rparr> kv'"
    unfolding answers_def by metis
  with srv(3) MigrateShard_success [of b "\<lparr>mg_ConfigNum = n, mg_Shard = s\<rparr>" kv'] obtain d where
    d: "migration kv' n s = Some d" "reply = \<lparr>mr_ConfigNum = n, mr_Shard = s, mr_ErrWrongLeader = False,
      mr_Data = d, mr_LastOperation = SLastOp kv'\<rparr>" by auto
  have p: "?p \<noteq> InvalidGid"
  proof
    assume "?p = InvalidGid"
    with kv'(1) inv(1) have "migration kv' n s = None"
      by (auto simp: base_inv_def skv_fresh_def migration_def)
    with d(1) show False by simp
  qed
  from moves_moved(1) [OF inv p kv'(1) d(1)] have "moved st n s d (SLastOp kv')" .
  moreover have "recorded (lin st) (SLastOp kv')" using inv(2) p kv'(1) by (simp add: moves_inv_def)
  moreover have "keys_in s d" using local_okD(14) [OF hist_ok(1) [OF inv(1) p kv'(1)] d(1)] .
  ultimately show ?thesis using ent by (simp add: c d(2))
qed

lemma gc_pool_ok:
  assumes inv: "base_inv home st" and kv: "kv \<in> set (hist st g)" "GCList kv n = Some S" "s \<in> S"
  shows "pool_ok st h (CGC \<lparr>gc_CfgNum = Num (ctrl_query (ctrl st) n), gc_Shard = s\<rparr>)"
proof -
  have g: "g \<noteq> InvalidGid"
  proof
    assume "g = InvalidGid"
    with inv kv show False by (auto simp: base_inv_def skv_fresh_def)
  qed
  note ok = local_okD [OF hist_ok(1) [OF inv g kv(1)]]
  from ok(15) [OF kv(2,3)] have ent: "1 \<le> n" "n + 1 < int (length (cfgs st))" "own (cfgs st) (n + 1) s = g"
    by (auto simp: enters_def)
  have "installed st s (n + 1)"
    using ok(16) [OF kv(2,3)] hist_ok(2) [OF inv g kv(1)] ent(3) by (auto simp: installed_def before_def)
  with ent query_at [OF inv, of n] show ?thesis by simp
qed

lemma local_ok_prefix:
  assumes "prefix C C'" "local_ok C g kv"
  shows "local_ok C' g kv"
proof -
  note ok = local_okD [OF assms(2)]
  have nth: "C' ! nat n = C ! nat n" if "0 \<le> n" "n < int (length C)" for n
    using assms(1) that by (auto simp: prefix_def nth_append nat_less_iff)
  have len: "int (length C) \<le> int (length C')" using assms(1) prefix_length_le by auto
  have ent: "enters C' g n s" if "enters C g n s" for n s
    using that nth [of n] nth [of "n + 1"] len by (auto simp: enters_def)
  have lea: "leaves C' g n s" if "leaves C g n s" for n s
    using that nth [of n] nth [of "n + 1"] len by (auto simp: leaves_def)
  have "config_at C' kv" using ok(2-4) nth len by (simp add: config_at_def)
  moreover have "pending_at C' g kv"
    using assms(2) ent lea unfolding local_ok_def pending_at_def by blast
  ultimately show ?thesis using assms(2) by (simp add: local_ok_def)
qed

lemma ctrl_growth:
  assumes inv: "base_inv home st" and op: "op_ok op" "join_ok home op" "rng_ok rng" "execOp rng op (ctrl st) = Inr sc"
  shows "ctrl_inv sc" "prefix (cfgs st) (configs sc)" "history_ok home (configs sc)"
proof -
  from inv have c: "ctrl_inv (ctrl st)" "history_ok home (cfgs st)" by (simp_all add: base_inv_def)
  have "distinct (map fst (ja_Servers a))" if "op = Join a" for a using op(2) that by simp
  with execOp_run [OF c(1) op(1,3)] op(4) have sc: "ctrl_inv sc" "configs sc = cfgs st \<or>
    (\<exists>c. configs sc = cfgs st @ [c] \<and> (\<forall>g names. map_of (Groups c) g = Some names \<longrightarrow>
      map_of (Groups (last (cfgs st))) g = Some names \<or>
      (\<exists>a. op = Join a \<and> map_of (ja_Servers a) g = Some names)))" by auto
  show "ctrl_inv sc" by (rule sc(1))
  from sc(2) show "prefix (cfgs st) (configs sc)" by auto
  from sc(2) show "history_ok home (configs sc)"
  proof (elim disjE exE conjE)
    fix c
    assume new: "configs sc = cfgs st @ [c]" "\<forall>g names. map_of (Groups c) g = Some names \<longrightarrow>
      map_of (Groups (last (cfgs st))) g = Some names \<or> (\<exists>a. op = Join a \<and> map_of (ja_Servers a) g = Some names)"
    have last: "names_ok home (Groups (last (cfgs st)))"
      using c(2) by (simp add: history_ok_def last_conv_nth)
    have "home srv = g" if "map_of (Groups c) g = Some names" "srv \<in> set names" for g names srv
      using new(2) [rule_format, OF that(1)]
    proof (elim disjE exE conjE)
      fix a assume "op = Join a" "map_of (ja_Servers a) g = Some names"
      with op(2) that(2) show ?thesis by (auto dest!: map_of_SomeD)
    qed (use last that(2) in \<open>simp add: names_ok_def\<close>)
    then have "names_ok home (Groups c)" by (simp add: names_ok_def)
    moreover have "Num c = int (length (cfgs st))"
      using sc(1) unfolding ctrl_inv_def new(1) by (auto dest!: spec [of _ "length (cfgs st)"])
    ultimately show ?thesis using c(2) unfolding new(1) history_ok_def by (auto simp: nth_append less_Suc_eq)
  qed (use c(2) in simp)
qed

lemma ctrl_inv_step:
  assumes inv: "sys_inv home st" and op: "op_ok op" "join_ok home op" "rng_ok rng" "execOp rng op (ctrl st) = Inr sc"
  shows "sys_inv home (st\<lparr>ctrl := sc\<rparr>)"
proof -
  let ?st' = "st\<lparr>ctrl := sc\<rparr>"
  from inv have i: "base_inv home st" "pool_inv st" "holds_inv st" "moves_inv st" "kept_inv st"
    "started_inv st" "history_inv st" by (simp_all add: sys_inv_def)
  note sc = ctrl_growth [OF i(1) op]
  have now: "now ?st' = now st" by (simp add: now_def fun_eq_iff)
  have grows: "grows st ?st'" using sc(2) by (simp add: grows_def now)
  have lins: "lin_step st ?st'" by (simp add: lin_step_def)
  have inst: "installed st s n" if "installed ?st' s n" "0 \<le> n" "n < int (length (cfgs st))" for s n
    using that(1) grows_own [OF grows that(2,3)] by (simp add: installed_def now)
  have "base_inv home ?st'"
    using i(1) sc(1,3) local_ok_prefix [OF sc(2)] by (simp add: base_inv_def now)
  moreover have "pool_inv ?st'"
    using i(2) pool_ok_step [OF i(1,3) grows lins] by (simp add: pool_inv_def)
  moreover have "holds_inv ?st'"
    using i(3) grows_handed [OF grows] holder(4) [OF i(1)] by (simp add: holds_inv_def now)
  moreover have "moves_inv ?st'"
    using i(4) moved_step [OF i(1,3) grows lins] moves_moved [OF i(1,4)] by (simp add: moves_inv_def)
  moreover have "kept_inv ?st'"
    unfolding kept_inv_def now
  proof (intro allI impI)
    fix g n s
    assume g: "g \<noteq> InvalidGid" and l: "leaves (cfgs ?st') g n s" "n < cnum st g" "\<not> installed ?st' s (n + 1)"
    have len: "n + 1 < int (length (cfgs st))" using local_okD(3) [OF now_ok(2) [OF i(1) g]] l(2) by simp
    with l(1) grows_own [OF grows, of n] grows_own [OF grows, of "n + 1"] have l': "leaves (cfgs st) g n s"
      by (auto simp: leaves_def)
    with l(3) len grows_installed [OF grows, of s "n + 1"] have "\<not> installed st s (n + 1)"
      by (auto simp: leaves_def)
    with i(5) g l' l(2) show "migration (now st g) n s \<noteq> None" by (simp add: kept_inv_def)
  qed
  moreover have "started_inv ?st'"
    using i(6) grows_installed [OF grows] prefix_length_le [OF sc(2)] unfolding started_inv_def by fastforce
  ultimately show ?thesis using i(7) by (simp add: sys_inv_def history_inv_def)
qed

lemma fresh_now: "sharded_init st \<Longrightarrow> \<exists>m. hist st g = [skv_fresh g m] \<and> now st g = skv_fresh g m"
  unfolding sharded_init_def now_def by (metis last_ConsL)

lemma fresh_ok:
  assumes "g \<noteq> InvalidGid"
  shows "local_ok [zeroConfig] g (skv_fresh g m)"
proof -
  have "SConfig (skv_fresh g m) = zeroConfig" "Num zeroConfig = 0" by (simp_all add: skv_fresh_def zeroConfig_def)
  with zeroConfig_owner assms show ?thesis
    by (auto simp: local_ok_def config_at_def shards_at_def pending_at_def migration_def)
      (auto simp: skv_fresh_def)
qed

lemma sys_inv_init:
  assumes "sharded_init st"
  shows "sys_inv home st"
proof -
  have now: "\<exists>m. hist st g = [skv_fresh g m] \<and> now st g = skv_fresh g m" for g by (rule fresh_now [OF assms])
  have my: "MyShards (now st g) = {}" "cnum st g = 0" for g
    using now [of g] by (auto simp: skv_fresh_def zeroConfig_def)
  have c: "cfgs st = [zeroConfig]" "pool st g = []" "lin st = []" "ctrl_inv (ctrl st)" for g
    using assms by (auto simp: sharded_init_def StartServer_def ctrl_inv_def zeroConfig_def config_ok_def NShards_def)
  have "history_ok home [zeroConfig]" by (simp add: history_ok_def names_ok_def zeroConfig_def)
  moreover have "local_ok [zeroConfig] g kv \<and> before kv (now st g)" if "g \<noteq> InvalidGid" "kv \<in> set (hist st g)" for g kv
    using now [of g] that fresh_ok by auto
  moreover have "hist st g \<noteq> []" for g using now [of g] by auto
  ultimately have "base_inv home st" using now [of InvalidGid] c(1,4) by (auto simp: base_inv_def)
  moreover have "pool_inv st" "holds_inv st" "started_inv st" "history_inv st"
    by (simp_all add: pool_inv_def holds_inv_def started_inv_def history_inv_def consistent_def shard_calls_def c my)
  moreover have "moves_inv st"
  proof -
    have "migration kv n s = None \<and> SLastOp kv = Map.empty" if "kv \<in> set (hist st g)" for g kv n s
      using now [of g] that by (auto simp: migration_def skv_fresh_def)
    then show ?thesis by (fastforce simp: moves_inv_def recorded_def)
  qed
  moreover have "kept_inv st" by (auto simp: kept_inv_def my leaves_def)
  ultimately show ?thesis by (simp add: sys_inv_def)
qed

lemma sys_inv_step:
  assumes "sys_inv home st" "shard_step home st st'"
  shows "sys_inv home st'"
  using assms(2)
proof (cases rule: shard_step.cases)
  case (step_ctrl op rng sc)
  with ctrl_inv_step [OF assms(1)] show ?thesis by simp
next
  case (step_client kv g op)
  with propose_inv [OF assms(1), of g "COp op"] show ?thesis by simp
next
  case (step_config kv g c isLeader)
  with propose_inv [OF assms(1)] config_pool_ok [of home st g kv c isLeader] assms(1) show ?thesis
    by (simp add: sys_inv_def)
next
  case (step_fetch kv g call c isLeader)
  with propose_inv [OF assms(1)] fetch_pool_ok [of home st g kv call c isLeader] assms(1) show ?thesis
    by (simp add: sys_inv_def)
next
  case (step_gc kv g n S s srv)
  with propose_inv [OF assms(1)] gc_pool_ok [of home st kv g n S s] assms(1) show ?thesis
    by (simp add: sys_inv_def)
next
  case (step_commit g c c' kv')
  with execCommand_after [of c st g c' kv'] commit_inv [OF assms(1)] show ?thesis by simp
qed

interpretation sharded_system: inductive_invariant sharded_init "shard_step home" "sys_inv home" for home
  by unfold_locales (simp_all add: sys_inv_init sys_inv_step)

section \<open>A scheduler\<close>

text \<open>Executable runs of the system: each move is one step, on the newest state of a group.\<close>

datatype sys_move =
    MCtrl CtrlOp | MClient gid SkvOp | MConfig gid | MFetch gid | MCommit gid

definition first_proposal :: "gid \<Rightarrow> SkvCommand list \<Rightarrow> sharded \<Rightarrow> sharded option" where
  "first_proposal g cs st = (case cs of [] \<Rightarrow> None | c # _ \<Rightarrow> Some (propose g c st))"

definition ask_newest :: "(string \<Rightarrow> gid) \<Rightarrow> sharded \<Rightarrow> string \<Rightarrow> MigrateShardArgs \<Rightarrow> MigrateShardReply option" where
  "ask_newest home st srv args = Some (MigrateShard True args (now st (home srv)))"

fun make_move :: "(string \<Rightarrow> gid) \<Rightarrow> sys_move \<Rightarrow> sharded \<Rightarrow> sharded option" where
  "make_move home (MCtrl op) st =
     (if op_ok op \<and> join_ok home op then (case execOp id op (ctrl st) of Inl _ \<Rightarrow> None | Inr sc \<Rightarrow> Some (st\<lparr>ctrl := sc\<rparr>))
      else None)"
| "make_move home (MClient g op) st =
     (if checkRightGroup (so_Key op) (now st g) \<and> so_OpType op \<noteq> ErrChangeGroup then Some (propose g (COp op) st) else None)"
| "make_move home (MConfig g) st = first_proposal g (queryConfig True (ctrl_query (ctrl st)) (now st g)) st"
| "make_move home (MFetch g) st =
     first_proposal g (tryReqShardData True (ctrl_query (ctrl st)) (ask_newest home st) (now st g)) st"
| "make_move home (MCommit g) st =
     (if g = InvalidGid then None
      else case pool st g of [] \<Rightarrow> None
      | c # _ \<Rightarrow> (case execCommand c (SLastApplied (now st g) + 1) (now st g) of
          Inl _ \<Rightarrow> None | Inr (c', kv') \<Rightarrow> Some (commit g c kv' st)))"

fun run_moves :: "(string \<Rightarrow> gid) \<Rightarrow> sys_move list \<Rightarrow> sharded \<Rightarrow> sharded option" where
  "run_moves home [] st = Some st"
| "run_moves home (mv # mvs) st = Option.bind (make_move home mv st) (run_moves home mvs)"

definition sharded_boot :: sharded where
  "sharded_boot = \<lparr>ctrl = StartServer, hist = (\<lambda>g. [skv_fresh g (-1)]), pool = (\<lambda>g. []), lin = []\<rparr>"

lemma newest_in_hist: "base_inv home st \<Longrightarrow> now st g \<in> set (hist st g)"
  using now_ok(1) [of home st g] by (cases "g = InvalidGid") (auto simp: base_inv_def now_def)

lemma make_move_step:
  assumes "base_inv home st" "make_move home mv st = Some st'"
  shows "shard_step home st st'"
proof -
  note new = newest_in_hist [OF assms(1)]
  have ask: "answers home st (ask_newest home st)" using new by (auto simp: answers_def ask_newest_def)
  have first: "\<exists>c \<in> set cs. x = propose g c st" if "first_proposal g cs st = Some x" for g cs x
    using that by (cases cs) (auto simp: first_proposal_def)
  have id: "rng_ok id" by (simp add: rng_ok_def)
  show ?thesis
  proof (cases mv)
    case (MCtrl op)
    with assms(2) show ?thesis by (auto split: if_splits sum.splits intro: step_ctrl [OF _ _ id])
  next
    case (MClient g op)
    with assms(2) show ?thesis by (auto split: if_splits intro: step_client [OF new])
  next
    case (MConfig g)
    with assms(2) show ?thesis by (auto dest!: first intro: step_config [OF new])
  next
    case (MFetch g)
    with assms(2) show ?thesis by (auto dest!: first intro: step_fetch [OF new ask])
  next
    case (MCommit g)
    with assms(2) show ?thesis by (auto split: if_splits list.splits sum.splits intro: step_commit)
  qed
qed

lemma run_moves_reach:
  assumes "run_moves home mvs st = Some st'" "sharded_reach home st"
  shows "sharded_reach home st'"
  using assms
proof (induction mvs arbitrary: st)
  case (Cons mv mvs)
  then obtain st1 where st1: "make_move home mv st = Some st1" "run_moves home mvs st1 = Some st'"
    by (cases "make_move home mv st") auto
  have "base_inv home st" using sharded_system.inv_reach [OF Cons.prems(2)] by (simp add: sys_inv_def)
  from reach_step [OF Cons.prems(2) make_move_step [OF this st1(1)]] Cons.IH [OF st1(2)] show ?case by blast
qed simp

lemma sharded_boot_reach:
  assumes "run_moves home mvs sharded_boot = Some st"
  shows "sharded_reach home st"
  by (rule run_moves_reach [OF assms reach_init]) (auto simp: sharded_init_def sharded_boot_def)

text \<open>Group 1 joins and stores a value, group 2 joins, takes over half of the shards and answers for the key.\<close>

definition sample_home :: "string \<Rightarrow> gid" where
  "sample_home srv = (if srv = ''a'' then 1 else 2)"

definition sample_join :: "int \<Rightarrow> gid \<Rightarrow> string \<Rightarrow> sys_move" where
  "sample_join n g srv = MCtrl (Join \<lparr>ja_Identifier = \<lparr>ClientId = 5, CallId = n\<rparr>, ja_Servers = [(g, [srv])]\<rparr>)"

definition sample_op :: "SkvOpType \<Rightarrow> int \<Rightarrow> SkvOp" where
  "sample_op t n = \<lparr>so_OpType = t, so_ClientId = 7, so_CallId = n, so_Key = ''k'', so_Value = ''v''\<rparr>"

definition sample_moves :: "sys_move list" where
  "sample_moves = [sample_join 0 1 ''a'', MConfig 1, MCommit 1, MConfig 2, MCommit 2,
     MClient 1 (sample_op SPut 0), MCommit 1, sample_join 1 2 ''b'', MConfig 1, MCommit 1, MConfig 2, MCommit 2,
     MFetch 2, MCommit 2]"

text \<open>The same, until group 2 has received the shard of the key and executed a Get.\<close>

definition sample_moves2 :: "sys_move list" where
  "sample_moves2 = sample_moves @ [MFetch 2, MCommit 2, MFetch 2, MCommit 2, MClient 2 (sample_op SPut 0), MCommit 2,
     MClient 2 (sample_op SGet 1), MCommit 2]"

definition sample_state :: "sys_move list \<Rightarrow> sharded" where
  "sample_state mvs = the (run_moves sample_home mvs sharded_boot)"

lemma sample_reachI:
  assumes "\<not> Option.is_none (run_moves sample_home mvs sharded_boot)"
  shows "sharded_reach sample_home (sample_state mvs)"
  using assms sharded_boot_reach by (cases "run_moves sample_home mvs sharded_boot") (auto simp: sample_state_def)

lemma sample_reach:
  "sharded_reach sample_home (sample_state sample_moves)" "sharded_reach sample_home (sample_state sample_moves2)"
  by (rule sample_reachI, code_simp)+

section \<open>What the sharded service guarantees\<close>

text \<open>
  C2: exclusive ownership. In every reachable state of controller, groups and messages in flight, no
  shard is served by two groups at once.
\<close>

theorem exclusive_ownership:
  assumes "sharded_reach home st" "g \<noteq> InvalidGid" "h \<noteq> InvalidGid" "g \<noteq> h"
  shows "MyShards (now st g) \<inter> MyShards (now st h) = {}"
proof -
  have "sys_inv home st" by (rule sharded_system.inv_reach [OF assms(1)])
  then have "base_inv home st" "holds_inv st" by (simp_all add: sys_inv_def)
  from exclusive [OF this assms(2,3)] assms(4) show ?thesis by blast
qed

theorem exclusive_ownership_witness:
  "MyShards (now (sample_state sample_moves) 1) = {0, 1, 2, 3, 4} \<and> MyShards (now (sample_state sample_moves) 2) = {5} \<and>
   MyShards (now (sample_state sample_moves) 1) \<inter> MyShards (now (sample_state sample_moves) 2) = {}"
proof -
  have "MyShards (now (sample_state sample_moves) 1) = {0, 1, 2, 3, 4} \<and> MyShards (now (sample_state sample_moves) 2) = {5}"
    by code_simp
  moreover have "MyShards (now (sample_state sample_moves) 1) \<inter> MyShards (now (sample_state sample_moves) 2) = {}"
    by (rule exclusive_ownership [OF sample_reach(1)]) (simp_all add: InvalidGid_def)
  ultimately show ?thesis by blast
qed

text \<open>The events of a history as inputs and outputs of the sequential model.\<close>

definition lin_input :: "SkvOp \<Rightarrow> KvInput" where
  "lin_input op = \<lparr>ki_Op = (case so_OpType op of SGet \<Rightarrow> 0 | SPut \<Rightarrow> 1 | SAppend \<Rightarrow> 2 | ErrChangeGroup \<Rightarrow> 3),
     ki_Key = so_Key op, ki_Value = so_Value op\<rparr>"

definition key_history :: "string \<Rightarrow> (SkvOp \<times> string) list \<Rightarrow> (KvInput \<times> KvOutput) list" where
  "key_history k l = map (\<lambda>(op, r). (lin_input op, \<lparr>ko_Value = r\<rparr>)) (filter (\<lambda>(op, r). so_Key op = k) l)"

fun model_final :: "string \<Rightarrow> (KvInput \<times> KvOutput) list \<Rightarrow> string" where
  "model_final v [] = v"
| "model_final v ((i, out) # h) = model_final (snd (KvModel_Step v i out)) h"

lemma model_snoc:
  "model_accepts v (h @ [(i, out)]) \<longleftrightarrow> model_accepts v h \<and> fst (KvModel_Step (model_final v h) i out)"
  "model_final v (h @ [(i, out)]) = snd (KvModel_Step (model_final v h) i out)"
  by (induction h arbitrary: v) (auto split: prod.splits)

definition store_value :: "(string \<rightharpoonup> string) \<Rightarrow> string \<Rightarrow> string" where
  "store_value d k = (case d k of Some v \<Rightarrow> v | None \<Rightarrow> '''')"

lemma store_op_model:
  assumes "so_OpType op \<noteq> ErrChangeGroup"
  shows "KvModel_Step (store_value d (so_Key op)) (lin_input op) \<lparr>ko_Value = op_result op d\<rparr> =
    (True, store_value (store_op op d) (so_Key op))"
  using assms
  by (cases "so_OpType op")
    (auto simp: KvModel_Step_def lin_input_def op_result_def store_op_def store_value_def)

lemma consistent_snocD:
  assumes "consistent (l @ [(op, r)])"
  shows "consistent l" "r = op_result op (replay l)"
proof -
  from assms have all: "\<And>i. i < Suc (length l) \<Longrightarrow>
    snd ((l @ [(op, r)]) ! i) = op_result (fst ((l @ [(op, r)]) ! i)) (replay (take i (l @ [(op, r)])))"
    by (simp add: consistent_def)
  show "consistent l" unfolding consistent_def
  proof (intro allI impI)
    fix i assume "i < length l"
    with all [of i] show "snd (l ! i) = op_result (fst (l ! i)) (replay (take i l))" by (simp add: nth_append)
  qed
  show "r = op_result op (replay l)" using all [of "length l"] by simp
qed

lemma consistent_legal:
  assumes "consistent l" "\<And>op r. (op, r) \<in> set l \<Longrightarrow> so_OpType op \<noteq> ErrChangeGroup"
  shows "model_accepts KvModel_Init (key_history k l) \<and> model_final KvModel_Init (key_history k l) = store_value (replay l) k"
  using assms
proof (induction l rule: rev_induct)
  case Nil
  show ?case by (simp add: key_history_def store_value_def KvModel_Init_def)
next
  case (snoc x l)
  obtain op r where x: "x = (op, r)" by fastforce
  note cons = consistent_snocD [OF snoc.prems(1) [unfolded x]]
  have IH: "model_accepts KvModel_Init (key_history k l)"
    "model_final KvModel_Init (key_history k l) = store_value (replay l) k"
    using snoc.IH [OF cons(1)] snoc.prems(2) by auto
  show ?case
  proof (cases "so_Key op = k")
    case True
    then have h: "key_history k (l @ [x]) = key_history k l @ [(lin_input op, \<lparr>ko_Value = r\<rparr>)]"
      by (simp add: key_history_def x)
    have "so_OpType op \<noteq> ErrChangeGroup" using snoc.prems(2) by (auto simp: x)
    from store_op_model [OF this, of "replay l"] True IH cons(2) show ?thesis
      unfolding h model_snoc by (simp add: x)
  next
    case False
    then have h: "key_history k (l @ [x]) = key_history k l" by (simp add: key_history_def x)
    from IH False store_op_other [of k op "replay l"] show ?thesis unfolding h by (simp add: x store_value_def)
  qed
qed

text \<open>
  C1: the groups together implement one sequential store. In every reachable state the sequential
  model of \<^verbatim>\<open>models/kv.go\<close> accepts, for each key, the operations that took effect anywhere in the
  system in the order in which they did, with the results the servers recorded, and the group that
  serves the key holds the value the model ends with, also after the shard has moved.
\<close>

theorem sharded_refines_kv:
  assumes "sharded_reach home st"
  shows "model_accepts KvModel_Init (key_history k (lin st)) \<and>
    (\<forall>g. g \<noteq> InvalidGid \<longrightarrow> key2shard k \<in> MyShards (now st g) \<longrightarrow>
      skv_value (now st g) k = model_final KvModel_Init (key_history k (lin st)))"
proof -
  have inv: "sys_inv home st" by (rule sharded_system.inv_reach [OF assms])
  then have "consistent (lin st)" "started_inv st" by (simp_all add: sys_inv_def history_inv_def)
  with consistent_legal [of "lin st" k]
  have legal: "model_accepts KvModel_Init (key_history k (lin st)) \<and>
      model_final KvModel_Init (key_history k (lin st)) = store_value (replay (lin st)) k"
    by (fastforce simp: started_inv_def)
  moreover have "skv_value (now st g) k = store_value (replay (lin st)) k"
    if "g \<noteq> InvalidGid" "key2shard k \<in> MyShards (now st g)" for g
    using inv that by (simp add: sys_inv_def holds_inv_def covers_def skv_value_def store_value_def)
  ultimately show ?thesis by simp
qed

theorem sharded_refines_kv_witness:
  "lin (sample_state sample_moves2) = [(sample_op SPut 0, ''''), (sample_op SGet 1, ''v'')] \<and>
   skv_value (now (sample_state sample_moves2) 2) ''k'' = ''v'' \<and>
   model_final KvModel_Init (key_history ''k'' (lin (sample_state sample_moves2))) = ''v'' \<and>
   model_accepts KvModel_Init (key_history ''k'' (lin (sample_state sample_moves2)))"
proof -
  have "key2shard ''k'' \<in> MyShards (now (sample_state sample_moves2) 2)" by code_simp
  with sharded_refines_kv [OF sample_reach(2), of "''k''"]
  have "skv_value (now (sample_state sample_moves2) 2) ''k'' =
      model_final KvModel_Init (key_history ''k'' (lin (sample_state sample_moves2)))"
    "model_accepts KvModel_Init (key_history ''k'' (lin (sample_state sample_moves2)))" by (simp_all add: InvalidGid_def)
  moreover have "lin (sample_state sample_moves2) = [(sample_op SPut 0, ''''), (sample_op SGet 1, ''v'')]"
    "skv_value (now (sample_state sample_moves2) 2) ''k'' = ''v''" by code_simp+
  ultimately show ?thesis by simp
qed

text \<open>
  C7: exactly once across groups. In every reachable state the calls of one client on one shard took
  effect in strictly increasing order of their ids, wherever they were executed; a call that is
  retried at the new owner of the shard is not executed again.
\<close>

theorem sharded_exactly_once:
  assumes "sharded_reach home st"
  shows "sorted_wrt (<) (shard_calls c s (lin st))"
  using sharded_system.inv_reach [OF assms] by (simp add: sys_inv_def history_inv_def)

theorem sharded_exactly_once_witness:
  "shard_calls 7 7 (lin (sample_state sample_moves2)) = [0, 1] \<and>
   sorted_wrt (<) (shard_calls 7 7 (lin (sample_state sample_moves2)))"
proof
  show "shard_calls 7 7 (lin (sample_state sample_moves2)) = [0, 1]" by code_simp
  show "sorted_wrt (<) (shard_calls 7 7 (lin (sample_state sample_moves2)))"
    by (rule sharded_exactly_once [OF sample_reach(2)])
qed

text \<open>
  C19: no shard is lost on the way. When a group waits for a shard and the former owner has executed
  the same configuration, a leader of the former owner answers the request, with the data the
  abstract store has for the shard; garbage collection never removes it before.
\<close>

theorem waiting_shard_available:
  assumes reach: "sharded_reach home st" and g: "g \<noteq> InvalidGid"
    and wait: "map_of (ShardDataReqs (now st g)) s = Some n"
    and p: "p = owner (cfgs st ! nat n) s" "p \<noteq> InvalidGid" "cfg_num (now st g) \<le> cfg_num (now st p)"
  shows "\<exists>d. MigrateShard True \<lparr>mg_ConfigNum = n, mg_Shard = s\<rparr> (now st p) =
      \<lparr>mr_ConfigNum = n, mr_Shard = s, mr_ErrWrongLeader = False, mr_Data = d, mr_LastOperation = SLastOp (now st p)\<rparr> \<and>
    (\<forall>k. key2shard k = s \<longrightarrow> d k = replay (lin st) k)"
proof -
  have inv: "base_inv home st" "moves_inv st" "kept_inv st"
    using sharded_system.inv_reach [OF reach] by (simp_all add: sys_inv_def)
  note ok = local_okD [OF now_ok(2) [OF inv(1) g]]
  have n: "n = cnum st g - 1" and ent: "enters (cfgs st) g n s" using ok(10,11) wait by simp_all
  have "s \<notin> MyShards (now st g)" using ok(7) [of s] wait by auto
  with ent n have no: "\<not> installed st s (n + 1)" by (simp add: installed_def enters_def)
  from ent p(1) have "leaves (cfgs st) p n s" by (auto simp: enters_def leaves_def)
  with inv(3) p(2,3) n no obtain d where d: "migration (now st p) n s = Some d"
    unfolding kept_inv_def by fastforce
  from moves_moved(1) [OF inv(1,2) p(2) now_ok(1) [OF inv(1) p(2)] d] no
  have "covers (lin st) s d (SLastOp (now st p))" by (simp add: moved_def)
  moreover have "MigrateShard True \<lparr>mg_ConfigNum = n, mg_Shard = s\<rparr> (now st p) =
      \<lparr>mr_ConfigNum = n, mr_Shard = s, mr_ErrWrongLeader = False, mr_Data = d, mr_LastOperation = SLastOp (now st p)\<rparr>"
    using d p(3) n by (auto simp: MigrateShard_def migration_def cloneDataAndLastOperation_def
        split: option.splits Option.bind_splits)
  ultimately show ?thesis by (auto simp: covers_def)
qed

theorem waiting_shard_available_witness:
  "\<exists>d. MigrateShard True \<lparr>mg_ConfigNum = 1, mg_Shard = 7\<rparr> (now (sample_state sample_moves) 1) =
      \<lparr>mr_ConfigNum = 1, mr_Shard = 7, mr_ErrWrongLeader = False, mr_Data = d,
       mr_LastOperation = SLastOp (now (sample_state sample_moves) 1)\<rparr> \<and>
    d ''k'' = replay (lin (sample_state sample_moves)) ''k'' \<and> d ''k'' = Some ''v''"
proof -
  let ?st = "sample_state sample_moves"
  have w: "map_of (ShardDataReqs (now ?st 2)) 7 = Some 1" "owner (cfgs ?st ! nat 1) 7 = 1"
    "cfg_num (now ?st 2) \<le> cfg_num (now ?st 1)" by code_simp+
  have "2 \<noteq> InvalidGid" "1 \<noteq> InvalidGid" by (simp_all add: InvalidGid_def)
  from waiting_shard_available [OF sample_reach(1) this(1) w(1) refl, unfolded w(2), OF this(2) w(3)]
  obtain d where d: "MigrateShard True \<lparr>mg_ConfigNum = 1, mg_Shard = 7\<rparr> (now ?st 1) =
      \<lparr>mr_ConfigNum = 1, mr_Shard = 7, mr_ErrWrongLeader = False, mr_Data = d, mr_LastOperation = SLastOp (now ?st 1)\<rparr>"
    "\<forall>k. key2shard k = 7 \<longrightarrow> d k = replay (lin ?st) k" by blast
  have "key2shard ''k'' = 7" "replay (lin ?st) ''k'' = Some ''v''" by code_simp+
  with d show ?thesis by auto
qed

text \<open>
  C20: what a successful answer means. When the Get handler of a server of a group, called in one state
  of the group and returning in another, answers OK with a value, the history of the system contains
  a call with the client id and call id of the request and this value as its result.
\<close>

theorem sharded_Get_linearized:
  assumes reach: "sharded_reach home st" and g: "g \<noteq> InvalidGid"
    and kv: "kv \<in> set (hist st g)" "kv' \<in> set (hist st g)"
    and ok: "skv_Get args kv start recv kv' = (SOK, v)"
  shows "\<exists>op. (op, v) \<in> set (lin st) \<and> so_ClientId op = ClientId (sga_Identifier args) \<and>
    so_CallId op = CallId (sga_Identifier args)"
proof -
  from ok obtain l where "SLastOp kv' (ClientId (sga_Identifier args)) = Some l"
    "sl_CallId l = CallId (sga_Identifier args)" "sl_Result l = v"
    by (auto simp: skv_Get_def skv_serve_def skv_answer_def split: if_splits prod.splits option.splits SkvCommand.splits)
  moreover have "recorded (lin st) (SLastOp kv')"
    using sharded_system.inv_reach [OF reach] g kv(2) by (simp add: sys_inv_def moves_inv_def)
  ultimately show ?thesis unfolding recorded_def by fastforce
qed

theorem sharded_Get_linearized_witness:
  "\<exists>op. (op, ''v'') \<in> set (lin (sample_state sample_moves2)) \<and> so_ClientId op = 7 \<and> so_CallId op = 1"
proof -
  let ?st = "sample_state sample_moves2" and ?a = "\<lparr>sga_Key = ''k'', sga_Identifier = \<lparr>ClientId = 7, CallId = 1\<rparr>\<rparr>"
  have "base_inv sample_home ?st"
    using sharded_system.inv_reach [OF sample_reach(2)] by (simp add: sys_inv_def)
  note h = newest_in_hist [OF this, of 2]
  have "skv_Get ?a (now ?st 2) (\<lambda>_. (1, 1, True)) (\<lambda>_. COp (sample_op SGet 1)) (now ?st 2) = (SOK, ''v'')"
    by code_simp
  from sharded_Get_linearized [OF sample_reach(2) _ h h this] show ?thesis by (simp add: InvalidGid_def)
qed

end
