(* ===== verification/ShardKvStuck.thy ===== *)
theory ShardKvStuck
  imports ShardKvCorrect
begin

text \<open>
  A group of the sharded service that waits for ever. When the configuration before the current one gave
  the shards of a group to nobody, there is no server to ask for their data: whatever happens in the
  system afterwards, the group serves none of its shards and takes no new configuration.
\<close>

section \<open>Waiting\<close>

text \<open>
  A server of a group that has taken configuration \<open>N\<close>, serves nothing and asks for the shards \<open>R\<close> of the
  configuration before, and a server that is still before configuration \<open>N\<close>.
\<close>

definition waits :: "(int \<times> int) list \<Rightarrow> Config \<Rightarrow> ShardKV \<Rightarrow> bool" where
  "waits R C kv \<longleftrightarrow> SConfig kv = C \<and> MyShards kv = {} \<and> ShardDataReqs kv = R"

definition early :: "Config \<Rightarrow> ShardKV \<Rightarrow> bool" where
  "early C kv \<longleftrightarrow> Num (SConfig kv) < Num C \<and> MyShards kv = {} \<and> (\<forall>(s, n) \<in> set (ShardDataReqs kv). 0 \<le> n \<and> n < Num C - 1)"

text \<open>Commands that do not end the waiting.\<close>

fun harmless :: "Config \<Rightarrow> SkvCommand \<Rightarrow> bool" where
  "harmless C (CConfig c) \<longleftrightarrow> Num c \<le> Num C"
| "harmless C (CMigrate m) \<longleftrightarrow> mr_ConfigNum m < Num C - 1"
| "harmless C (CGC g) \<longleftrightarrow> True"
| "harmless C (COp op) \<longleftrightarrow> True"

text \<open>Nobody owned the shards \<open>R\<close> in the configuration they are asked from.\<close>

definition stuck :: "gid \<Rightarrow> (int \<times> int) list \<Rightarrow> Config \<Rightarrow> sharded \<Rightarrow> bool" where
  "stuck g R C st \<longleftrightarrow> ctrl_inv (ctrl st) \<and> Num C \<le> int (length (cfgs st)) \<and> R \<noteq> [] \<and>
     (\<forall>(s, n) \<in> set R. 0 \<le> n \<and> n = Num C - 1 \<and> owner_servers (cfgs st ! nat n) s = []) \<and>
     hist st g \<noteq> [] \<and> waits R C (now st g) \<and> (\<forall>kv \<in> set (hist st g). early C kv \<or> waits R C kv) \<and>
     (\<forall>c \<in> set (pool st g). harmless C c)"

lemma ctrl_query_in: "0 \<le> n \<Longrightarrow> n < int (length (configs sc)) \<Longrightarrow> ctrl_query sc n = configs sc ! nat n"
  by (simp add: ctrl_query_def)

lemma request_nobody: "owner_servers (query n) s = [] \<Longrightarrow> request_shard query call (s, n) = []"
  by (simp add: request_shard_def Let_def)

lemma stuck_asks_nobody:
  assumes "stuck g R C st"
  shows "concat (map (request_shard (ctrl_query (ctrl st)) call) R) = []"
proof -
  have "request_shard (ctrl_query (ctrl st)) call x = []" if "x \<in> set R" for x
  proof (cases x)
    case (Pair s n)
    with assms that have "0 \<le> n" "n < int (length (cfgs st))" "owner_servers (cfgs st ! nat n) s = []"
      by (auto simp: stuck_def)
    then show ?thesis using Pair by (simp add: request_nobody ctrl_query_in)
  qed
  then show ?thesis by simp
qed

lemma fetched_num:
  assumes "answers home st call" "c \<in> set (request_shard query call (s, n))"
  shows "\<exists>m. c = CMigrate m \<and> mr_ConfigNum m = Num (query n)"
proof -
  from assms(2) obtain m where c: "c = CMigrate m"
    "first_reply (\<lambda>srv. call srv \<lparr>mg_ConfigNum = Num (query n), mg_Shard = s\<rparr>) (\<lambda>r. \<not> mr_ErrWrongLeader r)
      (owner_servers (query n) s) = Some m"
    by (auto simp: request_shard_def Let_def split: option.splits)
  from first_reply_SomeD [OF c(2)] obtain srv where srv: "\<not> mr_ErrWrongLeader m"
    "call srv \<lparr>mg_ConfigNum = Num (query n), mg_Shard = s\<rparr> = Some m" by blast
  with assms(1) obtain isLeader kv where "m = MigrateShard isLeader \<lparr>mg_ConfigNum = Num (query n), mg_Shard = s\<rparr> kv"
    unfolding answers_def by blast
  with MigrateShard_success srv(1) c(1) show ?thesis by fastforce
qed

section \<open>No step ends the waiting\<close>

lemma fetch_harmless:
  assumes st: "stuck g R C st" and kv: "kv \<in> set (hist st g)" and call: "answers home st call"
    and c: "c \<in> set (tryReqShardData isLeader (ctrl_query (ctrl st)) call kv)"
  shows "harmless C c"
proof (cases "waits R C kv")
  case True
  with stuck_asks_nobody [OF st, of call] c show ?thesis by (auto simp: tryReqShardData_def waits_def split: if_splits)
next
  case False
  then have e: "early C kv" using st kv by (auto simp: stuck_def)
  from c obtain s n where sn: "(s, n) \<in> set (ShardDataReqs kv)" "c \<in> set (request_shard (ctrl_query (ctrl st)) call (s, n))"
    by (auto simp: tryReqShardData_def split: if_splits)
  have n: "0 \<le> n" "n < Num C - 1" using e sn(1) by (auto simp: early_def)
  then have "n < int (length (cfgs st))" "nat n < length (cfgs st)" using st by (auto simp: stuck_def)
  then have "Num (ctrl_query (ctrl st) n) = n" using st n(1) by (simp add: ctrl_query_in stuck_def ctrl_inv_def)
  with fetched_num [OF call sn(2)] n show ?thesis by auto
qed

lemma config_harmless:
  assumes "stuck g R C st" "kv \<in> set (hist st g)" "c \<in> set (queryConfig isLeader query kv)"
  shows "harmless C c"
  using assms by (fastforce simp: stuck_def waits_def early_def queryConfig_def Let_def split: if_splits)

lemma harmless_run:
  assumes "harmless C c" "waits R C kv" "R \<noteq> []"
  shows "waits R C (snd (run_command c kv))"
proof (cases c)
  case (CConfig x)
  with assms show ?thesis by (simp add: waits_def execApplyConfig_def)
next
  case (CMigrate m)
  with assms show ?thesis by (simp add: waits_def execMigrationDataSync_def)
next
  case (CGC g)
  then show ?thesis using assms(2) by (auto simp: waits_def execGC_def Let_def split: option.splits)
next
  case (COp op)
  then show ?thesis using assms(2) by (auto simp: waits_def execClientOp_def Let_def split: option.splits)
qed

lemma stuck_propose: "stuck g R C st \<Longrightarrow> h = g \<longrightarrow> harmless C c \<Longrightarrow> stuck g R C (propose h c st)"
  by (auto simp: stuck_def)

lemma stuck_step:
  assumes st: "stuck g R C st" and step: "shard_step home st st'"
  shows "stuck g R C st'"
  using step
proof (cases rule: shard_step.cases)
  case (step_ctrl op rng sc)
  have "\<And>a. op = Join a \<Longrightarrow> distinct (map fst (ja_Servers a))" using step_ctrl by auto
  from execOp_run [OF _ step_ctrl(2) step_ctrl(4) this, of "ctrl st"] step_ctrl(5) st have
    sc: "ctrl_inv sc" "configs sc = cfgs st \<or> (\<exists>c. configs sc = cfgs st @ [c])" by (auto simp: stuck_def)
  have nth: "configs sc ! nat n = cfgs st ! nat n" if "0 \<le> n" "n = Num C - 1" for n
    using that sc(2) st by (auto simp: stuck_def nth_append)
  have "Num C \<le> int (length (configs sc))" using sc(2) st by (auto simp: stuck_def)
  with st sc(1) nth step_ctrl(1) show ?thesis by (auto simp: stuck_def now_def)
next
  case (step_client kv h op)
  with st show ?thesis by (auto intro!: stuck_propose)
next
  case (step_config kv h c isLeader)
  with st config_harmless show ?thesis by (auto intro!: stuck_propose)
next
  case (step_fetch kv h call c isLeader)
  with st fetch_harmless show ?thesis by (auto intro!: stuck_propose)
next
  case (step_gc kv h n S s srv)
  with st show ?thesis by (auto intro!: stuck_propose)
next
  case (step_commit h c c' kv')
  show ?thesis
  proof (cases "h = g")
    case True
    have "kv' = snd (run_command c ((now st g)\<lparr>SLastApplied := SLastApplied (now st g) + 1\<rparr>))"
      using step_commit(4) True by (simp add: execCommand_def split: if_splits)
    moreover have "waits R C ((now st g)\<lparr>SLastApplied := SLastApplied (now st g) + 1\<rparr>)" using st by (simp add: stuck_def waits_def)
    ultimately have "waits R C kv'" using harmless_run step_commit(3) True st by (auto simp: stuck_def)
    with st step_commit(1) True show ?thesis by (auto simp: stuck_def now_def commit_def)
  next
    case False
    with st step_commit(1) show ?thesis by (auto simp: stuck_def now_def commit_def)
  qed
qed

section \<open>Gaining shards from nobody\<close>

text \<open>Group 1 joins and leaves again, then group 2 joins.\<close>

definition rejoin_moves :: "sys_move list" where
  "rejoin_moves = [sample_join 0 1 ''a'', MCtrl (Leave \<lparr>la_Identifier = \<lparr>ClientId = 5, CallId = 1\<rparr>, la_GIDs = [1]\<rparr>),
     sample_join 2 2 ''b'', MConfig 2, MCommit 2, MConfig 2, MCommit 2, MConfig 2, MCommit 2]"

definition all_requests :: "(int \<times> int) list" where
  "all_requests = map (\<lambda>s. (s, 2)) [0, 1, 2, 3, 4, 5, 6, 7, 8, 9]"

lemma rejoin_reach: "sharded_reach sample_home (sample_state rejoin_moves)"
  by (rule sample_reachI) code_simp

lemma run_moves_append:
  "run_moves home (xs @ ys) st = Option.bind (run_moves home xs st) (run_moves home ys)"
  by (induction xs arbitrary: st) (auto split: Option.bind_splits)

lemma rejoin_stuck: "stuck 2 all_requests (cfgs (sample_state rejoin_moves) ! 3) (sample_state rejoin_moves)"
proof -
  let ?st = "sample_state rejoin_moves" and ?C = "cfgs (sample_state rejoin_moves) ! 3"
  have "ctrl_inv (ctrl ?st)" using sharded_system.inv_reach [OF rejoin_reach] by (simp add: sys_inv_def base_inv_def)
  moreover have "Num ?C \<le> int (length (cfgs ?st))" "hist ?st 2 \<noteq> []" "waits all_requests ?C (now ?st 2)"
    "\<forall>kv \<in> set (hist ?st 2). early ?C kv \<or> waits all_requests ?C kv" "\<forall>c \<in> set (pool ?st 2). harmless ?C c"
    "\<forall>(s, n) \<in> set all_requests. 0 \<le> n \<and> n = Num ?C - 1 \<and> owner_servers (cfgs ?st ! nat n) s = []" "all_requests \<noteq> []"
    by code_simp+
  ultimately show ?thesis unfolding stuck_def by blast
qed

text \<open>
  C39: a group that gains its shards from no group waits for ever. Group 1 has joined and left, and then
  group 2 has joined and taken the new configuration, which gives it every shard. In every state that
  the system may reach from there, by any steps of the controller, the clients and the groups, no
  server of group 2 serves any key, the group still has the same configuration, its leader asks for no
  newer one, and its requests for the data of the shards find no server to ask.
\<close>

theorem gained_from_nobody_stuck:
  assumes "(shard_step sample_home)\<^sup>*\<^sup>* (sample_state rejoin_moves) st"
  shows "sharded_reach sample_home st \<and> Shards (SConfig (now st 2)) = replicate NShards 2 \<and> Num (SConfig (now st 2)) = 3 \<and>
    (\<forall>kv \<in> set (hist st 2). \<forall>key. \<not> checkRightGroup key kv) \<and>
    (\<forall>isLeader query. queryConfig isLeader query (now st 2) = []) \<and>
    (\<forall>isLeader call. tryReqShardData isLeader (ctrl_query (ctrl st)) call (now st 2) = [])"
proof -
  let ?C = "cfgs (sample_state rejoin_moves) ! 3"
  from assms have st: "sharded_reach sample_home st \<and> stuck 2 all_requests ?C st"
    by (induction rule: rtranclp_induct) (auto intro: rejoin_reach rejoin_stuck reach_step stuck_step)
  have C: "Shards ?C = replicate NShards 2" "Num ?C = 3" by code_simp+
  have now: "waits all_requests ?C (now st 2)" and all: "\<forall>kv \<in> set (hist st 2). early ?C kv \<or> waits all_requests ?C kv"
    using st by (simp_all add: stuck_def)
  have "tryReqShardData isLeader (ctrl_query (ctrl st)) call (now st 2) = []" for isLeader call
    using stuck_asks_nobody [of 2 all_requests ?C st call] st now by (simp add: tryReqShardData_def waits_def)
  moreover have "queryConfig isLeader query (now st 2) = []" for isLeader query
    using now by (simp add: queryConfig_def waits_def all_requests_def)
  moreover have "\<not> checkRightGroup key kv" if "kv \<in> set (hist st 2)" for kv key
    using all that by (auto simp: checkRightGroup_def early_def waits_def)
  ultimately show ?thesis using st now C by (simp add: waits_def)
qed

text \<open>The state after group 1 has joined again, with a configuration that group 2 never takes.\<close>

theorem gained_from_nobody_stuck_witness:
  "length (cfgs (sample_state (rejoin_moves @ [sample_join 3 1 ''a'']))) = 5 \<and>
   Num (SConfig (now (sample_state (rejoin_moves @ [sample_join 3 1 ''a''])) 2)) = 3 \<and>
   (\<forall>key. \<not> checkRightGroup key (now (sample_state (rejoin_moves @ [sample_join 3 1 ''a''])) 2))"
proof -
  let ?m = "sample_join 3 1 ''a''" and ?st = "sample_state rejoin_moves"
  let ?st' = "sample_state (rejoin_moves @ [?m])"
  have "\<not> Option.is_none (run_moves sample_home (rejoin_moves @ [?m]) sharded_boot)" by code_simp
  then have "run_moves sample_home (rejoin_moves @ [?m]) sharded_boot = Some ?st'"
    by (cases "run_moves sample_home (rejoin_moves @ [?m]) sharded_boot") (simp_all add: sample_state_def)
  then have "make_move sample_home ?m ?st = Some ?st'"
    by (simp add: run_moves_append sample_state_def split: Option.bind_splits)
  then have "shard_step sample_home ?st ?st'"
    using make_move_step sharded_system.inv_reach [OF rejoin_reach] by (auto simp: sys_inv_def)
  from gained_from_nobody_stuck [OF r_into_rtranclp, of ?st', OF this]
  have s: "sharded_reach sample_home ?st'" "Num (SConfig (now ?st' 2)) = 3" "\<forall>kv \<in> set (hist ?st' 2). \<forall>key. \<not> checkRightGroup key kv"
    by blast+
  have "now ?st' 2 \<in> set (hist ?st' 2)" using sharded_system.inv_reach [OF s(1)] newest_in_hist by (auto simp: sys_inv_def)
  moreover have "length (cfgs ?st') = 5" by code_simp
  ultimately show ?thesis using s by blast
qed

end
