(* ===== verification/Clerks.thy ===== *)
theory Clerks
  imports ShardKv KvRaft
begin

text \<open>
  The client libraries (\<^verbatim>\<open>client.go\<close> of \<^verbatim>\<open>kvraft\<close>, \<^verbatim>\<open>shardctrler\<close> and \<^verbatim>\<open>shardkv\<close>). A clerk numbers its
  calls and repeats a call until a server answers it; the loops of the source never give up, so they
  are \<^emph>\<open>partial functions\<close>: None means that the call does not return. What a remote call gives is
  decided by the network and the servers: \<open>call t i args\<close> is the outcome of the \<open>t\<close>-th attempt, at
  server \<open>i\<close>, None when it fails or times out (\<^verbatim>\<open>makeCall\<close>).
\<close>

section \<open>The retry loop over all servers\<close>

type_synonym ('i, 'a, 'r) rpc = "nat \<Rightarrow> 'i \<Rightarrow> 'a \<Rightarrow> 'r option"

definition InvalidServer :: int where
  "InvalidServer = -1"

definition attempt :: "('i, 'a, 'r) rpc \<Rightarrow> ('r \<Rightarrow> bool) \<Rightarrow> 'a \<Rightarrow> nat \<Rightarrow> 'i \<Rightarrow> 'r option" where
  "attempt call ok args t i = (case call t i args of None \<Rightarrow> None | Some r \<Rightarrow> if ok r then Some r else None)"

text \<open>One round over the servers: the server that answered with its reply, and the next attempt.\<close>

fun try_each :: "(nat, 'a, 'r) rpc \<Rightarrow> ('r \<Rightarrow> bool) \<Rightarrow> 'a \<Rightarrow> nat list \<Rightarrow> nat \<Rightarrow> (nat \<times> 'r) option \<times> nat" where
  "try_each call ok args [] t = (None, t)"
| "try_each call ok args (i # ns) t =
     (case attempt call ok args t i of
        Some r \<Rightarrow> (Some (i, r), Suc t)
      | None \<Rightarrow> try_each call ok args ns (Suc t))"

text \<open>The result of the loop: the reply, the leader to remember and the next attempt.\<close>

partial_function (option) clerk_loop ::
    "(nat, 'a, 'r) rpc \<Rightarrow> ('r \<Rightarrow> bool) \<Rightarrow> 'a \<Rightarrow> nat \<Rightarrow> int \<Rightarrow> nat \<Rightarrow> ('r \<times> int \<times> nat) option" where
  "clerk_loop call ok args n lastLeader t =
     (case (if lastLeader \<noteq> InvalidServer then attempt call ok args t (nat lastLeader) else None) of
        Some r \<Rightarrow> Some (r, lastLeader, Suc t)
      | None \<Rightarrow>
          (case try_each call ok args [0..<n] (if lastLeader \<noteq> InvalidServer then Suc t else t) of
             (Some (i, r), t1) \<Rightarrow> Some (r, int i, t1)
           | (None, t1) \<Rightarrow> clerk_loop call ok args n lastLeader t1))"

declare clerk_loop.simps [code]

lemma attempt_SomeD: "attempt call ok args t i = Some r \<Longrightarrow> call t i args = Some r \<and> ok r"
  by (auto simp: attempt_def split: option.splits if_splits)

lemma try_each_SomeD:
  "try_each call ok args ns t = (Some (i, r), t1) \<Longrightarrow>
   i \<in> set ns \<and> ok r \<and> (\<exists>t' \<ge> t. t' < t1 \<and> call t' i args = Some r)"
proof (induction ns arbitrary: t)
  case (Cons j ns)
  show ?case
  proof (cases "attempt call ok args t j")
    case None
    with Cons.prems have "try_each call ok args ns (Suc t) = (Some (i, r), t1)" by simp
    from Cons.IH [OF this] show ?thesis using Suc_leD by fastforce
  next
    case (Some x)
    with Cons.prems attempt_SomeD [OF Some] show ?thesis by auto
  qed
qed simp

lemma try_each_None: "try_each call ok args ns t = (None, t1) \<Longrightarrow> t1 = t + length ns"
proof (induction ns arbitrary: t)
  case (Cons i ns)
  then have "try_each call ok args ns (Suc t) = (None, t1)" by (simp split: option.splits)
  from Cons.IH [OF this] show ?case by simp
qed simp

lemma try_each_finds:
  assumes "\<And>t'. t \<le> t' \<Longrightarrow> attempt call ok args t' i \<noteq> None" "i \<in> set ns"
  shows "fst (try_each call ok args ns t) \<noteq> None"
  using assms
proof (induction ns arbitrary: t)
  case (Cons j ns)
  show ?case
  proof (cases "attempt call ok args t j")
    case None
    with Cons.prems(1) [of t] Cons.prems(2) have "i \<in> set ns" by auto
    moreover have "attempt call ok args t' i \<noteq> None" if "Suc t \<le> t'" for t' using Cons.prems(1) that by simp
    ultimately show ?thesis using Cons.IH None by simp
  qed simp
qed simp

text \<open>The reply the loop returns was given to one of its attempts and was accepted.\<close>

lemma clerk_loop_reply_aux:
  assumes "clerk_loop call ok args n l t = Some y"
  shows "ok (fst y) \<and> t < snd (snd y) \<and> (\<exists>t0 \<ge> t. \<exists>i. call t0 i args = Some (fst y))"
  using assms
proof (induction rule: clerk_loop.raw_induct [rotated 1, consumes 1])
  case (1 loop call ok args n l t y)
  show ?case
  proof (cases "if l \<noteq> InvalidServer then attempt call ok args t (nat l) else None")
    case (Some x)
    then have "attempt call ok args t (nat l) = Some x" by (simp split: if_splits)
    with Some 1(2) attempt_SomeD [OF this] show ?thesis by (intro conjI exI [of _ t] exI [of _ "nat l"]) auto
  next
    case None
    let ?t = "if l \<noteq> InvalidServer then Suc t else t"
    obtain f t1 where e: "try_each call ok args [0..<n] ?t = (f, t1)" by fastforce
    show ?thesis
    proof (cases f)
      case (Some ir)
      then have y: "fst y = snd ir" "snd (snd y) = t1" using 1(2) None e by (auto split: prod.splits)
      from Some e have "try_each call ok args [0..<n] ?t = (Some (fst ir, snd ir), t1)" by simp
      from try_each_SomeD [OF this] y show ?thesis by (auto split: if_splits intro: Suc_leD)
    next
      case f: None
      with 1(2) None e have "loop call ok args n l t1 = Some y" by simp
      moreover have "t \<le> t1" using try_each_None [of call ok args "[0..<n]" ?t t1] e f by (simp split: if_splits)
      ultimately show ?thesis using 1(1) by (meson order_trans le_less_trans)
    qed
  qed
qed

lemmas clerk_loop_reply = clerk_loop_reply_aux [where y = "(r, l', t')", simplified] for r l' t'

text \<open>The loop returns when one of the servers answers every call from some attempt on.\<close>

lemma clerk_loop_returns:
  assumes "i < n" "\<And>t. T \<le> t \<Longrightarrow> attempt call ok args t i \<noteq> None"
  shows "\<exists>r l' t'. clerk_loop call ok args n l t = Some (r, l', t')"
proof (induction "T - t" arbitrary: t rule: less_induct)
  case less
  let ?t = "if l \<noteq> InvalidServer then Suc t else t"
  obtain f t1 where e: "try_each call ok args [0..<n] ?t = (f, t1)" by fastforce
  show ?case
  proof (cases "if l \<noteq> InvalidServer then attempt call ok args t (nat l) else None")
    case (Some x)
    then show ?thesis by (subst clerk_loop.simps) simp
  next
    case None
    show ?thesis
    proof (cases f)
      case (Some ir)
      with None e show ?thesis by (subst clerk_loop.simps) (auto split: prod.splits)
    next
      case f: None
      have "t < T"
      proof (rule ccontr)
        assume "\<not> t < T"
        then have "attempt call ok args t' i \<noteq> None" if "?t \<le> t'" for t'
          using assms(2) [of t'] that by (auto split: if_splits)
        from try_each_finds [of ?t, where ns = "[0..<n]", OF this] assms(1) e f show False by simp
      qed
      moreover have "t < t1" using try_each_None [of call ok args "[0..<n]" ?t t1] e f assms(1) by (auto split: if_splits)
      ultimately have "\<exists>r l' t'. clerk_loop call ok args n l t1 = Some (r, l', t')" by (intro less) simp
      with None e f show ?thesis by (subst clerk_loop.simps) simp
    qed
  qed
qed

section \<open>The clerk of the replicated key/value service\<close>

record KvClerk =
  ck_servers :: nat
  ck_ClientID :: int
  ck_NextCallID :: int
  ck_lastLeader :: int

text \<open>The client id is drawn at random (\<^verbatim>\<open>nrand\<close>).\<close>

definition kv_MakeClerk :: "nat \<Rightarrow> int \<Rightarrow> KvClerk" where
  "kv_MakeClerk servers nrand =
     \<lparr>ck_servers = servers, ck_ClientID = nrand, ck_NextCallID = 0, ck_lastLeader = InvalidServer\<rparr>"

definition ck_get_args :: "string \<Rightarrow> KvClerk \<Rightarrow> GetArgs" where
  "ck_get_args key ck = \<lparr>ga_Key = key, ga_ClientID = ck_ClientID ck, ga_CallID = ck_NextCallID ck\<rparr>"

definition ck_Get ::
    "(nat, GetArgs, GetReply) rpc \<Rightarrow> string \<Rightarrow> nat \<Rightarrow> KvClerk \<Rightarrow> (string \<times> nat \<times> KvClerk) option" where
  "ck_Get call key t ck =
     map_option (\<lambda>(r, l, t'). (gr_Value r, t', ck\<lparr>ck_NextCallID := ck_NextCallID ck + 1, ck_lastLeader := l\<rparr>))
       (clerk_loop call (\<lambda>r. gr_Err r = OK) (ck_get_args key ck) (ck_servers ck) (ck_lastLeader ck) t)"

definition ck_put_args :: "string \<Rightarrow> string \<Rightarrow> KvClerk \<Rightarrow> PutAppendArgs" where
  "ck_put_args key value ck =
     \<lparr>pa_Key = key, pa_Value = value, pa_ClientID = ck_ClientID ck, pa_CallID = ck_NextCallID ck\<rparr>"

text \<open>\<open>call op\<close> calls the method \<^verbatim>\<open>"KVServer." + op\<close>.\<close>

definition ck_PutAppend ::
    "(string \<Rightarrow> (nat, PutAppendArgs, PutAppendReply) rpc) \<Rightarrow> string \<Rightarrow> string \<Rightarrow> string \<Rightarrow> nat \<Rightarrow> KvClerk \<Rightarrow>
      (nat \<times> KvClerk) option" where
  "ck_PutAppend call key value op t ck =
     map_option (\<lambda>(r, l, t'). (t', ck\<lparr>ck_NextCallID := ck_NextCallID ck + 1, ck_lastLeader := l\<rparr>))
       (clerk_loop (call op) (\<lambda>r. pr_Err r = OK) (ck_put_args key value ck) (ck_servers ck) (ck_lastLeader ck) t)"

definition ck_Put where
  "ck_Put call key value = ck_PutAppend call key value ''Put''"

definition ck_Append where
  "ck_Append call key value = ck_PutAppend call key value ''Append''"

section \<open>The clerk of the shard controller\<close>

definition sc_makeIdentifier :: "KvClerk \<Rightarrow> Identifier \<times> KvClerk" where
  "sc_makeIdentifier ck =
     (\<lparr>ClientId = ck_ClientID ck, CallId = ck_NextCallID ck\<rparr>, ck\<lparr>ck_NextCallID := ck_NextCallID ck + 1\<rparr>)"

text \<open>The loop the four operations share: repeat \<^verbatim>\<open>makeCall\<close> until a reply has no \<^verbatim>\<open>WrongLeader\<close>.\<close>

definition sc_clerk_call ::
    "(nat, CtrlOp, CtrlReply) rpc \<Rightarrow> (Identifier \<Rightarrow> CtrlOp) \<Rightarrow> nat \<Rightarrow> KvClerk \<Rightarrow> (Config \<times> nat \<times> KvClerk) option" where
  "sc_clerk_call call mk t ck =
     (case sc_makeIdentifier ck of (ident, ck1) \<Rightarrow>
        map_option (\<lambda>(r, l, t'). (cr_Config r, t', ck1\<lparr>ck_lastLeader := l\<rparr>))
          (clerk_loop call (\<lambda>r. \<not> WrongLeader r) (mk ident) (ck_servers ck1) (ck_lastLeader ck1) t))"

definition sc_Query where
  "sc_Query call num = sc_clerk_call call (\<lambda>ident. Query \<lparr>qa_Identifier = ident, qa_Num = num\<rparr>)"

definition sc_Join where
  "sc_Join call servers t ck =
     map_option snd (sc_clerk_call call (\<lambda>ident. Join \<lparr>ja_Identifier = ident, ja_Servers = servers\<rparr>) t ck)"

definition sc_Leave where
  "sc_Leave call gids t ck =
     map_option snd (sc_clerk_call call (\<lambda>ident. Leave \<lparr>la_Identifier = ident, la_GIDs = gids\<rparr>) t ck)"

definition sc_Move where
  "sc_Move call shard g t ck =
     map_option snd (sc_clerk_call call (\<lambda>ident. Move \<lparr>ma_Identifier = ident, ma_Shard = shard, ma_GID = g\<rparr>) t ck)"

section \<open>The clerk of the sharded service\<close>

record ShardClerk =
  sm :: KvClerk
  sk_config :: Config
  sk_ClientID :: int
  sk_NextCallID :: int

text \<open>The two random numbers are the ids of the clerk and of its controller clerk.\<close>

definition sk_MakeClerk :: "nat \<Rightarrow> int \<Rightarrow> int \<Rightarrow> ShardClerk" where
  "sk_MakeClerk ctrlers nrand1 nrand2 =
     \<lparr>sm = kv_MakeClerk ctrlers nrand1, sk_config = zeroConfig, sk_ClientID = nrand2, sk_NextCallID = 0\<rparr>"

definition sk_makeIdentifier :: "ShardClerk \<Rightarrow> Identifier \<times> ShardClerk" where
  "sk_makeIdentifier ck =
     (\<lparr>ClientId = sk_ClientID ck, CallId = sk_NextCallID ck\<rparr>, ck\<lparr>sk_NextCallID := sk_NextCallID ck + 1\<rparr>)"

text \<open>The servers of the group that a configuration gives a shard to, none when it is unknown.\<close>

definition group_servers :: "Config \<Rightarrow> int \<Rightarrow> string list" where
  "group_servers config shard =
     (case map_of (Groups config) (Shards config ! nat shard) of Some servers \<Rightarrow> servers | None \<Rightarrow> [])"

text \<open>One round over them; a server that says the group is wrong ends the round.\<close>

fun try_group ::
    "(string, 'a, 'r) rpc \<Rightarrow> ('r \<Rightarrow> bool) \<Rightarrow> ('r \<Rightarrow> bool) \<Rightarrow> 'a \<Rightarrow> string list \<Rightarrow> nat \<Rightarrow> 'r option \<times> nat" where
  "try_group call ok wrong args [] t = (None, t)"
| "try_group call ok wrong args (s # ss) t =
     (case call t s args of
        None \<Rightarrow> try_group call ok wrong args ss (Suc t)
      | Some r \<Rightarrow> if ok r then (Some r, Suc t)
                  else if wrong r then (None, Suc t)
                  else try_group call ok wrong args ss (Suc t))"

text \<open>\<open>ctrl\<close> is the remote call at the controllers, for \<^verbatim>\<open>ck.sm.Query(-1)\<close>.\<close>

partial_function (option) shard_loop ::
    "(nat, CtrlOp, CtrlReply) rpc \<Rightarrow> (string, 'a, 'r) rpc \<Rightarrow> ('r \<Rightarrow> bool) \<Rightarrow> ('r \<Rightarrow> bool) \<Rightarrow> 'a \<Rightarrow> int \<Rightarrow>
      nat \<Rightarrow> ShardClerk \<Rightarrow> ('r \<times> nat \<times> ShardClerk) option" where
  "shard_loop ctrl call ok wrong args shard t ck =
     (case try_group call ok wrong args (group_servers (sk_config ck) shard) t of
        (Some r, t1) \<Rightarrow> Some (r, t1, ck)
      | (None, t1) \<Rightarrow>
          Option.bind (sc_Query ctrl (-1) t1 (sm ck)) (\<lambda>(config, t2, sm').
            shard_loop ctrl call ok wrong args shard t2 (ck\<lparr>sm := sm', sk_config := config\<rparr>)))"

declare shard_loop.simps [code]

definition sk_Get ::
    "(nat, CtrlOp, CtrlReply) rpc \<Rightarrow> (string, SGetArgs, SkvErr \<times> string) rpc \<Rightarrow> string \<Rightarrow> nat \<Rightarrow> ShardClerk \<Rightarrow>
      (string \<times> nat \<times> ShardClerk) option" where
  "sk_Get ctrl call key t ck =
     (case sk_makeIdentifier ck of (ident, ck1) \<Rightarrow>
        map_option (\<lambda>(r, t', ck'). (snd r, t', ck'))
          (shard_loop ctrl call (\<lambda>r. fst r = SOK \<or> fst r = SErrNoKey) (\<lambda>r. fst r = SErrWrongGroup)
             \<lparr>sga_Key = key, sga_Identifier = ident\<rparr> (key2shard key) t ck1))"

definition sk_PutAppend ::
    "(nat, CtrlOp, CtrlReply) rpc \<Rightarrow> (string, SPutAppendArgs, SkvErr) rpc \<Rightarrow> string \<Rightarrow> string \<Rightarrow> string \<Rightarrow> nat \<Rightarrow>
      ShardClerk \<Rightarrow> (nat \<times> ShardClerk) option" where
  "sk_PutAppend ctrl call key value op t ck =
     (case sk_makeIdentifier ck of (ident, ck1) \<Rightarrow>
        map_option snd
          (shard_loop ctrl call (\<lambda>r. r = SOK) (\<lambda>r. r = SErrWrongGroup)
             \<lparr>spa_Key = key, spa_Value = value, spa_Op = op, spa_Identifier = ident\<rparr> (key2shard key) t ck1))"

definition sk_Put where
  "sk_Put ctrl call key value = sk_PutAppend ctrl call key value ''Put''"

definition sk_Append where
  "sk_Append ctrl call key value = sk_PutAppend ctrl call key value ''Append''"

section \<open>What a call returns\<close>

lemma ck_Get_reply:
  assumes "ck_Get call key t ck = Some (v, t', ck')"
  shows "\<exists>t0 \<ge> t. \<exists>i r. call t0 i (ck_get_args key ck) = Some r \<and> gr_Err r = OK \<and> gr_Value r = v"
    and "ck_ClientID ck' = ck_ClientID ck" "ck_NextCallID ck' = ck_NextCallID ck + 1"
  using assms clerk_loop_reply_aux
  by (fastforce simp: ck_Get_def)+

text \<open>
  C9: end to end, a Get of a clerk. Let the replies that reach the clerk come from servers that started
  empty and executed parts of one log \<open>L\<close>, and let the clerk's client id and call id mark only its own
  call in \<open>L\<close>. When the clerk's Get returns a value, its operation is in \<open>L\<close>, the value is the one
  the key has after the operations before it in \<open>L\<close>, and the next call has a larger call id.
\<close>

theorem clerk_Get_linearized:
  assumes returns: "ck_Get call key t ck = Some (v, t', ck')" and empty: "LastOp kv0 = Map.empty"
    and served: "\<And>t i args r. call t i args = Some r \<Longrightarrow>
      \<exists>ops1 ops2 kv1 kv2 start term'. prefix ops1 L \<and> prefix ops2 L \<and>
        go_run kv_deliver ops1 kv0 = Inr kv1 \<and> go_run kv_deliver ops2 kv0 = Inr kv2 \<and>
        kv_Get args kv1 start term' kv2 = Some r"
    and own: "\<And>op. op \<in> set L \<Longrightarrow> ko_ClientId op = ck_ClientID ck \<Longrightarrow> ko_CallId op = ck_NextCallID ck \<Longrightarrow>
      op = Get_op (ck_get_args key ck)"
  shows "\<exists>xs ys. L = xs @ Get_op (ck_get_args key ck) # ys \<and> v = kv_value (fold kv_apply xs kv0) key \<and>
    ck_ClientID ck' = ck_ClientID ck \<and> ck_NextCallID ck < ck_NextCallID ck'"
proof -
  let ?a = "ck_get_args key ck"
  from ck_Get_reply(1) [OF returns] obtain t0 i r where
    r: "call t0 i ?a = Some r" "gr_Err r = OK" "gr_Value r = v" by blast
  from served [OF r(1)] obtain ops1 ops2 kv1 kv2 start term' where
    p: "prefix ops1 L" "prefix ops2 L" and
    run: "go_run kv_deliver ops1 kv0 = Inr kv1" "go_run kv_deliver ops2 kv0 = Inr kv2" and
    get: "kv_Get ?a kv1 start term' kv2 = Some r" by blast
  from run have kv: "LastOp kv1 = LastOp (fold kv_apply ops1 kv0)" "LastOp kv2 = LastOp (fold kv_apply ops2 kv0)"
    by (auto simp: kv_deliver_run)
  from get r have "kv_call (ck_ClientID ck) (ck_NextCallID ck) kv1 (start (Get_op ?a)) term' kv2 = Some (OK, v)"
    by (auto simp: kv_Get_def ck_get_args_def)
  from kv_call_OK [OF this] obtain l where l: "kl_CallId l = ck_NextCallID ck" "kl_Result l = v"
    "LastOp kv1 (ck_ClientID ck) = Some l \<or> LastOp kv2 (ck_ClientID ck) = Some l" by blast
  then obtain xs op ys where op: "prefix (xs @ op # ys) L" "ko_ClientId op = ck_ClientID ck"
    "ko_CallId op = ck_NextCallID ck" "v = kv_result op (fold kv_apply xs kv0)"
    using kv_remembered [OF empty, of ops1 _ l] kv_remembered [OF empty, of ops2 _ l] p unfolding kv by metis
  then obtain zs where L: "L = xs @ op # ys @ zs" by (auto simp: prefix_def)
  with own [of op] op have "op = Get_op ?a" by simp
  with op(4) L have "L = xs @ Get_op ?a # ys @ zs" "v = kv_value (fold kv_apply xs kv0) key"
    by (simp_all add: kv_result_def Get_op_def ck_get_args_def)
  with ck_Get_reply(2,3) [OF returns] show ?thesis by auto
qed

text \<open>A network that loses the first calls; then server 1, which has executed a Put and the Get, answers.\<close>

definition sample_log :: "KvOp list" where
  "sample_log = [Put_op \<lparr>pa_Key = ''k'', pa_Value = ''v'', pa_ClientID = 1, pa_CallID = 0\<rparr>,
     Get_op \<lparr>ga_Key = ''k'', ga_ClientID = 2, ga_CallID = 0\<rparr>]"

definition sample_call :: "(nat, GetArgs, GetReply) rpc" where
  "sample_call t i args =
     (if t < 3 \<or> i \<noteq> 1 then None
      else kv_Get args (projr (go_run kv_deliver [] kv_empty)) (\<lambda>_. (2, 1, True)) 1
             (projr (go_run kv_deliver sample_log kv_empty)))"

lemma sample_Get:
  "ck_Get sample_call ''k'' 0 (kv_MakeClerk 3 2) =
     Some (''v'', 5, (kv_MakeClerk 3 2)\<lparr>ck_NextCallID := 1, ck_lastLeader := 1\<rparr>)"
proof -
  let ?ok = "\<lambda>r. gr_Err r = OK" and ?a = "ck_get_args ''k'' (kv_MakeClerk 3 2)"
  have "try_each sample_call ?ok ?a [0..<3] 0 = (None, 3)" by code_simp
  moreover have "try_each sample_call ?ok ?a [0..<3] 3 = (Some (1, \<lparr>gr_Err = OK, gr_Value = ''v''\<rparr>), 5)" by code_simp
  ultimately have "clerk_loop sample_call ?ok ?a 3 InvalidServer 0 = Some (\<lparr>gr_Err = OK, gr_Value = ''v''\<rparr>, 1, 5)"
    by (subst clerk_loop.simps, simp, subst clerk_loop.simps, simp)
  then show ?thesis by (simp add: ck_Get_def kv_MakeClerk_def)
qed

theorem clerk_Get_linearized_witness:
  "\<exists>xs ys. sample_log = xs @ Get_op (ck_get_args ''k'' (kv_MakeClerk 3 2)) # ys \<and>
     ''v'' = kv_value (fold kv_apply xs kv_empty) ''k'' \<and>
     ck_ClientID ((kv_MakeClerk 3 2)\<lparr>ck_NextCallID := 1, ck_lastLeader := 1\<rparr>) = ck_ClientID (kv_MakeClerk 3 2) \<and>
     ck_NextCallID (kv_MakeClerk 3 2) < ck_NextCallID ((kv_MakeClerk 3 2)\<lparr>ck_NextCallID := 1, ck_lastLeader := 1\<rparr>)"
proof (rule clerk_Get_linearized [OF sample_Get])
  show "LastOp kv_empty = Map.empty"
    by (simp add: StartKVServer_def MakePersister_def ReadSnapshot_def restoreState_def)
next
  fix t i args r
  assume "sample_call t i args = Some r"
  then show "\<exists>ops1 ops2 kv1 kv2 start term'. prefix ops1 sample_log \<and> prefix ops2 sample_log \<and>
      go_run kv_deliver ops1 kv_empty = Inr kv1 \<and> go_run kv_deliver ops2 kv_empty = Inr kv2 \<and>
      kv_Get args kv1 start term' kv2 = Some r"
    by (intro exI [of _ "[]"] exI [of _ sample_log]) (auto simp: sample_call_def kv_deliver_run split: if_splits)
next
  fix op
  assume "op \<in> set sample_log" "ko_ClientId op = ck_ClientID (kv_MakeClerk 3 2)"
  then show "op = Get_op (ck_get_args ''k'' (kv_MakeClerk 3 2))"
    by (auto simp: sample_log_def kv_MakeClerk_def ck_get_args_def Put_op_def Get_op_def)
qed

text \<open>
  C17: a call of a clerk returns. When, from some attempt on, one of the servers answers the clerk's
  request with OK, the Get, the Put and the Append of the clerk return, whatever leader it remembers.
\<close>

theorem clerk_returns:
  assumes "i < ck_servers ck"
    and "\<And>t. T \<le> t \<Longrightarrow> \<exists>r. call t i (ck_get_args key ck) = Some r \<and> gr_Err r = OK"
    and "\<And>op t. T \<le> t \<Longrightarrow> \<exists>r. pcall op t i (ck_put_args key value ck) = Some r \<and> pr_Err r = OK"
  shows "ck_Get call key t ck \<noteq> None \<and> ck_Put pcall key value t ck \<noteq> None \<and>
    ck_Append pcall key value t ck \<noteq> None"
proof (intro conjI)
  have "attempt call (\<lambda>r. gr_Err r = OK) (ck_get_args key ck) t i \<noteq> None" if "T \<le> t" for t
    using assms(2) [OF that] by (auto simp: attempt_def)
  from clerk_loop_returns [OF assms(1) this, where l = "ck_lastLeader ck" and t = t] show "ck_Get call key t ck \<noteq> None"
    by (auto simp: ck_Get_def)
  have p: "ck_PutAppend pcall key value op t ck \<noteq> None" for op
  proof -
    have "attempt (pcall op) (\<lambda>r. pr_Err r = OK) (ck_put_args key value ck) t i \<noteq> None" if "T \<le> t" for t
    proof -
      from assms(3) [OF that, of op] obtain r where "pcall op t i (ck_put_args key value ck) = Some r" "pr_Err r = OK"
        by blast
      then show ?thesis by (simp add: attempt_def)
    qed
    from clerk_loop_returns [OF assms(1) this, where l = "ck_lastLeader ck" and t = t] show ?thesis by (auto simp: ck_PutAppend_def)
  qed
  show "ck_Put pcall key value t ck \<noteq> None" "ck_Append pcall key value t ck \<noteq> None"
    unfolding ck_Put_def ck_Append_def by (rule p)+
qed

theorem clerk_returns_witness:
  "ck_Get (\<lambda>t i args. if i = 2 \<and> 9 \<le> t then Some \<lparr>gr_Err = OK, gr_Value = ''v''\<rparr> else None) ''k'' 0 (kv_MakeClerk 3 2) \<noteq> None \<and>
   ck_Put (\<lambda>op t i args. if i = 2 \<and> 9 \<le> t then Some \<lparr>pr_Err = OK\<rparr> else None) ''k'' ''w'' 0 (kv_MakeClerk 3 2) \<noteq> None \<and>
   ck_Append (\<lambda>op t i args. if i = 2 \<and> 9 \<le> t then Some \<lparr>pr_Err = OK\<rparr> else None) ''k'' ''w'' 0 (kv_MakeClerk 3 2) \<noteq> None"
  by (rule clerk_returns [where i = 2 and T = 9]) (simp_all add: kv_MakeClerk_def)

section \<open>The clerks of the controller and of the sharded service\<close>

lemma sc_Query_returns:
  assumes "j < ck_servers ck" "\<And>t op. T \<le> t \<Longrightarrow> \<exists>r. ctrl t j op = Some r \<and> \<not> WrongLeader r"
  shows "\<exists>c t' ck'. sc_Query ctrl num t ck = Some (c, t', ck')"
proof -
  have "attempt ctrl (\<lambda>r. \<not> WrongLeader r) op t j \<noteq> None" if "T \<le> t" for t op
  proof -
    from assms(2) [OF that, of op] obtain r where "ctrl t j op = Some r" "\<not> WrongLeader r" by blast
    then show ?thesis by (simp add: attempt_def)
  qed
  from clerk_loop_returns [OF assms(1) this] show ?thesis
    by (fastforce simp: sc_Query_def sc_clerk_call_def sc_makeIdentifier_def)
qed

lemma sc_Query_reply:
  assumes "sc_Query ctrl num t ck = Some (c, t', ck')"
  shows "t < t' \<and> ck_servers ck' = ck_servers ck \<and>
    (\<exists>t0 \<ge> t. \<exists>j op r. ctrl t0 j op = Some r \<and> \<not> WrongLeader r \<and> cr_Config r = c)"
  using assms clerk_loop_reply_aux
  by (fastforce simp: sc_Query_def sc_clerk_call_def sc_makeIdentifier_def)

lemma try_group_time: "t \<le> snd (try_group call ok wrong args ss t)"
proof (induction ss arbitrary: t)
  case (Cons s ss)
  from Cons [of "Suc t"] show ?case by (auto split: option.splits)
qed simp

lemma try_group_finds:
  assumes "s \<in> set ss" "\<And>t. T \<le> t \<Longrightarrow> \<exists>r. call t s args = Some r \<and> ok r"
    and "\<And>t s' r. T \<le> t \<Longrightarrow> s' \<in> set ss \<Longrightarrow> call t s' args = Some r \<Longrightarrow> \<not> wrong r" and "T \<le> t"
  shows "fst (try_group call ok wrong args ss t) \<noteq> None"
  using assms(1,3,4)
proof (induction ss arbitrary: t)
  case (Cons s' ss)
  have w: "\<not> wrong r" if "call t s' args = Some r" for r using Cons.prems(2) [OF Cons.prems(3) _ that] by simp
  have "fst (try_group call ok wrong args ss (Suc t)) \<noteq> None" if "s' \<noteq> s"
  proof (rule Cons.IH)
    show "\<not> wrong r" if "T \<le> t" "s0 \<in> set ss" "call t s0 args = Some r" for t s0 r
      using Cons.prems(2) [OF that(1) _ that(3)] that(2) by simp
  qed (use Cons.prems that in auto)
  with assms(2) [OF Cons.prems(3)] w show ?case by (cases "s' = s") (auto split: option.splits)
qed simp

text \<open>
  The loop of the shard clerk returns when, from attempt \<open>T\<close> on, one controller answers, all answers of
  controllers carry configuration \<open>c\<close>, and in the group that \<open>c\<close> gives the shard to one server accepts
  the request and none says that the group is wrong.
\<close>

lemma shard_loop_returns:
  assumes ctrl: "j < ck_servers (sm ck)" "\<And>t op. T \<le> t \<Longrightarrow> \<exists>r. ctrl t j op = Some r \<and> \<not> WrongLeader r"
    and conf: "\<And>t i op r. T \<le> t \<Longrightarrow> ctrl t i op = Some r \<Longrightarrow> \<not> WrongLeader r \<Longrightarrow> cr_Config r = c"
    and group: "s \<in> set (group_servers c shard)" "\<And>t. T \<le> t \<Longrightarrow> \<exists>r. call t s args = Some r \<and> ok r"
      "\<And>t s' r. T \<le> t \<Longrightarrow> s' \<in> set (group_servers c shard) \<Longrightarrow> call t s' args = Some r \<Longrightarrow> \<not> wrong r"
  shows "shard_loop ctrl call ok wrong args shard t ck \<noteq> None"
  using ctrl(1)
proof (induction "2 * (T - t) + (if sk_config ck = c then 0 else 1)" arbitrary: t ck rule: less_induct)
  case less
  obtain f t1 where e: "try_group call ok wrong args (group_servers (sk_config ck) shard) t = (f, t1)" by fastforce
  show ?case
  proof (cases f)
    case (Some r)
    with e show ?thesis by (subst shard_loop.simps) simp
  next
    case None
    obtain c' t2 sm' where q: "sc_Query ctrl (-1) t1 (sm ck) = Some (c', t2, sm')"
      using sc_Query_returns [where ctrl = ctrl and T = T, OF less.prems ctrl(2)] by blast
    from sc_Query_reply [OF q] have t: "t1 < t2" "ck_servers sm' = ck_servers (sm ck)" by auto
    have t1: "t \<le> t1" using try_group_time [of t call ok wrong args "group_servers (sk_config ck) shard"] e by simp
    have "T \<le> t \<Longrightarrow> sk_config ck \<noteq> c"
      using try_group_finds [where call = call and ok = ok and wrong = wrong and T = T and t = t, OF group] e None by force
    moreover have "T \<le> t \<Longrightarrow> c' = c" using sc_Query_reply [OF q] conf t1 by (meson order_trans)
    ultimately have "2 * (T - t2) + (if c' = c then 0 else 1) < 2 * (T - t) + (if sk_config ck = c then 0 else 1)"
      using t t1 by (cases "T \<le> t") auto
    then have "shard_loop ctrl call ok wrong args shard t2 (ck\<lparr>sm := sm', sk_config := c'\<rparr>) \<noteq> None"
      using less.prems t by (intro less.hyps) simp_all
    with e None q show ?thesis by (subst shard_loop.simps) simp
  qed
qed

text \<open>
  C18: a call on a shard returns. When, from some attempt on, one controller answers every query, all
  answers of controllers carry configuration \<open>c\<close>, and in the group that \<open>c\<close> gives the key's shard to one
  server accepts the clerk's requests while none says that the group is wrong, then the Get and the
  PutAppend of a shard clerk return, whatever configuration it starts with.
\<close>

theorem shard_clerk_returns:
  assumes ctrl: "j < ck_servers (sm ck)" "\<And>t op. T \<le> t \<Longrightarrow> \<exists>r. ctrl t j op = Some r \<and> \<not> WrongLeader r"
    and conf: "\<And>t i op r. T \<le> t \<Longrightarrow> ctrl t i op = Some r \<Longrightarrow> \<not> WrongLeader r \<Longrightarrow> cr_Config r = c"
    and group: "s \<in> set (group_servers c (key2shard key))"
    and get: "\<And>t args. T \<le> t \<Longrightarrow> \<exists>r. call t s args = Some r \<and> (fst r = SOK \<or> fst r = SErrNoKey)"
      "\<And>t s' args r. T \<le> t \<Longrightarrow> s' \<in> set (group_servers c (key2shard key)) \<Longrightarrow> call t s' args = Some r \<Longrightarrow>
        fst r \<noteq> SErrWrongGroup"
    and put: "\<And>t args. T \<le> t \<Longrightarrow> pcall t s args = Some SOK"
      "\<And>t s' args r. T \<le> t \<Longrightarrow> s' \<in> set (group_servers c (key2shard key)) \<Longrightarrow> pcall t s' args = Some r \<Longrightarrow>
        r \<noteq> SErrWrongGroup"
  shows "sk_Get ctrl call key t ck \<noteq> None \<and> sk_PutAppend ctrl pcall key value op t ck \<noteq> None"
proof -
  let ?ident = "\<lparr>ClientId = sk_ClientID ck, CallId = sk_NextCallID ck\<rparr>"
  let ?ck = "ck\<lparr>sk_NextCallID := sk_NextCallID ck + 1\<rparr>"
  have j: "j < ck_servers (sm ?ck)" using ctrl(1) by simp
  have "shard_loop ctrl call (\<lambda>r. fst r = SOK \<or> fst r = SErrNoKey) (\<lambda>r. fst r = SErrWrongGroup)
      \<lparr>sga_Key = key, sga_Identifier = ?ident\<rparr> (key2shard key) t ?ck \<noteq> None"
    by (rule shard_loop_returns [where T = T and c = c and s = s and j = j]) (use j ctrl(2) conf group get in auto)
  moreover have "shard_loop ctrl pcall (\<lambda>r. r = SOK) (\<lambda>r. r = SErrWrongGroup)
      \<lparr>spa_Key = key, spa_Value = value, spa_Op = op, spa_Identifier = ?ident\<rparr> (key2shard key) t ?ck \<noteq> None"
    by (rule shard_loop_returns [where T = T and c = c and s = s and j = j]) (use j ctrl(2) conf group put in auto)
  ultimately show ?thesis by (auto simp: sk_Get_def sk_PutAppend_def sk_makeIdentifier_def)
qed

theorem shard_clerk_returns_witness:
  "sk_Get (\<lambda>t i op. if i = 1 \<and> 7 \<le> t then Some \<lparr>WrongLeader = False,
        cr_Config = \<lparr>Num = 1, Shards = replicate NShards 4, Groups = [(4, [''x'', ''y''])]\<rparr>\<rparr> else None)
      (\<lambda>t s args. if s = ''y'' \<and> 20 \<le> t then Some (SOK, ''v'') else None) ''k'' 0 (sk_MakeClerk 3 8 9) \<noteq> None \<and>
   sk_PutAppend (\<lambda>t i op. if i = 1 \<and> 7 \<le> t then Some \<lparr>WrongLeader = False,
        cr_Config = \<lparr>Num = 1, Shards = replicate NShards 4, Groups = [(4, [''x'', ''y''])]\<rparr>\<rparr> else None)
      (\<lambda>t s args. if s = ''y'' \<and> 20 \<le> t then Some SOK else None) ''k'' ''w'' ''Put'' 0 (sk_MakeClerk 3 8 9) \<noteq> None"
proof -
  let ?c = "\<lparr>Num = 1, Shards = replicate NShards 4, Groups = [(4, [''x'', ''y''])]\<rparr>"
  have "''y'' \<in> set (group_servers ?c (key2shard ''k''))" by code_simp
  then show ?thesis
    by (intro shard_clerk_returns [where j = 1 and T = 20 and c = ?c and s = "''y''"])
      (auto simp: sk_MakeClerk_def kv_MakeClerk_def split: if_splits)
qed

end
