(* ===== verification/Strconv.thy ===== *)
theory Strconv
  imports Prelude
begin

text \<open>
  What the sources use of Go's \<^verbatim>\<open>strconv\<close> and \<^verbatim>\<open>strings\<close>: numbers printed in decimal (\<^verbatim>\<open>FormatInt\<close> with
  base 10, the verb \<^verbatim>\<open>%d\<close>), read back by \<^verbatim>\<open>Atoi\<close>, and strings split at a separator of one character.
  \<^verbatim>\<open>Atoi\<close> accepts a sign and at least one digit and refuses what does not fit into 64 bits; a refusal
  is None.
\<close>

section \<open>Printing\<close>

definition digit :: "nat \<Rightarrow> char" where
  "digit d = char_of (48 + d)"

fun decimal :: "nat \<Rightarrow> string" where
  "decimal n = (if n < 10 then [digit n] else decimal (n div 10) @ [digit (n mod 10)])"

declare decimal.simps [simp del]

definition FormatInt :: "int \<Rightarrow> string" where
  "FormatInt i = (if i < 0 then CHR ''-'' # decimal (nat (- i)) else decimal (nat i))"

section \<open>Reading\<close>

definition is_digit :: "char \<Rightarrow> bool" where
  "is_digit c \<longleftrightarrow> 48 \<le> (of_char c :: nat) \<and> (of_char c :: nat) \<le> 57"

definition digits_value :: "string \<Rightarrow> nat" where
  "digits_value s = foldl (\<lambda>v c. 10 * v + (of_char c - 48)) 0 s"

definition parse_digits :: "string \<Rightarrow> nat option" where
  "parse_digits s = (if s \<noteq> [] \<and> list_all is_digit s then Some (digits_value s) else None)"

definition Atoi :: "string \<Rightarrow> int option" where
  "Atoi s =
     (case s of [] \<Rightarrow> None
      | c # r \<Rightarrow>
          (case (if c = CHR ''-'' then map_option (\<lambda>n. - int n) (parse_digits r)
                 else if c = CHR ''+'' then map_option int (parse_digits r)
                 else map_option int (parse_digits s)) of
             None \<Rightarrow> None
           | Some i \<Rightarrow> if - (2 ^ 63) \<le> i \<and> i < 2 ^ 63 then Some i else None))"

fun Split :: "char \<Rightarrow> string \<Rightarrow> string list" where
  "Split sep [] = [[]]"
| "Split sep (c # s) =
     (if c = sep then [] # Split sep s
      else case Split sep s of [] \<Rightarrow> [[c]] | p # ps \<Rightarrow> (c # p) # ps)"

section \<open>Round trips\<close>

lemma of_char_digit [simp]: "d < 10 \<Longrightarrow> (of_char (digit d) :: nat) = 48 + d"
  by (simp add: digit_def)

lemma is_digit_digit [simp]: "d < 10 \<Longrightarrow> is_digit (digit d)"
  by (simp add: is_digit_def)

lemma not_is_digit [simp]: "\<not> is_digit CHR ''-''" "\<not> is_digit CHR '',''" "\<not> is_digit CHR ''+''"
  by (simp_all add: is_digit_def)

lemma decimal_digits [simp]: "list_all is_digit (decimal n)"
proof (induction n rule: decimal.induct)
  case (1 n)
  then show ?case by (subst decimal.simps) simp
qed

lemma decimal_nonempty [simp]: "decimal n \<noteq> []"
  by (subst decimal.simps) simp

lemma digits_value_decimal [simp]: "digits_value (decimal n) = n"
proof (induction n rule: decimal.induct)
  case (1 n)
  show ?case
  proof (cases "n < 10")
    case False
    with 1 have "foldl (\<lambda>v c. 10 * v + (of_char c - 48)) 0 (decimal (n div 10)) = n div 10"
      by (simp add: digits_value_def)
    with False show ?thesis by (subst decimal.simps) (simp add: digits_value_def)
  qed (subst decimal.simps, simp add: digits_value_def)
qed

lemma parse_decimal [simp]: "parse_digits (decimal n) = Some n"
  by (simp add: parse_digits_def)

lemma decimal_not_digit: "\<not> is_digit c \<Longrightarrow> c \<notin> set (decimal n)"
  using decimal_digits [of n] by (auto simp: list_all_iff)

lemma FormatInt_no_comma: "CHR '','' \<notin> set (FormatInt i)"
  by (auto simp: FormatInt_def decimal_not_digit)

lemma FormatInt_no_dash: "0 \<le> i \<Longrightarrow> CHR ''-'' \<notin> set (FormatInt i)"
  by (auto simp: FormatInt_def decimal_not_digit)

lemma Atoi_FormatInt:
  assumes "- (2 ^ 63) \<le> i" "i < 2 ^ 63"
  shows "Atoi (FormatInt i) = Some i"
proof (cases "i < 0")
  case True
  with assms show ?thesis by (simp add: FormatInt_def Atoi_def)
next
  case False
  obtain c r where d: "decimal (nat i) = c # r" by (cases "decimal (nat i)") simp_all
  have "is_digit c" using decimal_digits [of "nat i"] d by simp
  then have "c \<noteq> CHR ''-''" "c \<noteq> CHR ''+''" by auto
  moreover have "parse_digits (c # r) = Some (nat i)" using parse_decimal [of "nat i"] d by simp
  ultimately show ?thesis using False assms d by (simp add: FormatInt_def Atoi_def)
qed

lemma FormatInt_inject [simp]: "FormatInt i = FormatInt j \<longleftrightarrow> i = j"
proof
  assume e: "FormatInt i = FormatInt j"
  have d: "CHR ''-'' # decimal m \<noteq> decimal n" for m n
    using decimal_not_digit [of "CHR ''-''" n] by (metis list.set_intros(1) not_is_digit(1))
  have "decimal m = decimal n \<longleftrightarrow> m = n" for m n using digits_value_decimal by metis
  with e d d [symmetric] show "i = j" by (auto simp: FormatInt_def split: if_splits)
qed simp

lemma Split_prefix [simp]: "sep \<notin> set xs \<Longrightarrow> Split sep (xs @ sep # ys) = xs # Split sep ys"
  by (induction xs) auto

lemma Split_single [simp]: "sep \<notin> set xs \<Longrightarrow> Split sep xs = [xs]"
  by (induction xs) auto

end
