(* ===== verification/KvSrv.thy ===== *)
theory KvSrv
  imports Strconv
begin

text \<open>
  The key/value server of a single machine (\<^verbatim>\<open>src/kvsrv\<close>): the server with its table of results, the
  clerk, and any number of clerks calling one server over a network that loses requests and replies.

  A handler holds the lock from its first to its last line, so it is one function on the state. The
  loops of the clerk repeat one remote call until it succeeds, and a call either is answered, or it
  fails because the request or the reply was lost; the clerk is a machine whose steps are the outcomes
  of its calls. A call that has returned is not served later (\<^verbatim>\<open>labrpc\<close> drops a request before it
  runs the handler, or waits for the handler), and the ids that clerks draw at random are distinct.
\<close>

section \<open>The server\<close>

record KVSrv =
  pairs :: "string \<rightharpoonup> string"
  results :: "string \<rightharpoonup> string"

record SrvPutAppendArgs =
  sp_Key :: string
  sp_Value :: string
  sp_ClientID :: int
  sp_CallID :: int

record SrvGetArgs =
  sg_Key :: string
  sg_ClientID :: int
  sg_CallID :: int

record SucceedArgs =
  ss_ClientID :: int
  ss_CallID :: int

definition getKey :: "int \<Rightarrow> int \<Rightarrow> string" where
  "getKey clientID callID = FormatInt clientID @ '','' @ FormatInt callID"

definition lookup :: "(string \<rightharpoonup> string) \<Rightarrow> string \<Rightarrow> string" where
  "lookup m key = (case m key of Some v \<Rightarrow> v | None \<Rightarrow> '''')"

definition srv_Get :: "SrvGetArgs \<Rightarrow> KVSrv \<Rightarrow> string \<times> KVSrv" where
  "srv_Get args kv = (lookup (pairs kv) (sg_Key args), kv)"

definition srv_Put :: "SrvPutAppendArgs \<Rightarrow> KVSrv \<Rightarrow> string \<times> KVSrv" where
  "srv_Put args kv =
     (let key = getKey (sp_ClientID args) (sp_CallID args) in
      case results kv key of
        Some v \<Rightarrow> (v, kv)
      | None \<Rightarrow> ('''', kv\<lparr>pairs := (pairs kv)(sp_Key args \<mapsto> sp_Value args), results := (results kv)(key \<mapsto> '''')\<rparr>))"

definition srv_Append :: "SrvPutAppendArgs \<Rightarrow> KVSrv \<Rightarrow> string \<times> KVSrv" where
  "srv_Append args kv =
     (let key = getKey (sp_ClientID args) (sp_CallID args) in
      case results kv key of
        Some v \<Rightarrow> (v, kv)
      | None \<Rightarrow>
          (let old = lookup (pairs kv) (sp_Key args) in
           (old, kv\<lparr>pairs := (pairs kv)(sp_Key args \<mapsto> old @ sp_Value args), results := (results kv)(key \<mapsto> old)\<rparr>)))"

definition srv_Succeed :: "SucceedArgs \<Rightarrow> KVSrv \<Rightarrow> KVSrv" where
  "srv_Succeed args kv = kv\<lparr>results := (results kv)(getKey (ss_ClientID args) (ss_CallID args) := None)\<rparr>"

definition srv_Start :: KVSrv where
  "srv_Start = \<lparr>pairs = Map.empty, results = Map.empty\<rparr>"

section \<open>The clerk\<close>

datatype SrvRequest =
    ReqGet SrvGetArgs
  | ReqPut SrvPutAppendArgs
  | ReqAppend SrvPutAppendArgs
  | ReqSucceed SucceedArgs

datatype SrvReply = RValue string | RSucceed bool

definition srv_serve :: "SrvRequest \<Rightarrow> KVSrv \<Rightarrow> SrvReply \<times> KVSrv" where
  "srv_serve r kv =
     (case r of
        ReqGet a \<Rightarrow> map_prod RValue id (srv_Get a kv)
      | ReqPut a \<Rightarrow> map_prod RValue id (srv_Put a kv)
      | ReqAppend a \<Rightarrow> map_prod RValue id (srv_Append a kv)
      | ReqSucceed a \<Rightarrow> (RSucceed True, srv_Succeed a kv))"

text \<open>Where a clerk is: in no call, in the loop of a call, or in the loop of \<^verbatim>\<open>Succeed\<close> that follows it.\<close>

datatype SrvPhase =
    Outside
  | Calling SrvRequest
  | Succeeding SrvRequest string

record SrvClerk =
  sck_ClientID :: int
  sck_NextCallID :: int
  sck_phase :: SrvPhase

definition srv_MakeClerk :: "int \<Rightarrow> SrvClerk" where
  "srv_MakeClerk nrand = \<lparr>sck_ClientID = nrand, sck_NextCallID = 0, sck_phase = Outside\<rparr>"

definition begin_Get :: "string \<Rightarrow> SrvClerk \<Rightarrow> SrvClerk" where
  "begin_Get key ck = ck\<lparr>sck_NextCallID := sck_NextCallID ck + 1,
     sck_phase := Calling (ReqGet \<lparr>sg_Key = key, sg_ClientID = sck_ClientID ck, sg_CallID = sck_NextCallID ck\<rparr>)\<rparr>"

definition begin_PutAppend :: "string \<Rightarrow> string \<Rightarrow> (SrvPutAppendArgs \<Rightarrow> SrvRequest) \<Rightarrow> SrvClerk \<Rightarrow> SrvClerk" where
  "begin_PutAppend key value op ck = ck\<lparr>sck_NextCallID := sck_NextCallID ck + 1,
     sck_phase := Calling (op \<lparr>sp_Key = key, sp_Value = value, sp_ClientID = sck_ClientID ck,
       sp_CallID = sck_NextCallID ck\<rparr>)\<rparr>"

fun req_ids :: "SrvRequest \<Rightarrow> int \<times> int" where
  "req_ids (ReqGet a) = (sg_ClientID a, sg_CallID a)"
| "req_ids (ReqPut a) = (sp_ClientID a, sp_CallID a)"
| "req_ids (ReqAppend a) = (sp_ClientID a, sp_CallID a)"
| "req_ids (ReqSucceed a) = (ss_ClientID a, ss_CallID a)"

text \<open>The request that the loop of the clerk sends next.\<close>

definition clerk_request :: "SrvClerk \<Rightarrow> SrvRequest option" where
  "clerk_request ck =
     (case sck_phase ck of
        Outside \<Rightarrow> None
      | Calling r \<Rightarrow> Some r
      | Succeeding r v \<Rightarrow> (case req_ids r of (c, n) \<Rightarrow> Some (ReqSucceed \<lparr>ss_ClientID = c, ss_CallID = n\<rparr>)))"

text \<open>What the clerk does when \<^verbatim>\<open>Call\<close> returns, None for false; with the value its caller gets.\<close>

definition clerk_outcome :: "SrvReply option \<Rightarrow> SrvClerk \<Rightarrow> SrvClerk \<times> string option" where
  "clerk_outcome rep ck =
     (case (rep, sck_phase ck) of
        (Some (RValue v), Calling (ReqGet a)) \<Rightarrow> (ck\<lparr>sck_phase := Outside\<rparr>, Some v)
      | (Some (RValue v), Calling r) \<Rightarrow> (ck\<lparr>sck_phase := Succeeding r v\<rparr>, None)
      | (Some _, Succeeding r v) \<Rightarrow> (ck\<lparr>sck_phase := Outside\<rparr>, Some v)
      | _ \<Rightarrow> (ck, None))"

section \<open>Clerks and the server\<close>

text \<open>
  \<open>inflight\<close> is the reply of a request that has been served. The rest is history: \<open>served\<close>, the
  operations in the order in which the server ran them, with their results; \<open>began\<close>, how many there
  were when the current call of a clerk began; and the calls that have returned, with how many there
  were at their begin and at their return.
\<close>

record SrvSys =
  server :: KVSrv
  clerks :: "int \<Rightarrow> SrvClerk"
  inflight :: "int \<rightharpoonup> SrvReply"
  served :: "(SrvRequest \<times> string) list"
  began :: "int \<Rightarrow> nat"
  returned :: "(SrvRequest \<times> string \<times> nat \<times> nat) list"

definition srv_init :: SrvSys where
  "srv_init = \<lparr>server = srv_Start, clerks = srv_MakeClerk, inflight = Map.empty, served = [],
     began = (\<lambda>_. 0), returned = []\<rparr>"

datatype SrvMove =
    BeginGet int string
  | BeginPut int string string
  | BeginAppend int string string
  | Serve int
  | Deliver int
  | Lose int

definition start_call :: "int \<Rightarrow> (SrvClerk \<Rightarrow> SrvClerk) \<Rightarrow> SrvSys \<Rightarrow> SrvSys option" where
  "start_call k f st =
     (if sck_phase (clerks st k) = Outside
      then Some (st\<lparr>clerks := (clerks st)(k := f (clerks st k)), began := (began st)(k := length (served st))\<rparr>)
      else None)"

text \<open>The operation that serving a request runs, none for an acknowledgement or an old call.\<close>

definition run_op :: "SrvRequest \<Rightarrow> KVSrv \<Rightarrow> (SrvRequest \<times> string) list" where
  "run_op r kv =
     (case r of
        ReqGet a \<Rightarrow> [(r, fst (srv_Get a kv))]
      | ReqPut a \<Rightarrow> if results kv (getKey (sp_ClientID a) (sp_CallID a)) = None then [(r, fst (srv_Put a kv))] else []
      | ReqAppend a \<Rightarrow> if results kv (getKey (sp_ClientID a) (sp_CallID a)) = None then [(r, fst (srv_Append a kv))] else []
      | ReqSucceed a \<Rightarrow> [])"

fun call_of :: "SrvPhase \<Rightarrow> SrvRequest option" where
  "call_of Outside = None"
| "call_of (Calling r) = Some r"
| "call_of (Succeeding r v) = Some r"

definition end_call :: "int \<Rightarrow> SrvReply option \<Rightarrow> SrvSys \<Rightarrow> SrvSys" where
  "end_call k rep st =
     (case clerk_outcome rep (clerks st k) of (ck, ret) \<Rightarrow>
        st\<lparr>clerks := (clerks st)(k := ck), inflight := (inflight st)(k := None),
           returned := returned st @
             (case (ret, call_of (sck_phase (clerks st k))) of
                (Some v, Some r) \<Rightarrow> [(r, v, began st k, length (served st))] | _ \<Rightarrow> [])\<rparr>)"

fun srv_step :: "SrvMove \<Rightarrow> SrvSys \<Rightarrow> SrvSys option" where
  "srv_step (BeginGet k key) st = start_call k (begin_Get key) st"
| "srv_step (BeginPut k key value) st = start_call k (begin_PutAppend key value ReqPut) st"
| "srv_step (BeginAppend k key value) st = start_call k (begin_PutAppend key value ReqAppend) st"
| "srv_step (Serve k) st =
     (case (clerk_request (clerks st k), inflight st k) of
        (Some r, None) \<Rightarrow> (case srv_serve r (server st) of (rep, kv) \<Rightarrow>
           Some (st\<lparr>server := kv, inflight := (inflight st)(k \<mapsto> rep), served := served st @ run_op r (server st)\<rparr>))
      | _ \<Rightarrow> None)"
| "srv_step (Deliver k) st =
     (case inflight st k of Some rep \<Rightarrow> Some (end_call k (Some rep) st) | None \<Rightarrow> None)"
| "srv_step (Lose k) st = (if sck_phase (clerks st k) = Outside then None else Some (end_call k None st))"

fun srv_run :: "SrvMove list \<Rightarrow> SrvSys \<Rightarrow> SrvSys option" where
  "srv_run [] st = Some st"
| "srv_run (m # ms) st = (case srv_step m st of None \<Rightarrow> None | Some st' \<Rightarrow> srv_run ms st')"

section \<open>The sequential specification\<close>

fun seq_op :: "SrvRequest \<Rightarrow> (string \<rightharpoonup> string) \<Rightarrow> string \<times> (string \<rightharpoonup> string)" where
  "seq_op (ReqGet a) m = (lookup m (sg_Key a), m)"
| "seq_op (ReqPut a) m = ('''', m(sp_Key a \<mapsto> sp_Value a))"
| "seq_op (ReqAppend a) m = (lookup m (sp_Key a), m(sp_Key a \<mapsto> lookup m (sp_Key a) @ sp_Value a))"
| "seq_op (ReqSucceed a) m = ('''', m)"

text \<open>The state after a history whose results are those of the specification, None for another one.\<close>

fun seq_run :: "(SrvRequest \<times> string) list \<Rightarrow> (string \<rightharpoonup> string) \<Rightarrow> (string \<rightharpoonup> string) option" where
  "seq_run [] m = Some m"
| "seq_run ((r, v) # h) m = (case seq_op r m of (v', m') \<Rightarrow> if v = v' then seq_run h m' else None)"

lemma seq_run_append: "seq_run (h @ h') m = Option.bind (seq_run h m) (seq_run h')"
  by (induction h m rule: seq_run.induct) (auto split: prod.splits)

section \<open>Invariant\<close>

lemma getKey_inject [simp]: "getKey c n = getKey c' n' \<longleftrightarrow> c = c' \<and> n = n'"
proof
  assume e: "getKey c n = getKey c' n'"
  have "Split CHR '','' (getKey a b) = [FormatInt a, FormatInt b]" for a b
    by (simp add: getKey_def FormatInt_no_comma)
  with e have "[FormatInt c, FormatInt n] = [FormatInt c', FormatInt n']" by metis
  then show "c = c' \<and> n = n'" by simp
qed simp

fun is_update :: "SrvRequest \<Rightarrow> bool" where
  "is_update (ReqPut a) = True"
| "is_update (ReqAppend a) = True"
| "is_update _ = False"

text \<open>The result the server remembers for a call.\<close>

definition remembers :: "SrvSys \<Rightarrow> int \<Rightarrow> int \<Rightarrow> string option" where
  "remembers st k n = results (server st) (getKey k n)"

text \<open>What holds of the call \<open>r\<close> that clerk \<open>k\<close> is in, with the value it will return once it has one.\<close>

definition in_call :: "SrvSys \<Rightarrow> int \<Rightarrow> SrvRequest \<Rightarrow> string \<Rightarrow> bool" where
  "in_call st k r v \<longleftrightarrow> (r, v) \<in> set (drop (began st k) (served st))"

definition phase_ok :: "SrvSys \<Rightarrow> int \<Rightarrow> int \<Rightarrow> SrvPhase \<Rightarrow> bool" where
  "phase_ok st k n ph \<longleftrightarrow>
     (case ph of
        Outside \<Rightarrow> inflight st k = None \<and> remembers st k n = None
      | Calling r \<Rightarrow> req_ids r = (k, n) \<and>
          (if is_update r
           then (case remembers st k n of
                   None \<Rightarrow> inflight st k = None \<and> (\<forall>(r', v') \<in> set (served st). req_ids r' \<noteq> (k, n))
                 | Some v \<Rightarrow> in_call st k r v \<and> (\<forall>rep. inflight st k = Some rep \<longrightarrow> rep = RValue v))
           else (\<exists>a. r = ReqGet a) \<and> remembers st k n = None \<and>
             (\<forall>rep. inflight st k = Some rep \<longrightarrow> (\<exists>v. rep = RValue v \<and> in_call st k r v)))
      | Succeeding r v \<Rightarrow> req_ids r = (k, n) \<and> is_update r \<and> in_call st k r v \<and>
          (inflight st k \<noteq> None \<longrightarrow> remembers st k n = None))"

definition clerk_ok :: "SrvSys \<Rightarrow> int \<Rightarrow> bool" where
  "clerk_ok st k \<longleftrightarrow>
     sck_ClientID (clerks st k) = k \<and> began st k \<le> length (served st) \<and>
     (\<forall>(r, v) \<in> set (served st). fst (req_ids r) = k \<longrightarrow> snd (req_ids r) < sck_NextCallID (clerks st k)) \<and>
     (\<forall>n. n \<noteq> sck_NextCallID (clerks st k) - 1 \<longrightarrow> remembers st k n = None) \<and>
     phase_ok st k (sck_NextCallID (clerks st k) - 1) (sck_phase (clerks st k))"

definition returned_ok :: "SrvSys \<Rightarrow> bool" where
  "returned_ok st \<longleftrightarrow>
     (\<forall>(r, v, b, e) \<in> set (returned st). e \<le> length (served st) \<and> (r, v) \<in> set (drop b (take e (served st))))"

definition updates :: "(SrvRequest \<times> string) list \<Rightarrow> (int \<times> int) list" where
  "updates h = map (\<lambda>(r, v). req_ids r) (filter (\<lambda>(r, v). is_update r) h)"

lemma updates_simps [simp]:
  "updates (h @ h') = updates h @ updates h'" "updates [] = []"
  "updates [(r, v)] = (if is_update r then [req_ids r] else [])"
  by (simp_all add: updates_def)

definition srv_inv :: "SrvSys \<Rightarrow> bool" where
  "srv_inv st \<longleftrightarrow>
     seq_run (served st) Map.empty = Some (pairs (server st)) \<and> distinct (updates (served st)) \<and>
     dom (results (server st)) \<subseteq> {getKey k n |k n. True} \<and> (\<forall>k. clerk_ok st k) \<and> returned_ok st"

text \<open>What a clerk relies on is kept by a step of another one.\<close>

lemma clerk_ok_frame:
  assumes "clerk_ok st k" "clerks st' k = clerks st k" "inflight st' k = inflight st k" "began st' k = began st k"
    and "\<And>n. remembers st' k n = remembers st k n"
    and "served st' = served st @ h" "\<And>r v. (r, v) \<in> set h \<Longrightarrow> fst (req_ids r) \<noteq> k"
  shows "clerk_ok st' k"
proof -
  have "in_call st k r v \<Longrightarrow> in_call st' k r v" for r v using assms(4,6) by (auto simp: in_call_def)
  moreover have "req_ids r' \<noteq> (k, n)" if "(r', v') \<in> set h" for r' v' n using assms(7) [OF that] by auto
  ultimately have "phase_ok st' k n ph" if "phase_ok st k n ph" for n ph
    using that assms(3,5,6) by (force simp: phase_ok_def split: SrvPhase.splits option.splits if_splits)
  moreover have "\<forall>(r, v) \<in> set h. fst (req_ids r) \<noteq> k" using assms(7) by blast
  ultimately show ?thesis using assms(1-6) by (auto simp: clerk_ok_def)
qed

lemma returned_ok_served: "returned_ok st \<Longrightarrow> served st' = served st @ h \<Longrightarrow> returned st' = returned st \<Longrightarrow> returned_ok st'"
  by (fastforce simp: returned_ok_def)

lemma start_call_inv:
  assumes inv: "srv_inv st" and start: "start_call k f st = Some st'"
    and f: "f (clerks st k) = (clerks st k)\<lparr>sck_NextCallID := sck_NextCallID (clerks st k) + 1, sck_phase := Calling r\<rparr>"
    and r: "req_ids r = (sck_ClientID (clerks st k), sck_NextCallID (clerks st k))" "is_update r \<or> (\<exists>a. r = ReqGet a)"
  shows "srv_inv st'"
proof -
  let ?n = "sck_NextCallID (clerks st k)"
  from start have out: "sck_phase (clerks st k) = Outside" and st': "st' = st\<lparr>clerks := (clerks st)(k := f (clerks st k)),
      began := (began st)(k := length (served st))\<rparr>" by (auto simp: start_call_def split: if_splits)
  have k: "clerk_ok st k" using inv by (simp add: srv_inv_def)
  with out have i: "inflight st k = None" and m: "remembers st k n = None" for n
    by (cases "n = ?n - 1"; auto simp: clerk_ok_def phase_ok_def)+
  have old: "\<forall>(r', v') \<in> set (served st). req_ids r' \<noteq> (k, ?n)"
    using k by (fastforce simp: clerk_ok_def)
  have "clerk_ok st' k"
    using k i m old r f by (force simp: clerk_ok_def phase_ok_def st' remembers_def)
  moreover have "clerk_ok st' j" if "j \<noteq> k" for j
    using clerk_ok_frame [of st j st' "[]"] inv that by (simp add: srv_inv_def st' remembers_def)
  ultimately have "\<forall>j. clerk_ok st' j" by metis
  then show ?thesis using inv by (simp add: srv_inv_def st' returned_ok_def)
qed

text \<open>What serving a request does to the server, by kind of request.\<close>

lemma srv_serve_update:
  assumes "is_update r" "srv_serve r kv = (rep, kv')" "req_ids r = (c, n)"
  shows "\<exists>v. rep = RValue v \<and> results kv' = (results kv)(getKey c n \<mapsto> v) \<and>
    (if results kv (getKey c n) = None then run_op r kv = [(r, v)] \<and> seq_op r (pairs kv) = (v, pairs kv')
     else run_op r kv = [] \<and> results kv (getKey c n) = Some v \<and> pairs kv' = pairs kv)"
  using assms
  by (cases r) (auto simp: srv_serve_def srv_Put_def srv_Append_def run_op_def Let_def fun_eq_iff split: option.splits)

lemma srv_serve_Get:
  "srv_serve (ReqGet a) kv = (RValue (lookup (pairs kv) (sg_Key a)), kv)"
  "run_op (ReqGet a) kv = [(ReqGet a, lookup (pairs kv) (sg_Key a))]"
  by (simp_all add: srv_serve_def srv_Get_def run_op_def)

lemma srv_serve_Succeed:
  "srv_serve (ReqSucceed a) kv = (RSucceed True, kv\<lparr>results := (results kv)(getKey (ss_ClientID a) (ss_CallID a) := None)\<rparr>)"
  "run_op (ReqSucceed a) kv = []"
  by (simp_all add: srv_serve_def srv_Succeed_def run_op_def)

lemma serve_others:
  assumes inv: "srv_inv st" and ids: "req_ids r = (k, n)" and serve: "srv_serve r (server st) = (rep, kv)"
    and kind: "is_update r \<or> (\<exists>a. r = ReqGet a) \<or> (\<exists>a. r = ReqSucceed a)" and j: "j \<noteq> k"
  shows "clerk_ok (st\<lparr>server := kv, inflight := (inflight st)(k \<mapsto> rep), served := served st @ run_op r (server st)\<rparr>) j"
proof (rule clerk_ok_frame)
  show "clerk_ok st j" using inv by (simp add: srv_inv_def)
  have "results kv (getKey j m) = results (server st) (getKey j m)" for m
    using srv_serve_update [OF _ serve ids] kind serve ids j
    by (cases r) (auto simp: srv_serve_Get srv_serve_Succeed)
  then show "remembers (st\<lparr>server := kv, inflight := (inflight st)(k \<mapsto> rep), served := served st @ run_op r (server st)\<rparr>) j m =
      remembers st j m" for m by (simp add: remembers_def)
  show "fst (req_ids r') \<noteq> j" if "(r', v) \<in> set (run_op r (server st))" for r' v
    using that ids j by (cases r) (auto simp: run_op_def split: if_splits)
qed (use j in simp_all)

lemma serve_self:
  assumes ok: "clerk_ok st k" and req: "clerk_request (clerks st k) = Some r" and idle: "inflight st k = None"
    and serve: "srv_serve r (server st) = (rep, kv)"
    and st': "server st' = kv" "inflight st' k = Some rep" "served st' = served st @ run_op r (server st)"
      "clerks st' k = clerks st k" "began st' k = began st k"
  shows "clerk_ok st' k"
proof (cases "sck_phase (clerks st k)")
  case Outside
  with req show ?thesis by (simp add: clerk_request_def)
next
  case (Calling r')
  then have r: "r' = r" and ids: "req_ids r = (k, sck_NextCallID (clerks st k) - 1)" (is "_ = (k, ?n)")
    using req ok by (simp_all add: clerk_request_def clerk_ok_def phase_ok_def)
  show ?thesis
  proof (cases "is_update r")
    case True
    from srv_serve_update [OF True serve ids] obtain v where v: "rep = RValue v"
      "results kv = (results (server st))(getKey k ?n \<mapsto> v)"
      "if remembers st k ?n = None then run_op r (server st) = [(r, v)]
       else run_op r (server st) = [] \<and> remembers st k ?n = Some v" by (auto simp: remembers_def split: if_splits)
    have rem: "remembers st' k m = (if m = ?n then Some v else remembers st k m)" for m
      by (simp add: remembers_def v(2) st')
    have "in_call st' k r v" using ok v(3) Calling r True ids
      by (auto simp: in_call_def clerk_ok_def phase_ok_def st' split: if_splits)
    with ok v(1,3) Calling r True ids show ?thesis
      by (auto simp: clerk_ok_def phase_ok_def rem st' split: if_splits)
  next
    case False
    with ok Calling r obtain a where a: "r = ReqGet a" by (auto simp: clerk_ok_def phase_ok_def)
    with serve ok Calling r ids show ?thesis
      by (auto simp: clerk_ok_def phase_ok_def in_call_def remembers_def srv_serve_Get st')
  qed
next
  case (Succeeding r' v)
  with req serve ok show ?thesis
    by (auto simp: clerk_request_def clerk_ok_def phase_ok_def in_call_def remembers_def srv_serve_Succeed st')
qed

lemma request_kinds:
  assumes "clerk_ok st k" "clerk_request (clerks st k) = Some r"
  shows "req_ids r = (k, sck_NextCallID (clerks st k) - 1)" "is_update r \<or> (\<exists>a. r = ReqGet a) \<or> (\<exists>a. r = ReqSucceed a)"
  using assms by (auto simp: clerk_ok_def phase_ok_def clerk_request_def split: SrvPhase.splits if_splits)

lemma serve_history:
  assumes inv: "srv_inv st" and req: "clerk_request (clerks st k) = Some r"
    and serve: "srv_serve r (server st) = (rep, kv)"
  shows "seq_run (served st @ run_op r (server st)) Map.empty = Some (pairs kv)"
    and "distinct (updates (served st @ run_op r (server st)))"
    and "dom (results kv) \<subseteq> {getKey k n |k n. True}"
proof -
  have k: "clerk_ok st k" and h: "seq_run (served st) Map.empty = Some (pairs (server st))" "distinct (updates (served st))"
    "dom (results (server st)) \<subseteq> {getKey k n |k n. True}"
    using inv by (simp_all add: srv_inv_def)
  note kinds = request_kinds [OF k req]
  have new: "(k, sck_NextCallID (clerks st k) - 1) \<notin> set (updates (served st))"
    if "is_update r" "results (server st) (getKey k (sck_NextCallID (clerks st k) - 1)) = None"
    using k that req
    by (auto simp: updates_def clerk_ok_def phase_ok_def clerk_request_def remembers_def split: SrvPhase.splits)
  show "seq_run (served st @ run_op r (server st)) Map.empty = Some (pairs kv)"
    using kinds srv_serve_update [OF _ serve kinds(1)] serve h(1)
    by (auto simp: seq_run_append srv_serve_Get srv_serve_Succeed split: if_splits)
  show "distinct (updates (served st @ run_op r (server st)))"
    using kinds srv_serve_update [OF _ serve kinds(1)] h(2) new
    by (auto simp: srv_serve_Get srv_serve_Succeed split: if_splits)
  have "dom (results kv) \<subseteq> insert (getKey k (sck_NextCallID (clerks st k) - 1)) (dom (results (server st)))"
    using kinds srv_serve_update [OF _ serve kinds(1)] serve
    by (auto simp: srv_serve_Get srv_serve_Succeed split: if_splits)
  then show "dom (results kv) \<subseteq> {getKey k n |k n. True}" using h(3) by blast
qed

lemma serve_inv:
  assumes inv: "srv_inv st" and step: "srv_step (Serve k) st = Some st'"
  shows "srv_inv st'"
proof -
  from step obtain r rep kv where req: "clerk_request (clerks st k) = Some r" and idle: "inflight st k = None"
    and serve: "srv_serve r (server st) = (rep, kv)"
    and st': "st' = st\<lparr>server := kv, inflight := (inflight st)(k \<mapsto> rep), served := served st @ run_op r (server st)\<rparr>"
    by (auto split: option.splits prod.splits)
  have k: "clerk_ok st k" using inv by (simp add: srv_inv_def)
  note kinds = request_kinds [OF k req]
  have "clerk_ok st' j" for j
  proof (cases "j = k")
    case True
    with serve_self [OF k req idle serve] show ?thesis by (simp add: st')
  qed (unfold st', rule serve_others [OF inv kinds(1) serve kinds(2)])
  moreover have "returned_ok st'" using inv returned_ok_served [of st st'] by (simp add: srv_inv_def st')
  ultimately show ?thesis using serve_history [OF inv req serve] by (simp add: srv_inv_def st')
qed

text \<open>The outcome of a call keeps what holds of the clerk that made it, and returns a served value.\<close>

lemma outcome_lost [simp]: "clerk_outcome None ck = (ck, None)"
  by (cases "sck_phase ck") (simp_all add: clerk_outcome_def)

lemma outcome_phase:
  assumes ok: "phase_ok st k n (sck_phase (clerks st k))" and rep: "rep = None \<or> rep = inflight st k"
    and o: "clerk_outcome rep (clerks st k) = (ck, ret)"
    and st': "server st' = server st" "served st' = served st" "began st' = began st" "inflight st' k = None"
  shows "phase_ok st' k n (sck_phase ck)"
    and "ret = Some v \<Longrightarrow> call_of (sck_phase (clerks st k)) = Some r \<Longrightarrow> in_call st k r v"
proof -
  have eq: "in_call st' k r v = in_call st k r v" "remembers st' k m = remembers st k m" for r v m
    by (simp_all add: in_call_def remembers_def st')
  have keep: "phase_ok st' k n (sck_phase (clerks st k))"
    using ok by (cases "sck_phase (clerks st k)") (auto simp: phase_ok_def eq st' split: option.splits)
  have "phase_ok st' k n (sck_phase ck) \<and>
      (ret = Some v \<longrightarrow> call_of (sck_phase (clerks st k)) = Some r \<longrightarrow> in_call st k r v)"
  proof (cases rep)
    case None
    with o keep show ?thesis by auto
  next
    case (Some x)
    with rep have i: "inflight st k = Some x" by simp
    show ?thesis
    proof (cases "sck_phase (clerks st k)")
      case Outside
      with ok i show ?thesis by (simp add: phase_ok_def)
    next
      case (Calling q)
      with ok i obtain u where u: "x = RValue u" "in_call st k q u"
        by (auto simp: phase_ok_def split: if_splits option.splits)
      with o Some Calling ok have "ck = (clerks st k)\<lparr>sck_phase := (if is_update q then Succeeding q u else Outside)\<rparr>"
        "ret = (if is_update q then None else Some u)"
        by (cases q; auto simp: clerk_outcome_def phase_ok_def)+
      with Calling ok u show ?thesis by (cases "is_update q") (auto simp add: phase_ok_def eq st')
    next
      case (Succeeding q u)
      with ok o Some i show ?thesis by (cases x) (auto simp: phase_ok_def clerk_outcome_def eq st')
    qed
  qed
  then show "phase_ok st' k n (sck_phase ck)"
    "ret = Some v \<Longrightarrow> call_of (sck_phase (clerks st k)) = Some r \<Longrightarrow> in_call st k r v" by blast+
qed

lemma outcome_ids:
  "clerk_outcome rep ck = (ck', ret) \<Longrightarrow> sck_ClientID ck' = sck_ClientID ck \<and> sck_NextCallID ck' = sck_NextCallID ck"
  by (auto simp: clerk_outcome_def split: SrvPhase.splits SrvRequest.splits SrvReply.splits option.splits)

lemma end_call_inv:
  assumes inv: "srv_inv st" and rep: "rep = None \<or> rep = inflight st k"
  shows "srv_inv (end_call k rep st)"
proof -
  let ?st = "end_call k rep st"
  obtain ck ret where o: "clerk_outcome rep (clerks st k) = (ck, ret)" by fastforce
  have k: "clerk_ok st k" using inv by (simp add: srv_inv_def)
  have fields: "server ?st = server st" "served ?st = served st" "began ?st = began st" "clerks ?st = (clerks st)(k := ck)"
    "inflight ?st = (inflight st)(k := None)" by (simp_all add: end_call_def o)
  from k have ph: "phase_ok st k (sck_NextCallID (clerks st k) - 1) (sck_phase (clerks st k))" by (simp add: clerk_ok_def)
  note out = outcome_phase [OF ph rep o, of ?st, simplified fields, simplified]
  have "clerk_ok ?st k"
    using k out(1) outcome_ids [OF o] by (simp add: clerk_ok_def fields remembers_def)
  moreover have "clerk_ok ?st j" if "j \<noteq> k" for j
    using clerk_ok_frame [of st j ?st "[]"] inv that by (simp add: srv_inv_def fields remembers_def)
  ultimately have "\<forall>j. clerk_ok ?st j" by metis
  moreover have "returned_ok ?st" using inv out(2)
    by (auto simp: srv_inv_def returned_ok_def end_call_def o in_call_def split: option.splits)
  ultimately show ?thesis using inv by (simp add: srv_inv_def fields)
qed

lemma srv_init_inv: "srv_inv srv_init"
  by (simp add: srv_inv_def srv_init_def srv_Start_def clerk_ok_def phase_ok_def remembers_def srv_MakeClerk_def
      returned_ok_def)

lemma srv_step_inv:
  assumes inv: "srv_inv st" and step: "srv_step m st = Some st'"
  shows "srv_inv st'"
proof (cases m)
  case (BeginGet k key)
  with step have "start_call k (begin_Get key) st = Some st'" by simp
  from start_call_inv [OF inv this] show ?thesis by (simp add: begin_Get_def)
next
  case (BeginPut k key u)
  with step have "start_call k (begin_PutAppend key u ReqPut) st = Some st'" by simp
  from start_call_inv [OF inv this] show ?thesis by (simp add: begin_PutAppend_def)
next
  case (BeginAppend k key u)
  with step have "start_call k (begin_PutAppend key u ReqAppend) st = Some st'" by simp
  from start_call_inv [OF inv this] show ?thesis by (simp add: begin_PutAppend_def)
next
  case (Serve k)
  with serve_inv [OF inv] step show ?thesis by blast
next
  case (Deliver k)
  with step end_call_inv [OF inv, of "inflight st k" k] show ?thesis by (auto split: option.splits)
next
  case (Lose k)
  with step end_call_inv [OF inv, of None k] show ?thesis by (auto split: if_splits)
qed

interpretation srv_system: inductive_invariant "(=) srv_init" "\<lambda>s t. \<exists>m. srv_step m s = Some t" srv_inv
  using srv_init_inv srv_step_inv by unfold_locales blast+

lemma srv_run_reach:
  "srv_run ms st = Some st' \<Longrightarrow> reach ((=) srv_init) (\<lambda>s t. \<exists>m. srv_step m s = Some t) st \<Longrightarrow>
   reach ((=) srv_init) (\<lambda>s t. \<exists>m. srv_step m s = Some t) st'"
proof (induction ms arbitrary: st)
  case (Cons m ms)
  then obtain st1 where "srv_step m st = Some st1" "srv_run ms st1 = Some st'" by (auto split: option.splits)
  with Cons.IH Cons.prems(2) show ?case by (blast intro: reach_step)
qed simp

lemma srv_run_inv: "srv_run ms srv_init = Some st \<Longrightarrow> srv_inv st"
  by (rule srv_system.inv_reach) (blast intro: srv_run_reach reach_init)

section \<open>Linearizability and at-most-once execution\<close>

text \<open>
  C5: the single server is linearizable and runs every update once. Let any clerks call the server
  over a network that loses any requests and replies, in any interleaving. The operations in the order
  in which the server ran them are a legal history of the sequential specification, with the
  contents of the server as its end; no Put or Append occurs twice in it, however often it was sent; and
  every call that returned occurs in it with the value it returned, between its begin and its return.
\<close>

theorem srv_linearizable:
  assumes "srv_run ms srv_init = Some st"
  shows "seq_run (served st) Map.empty = Some (pairs (server st)) \<and> distinct (updates (served st)) \<and>
    (\<forall>(r, v, b, e) \<in> set (returned st). (r, v) \<in> set (drop b (take e (served st))))"
  using srv_run_inv [OF assms] by (auto simp: srv_inv_def returned_ok_def)

text \<open>Two clerks append to one key; the first request of clerk 1 is lost, and so is the reply to its second one.\<close>

definition srv_sample :: "SrvMove list" where
  "srv_sample = [BeginAppend 1 ''k'' ''a'', Lose 1, Serve 1, BeginAppend 2 ''k'' ''b'', Serve 2, Lose 1, Serve 1,
     Deliver 1, Serve 1, Deliver 2, Deliver 1, BeginGet 1 ''k'', Serve 1, Deliver 1]"

definition srv_sample_state :: SrvSys where
  "srv_sample_state = the (srv_run srv_sample srv_init)"

lemma srv_sample_run: "srv_run srv_sample srv_init = Some srv_sample_state"
proof -
  have "srv_run srv_sample srv_init \<noteq> None" by code_simp
  then show ?thesis by (simp add: srv_sample_state_def option.collapse)
qed

theorem srv_linearizable_witness:
  "pairs (server srv_sample_state) ''k'' = Some ''ab'' \<and> length (served srv_sample_state) = 3 \<and>
   map (\<lambda>(r, v, b, e). v) (returned srv_sample_state) = ['''', ''ab''] \<and>
   seq_run (served srv_sample_state) Map.empty = Some (pairs (server srv_sample_state)) \<and>
   distinct (updates (served srv_sample_state))"
proof -
  have "pairs (server srv_sample_state) ''k'' = Some ''ab''" "length (served srv_sample_state) = 3"
    "map (\<lambda>(r, v, b, e). v) (returned srv_sample_state) = ['''', ''ab'']" by code_simp+
  with srv_linearizable [OF srv_sample_run] show ?thesis by blast
qed

section \<open>Memory\<close>

text \<open>
  C24: the table of results does not grow. A result is kept only for a Put or Append that its clerk is
  in; so the server keeps at most one result for every clerk that is in a call, and none when no clerk is.
\<close>

theorem srv_results_bounded:
  assumes "srv_run ms srv_init = Some st"
  shows "(\<forall>key v. results (server st) key = Some v \<longrightarrow>
      (\<exists>k r. call_of (sck_phase (clerks st k)) = Some r \<and> is_update r \<and> req_ids r = (k, snd (req_ids r)) \<and>
        key = getKey k (snd (req_ids r)))) \<and>
    (finite {k. sck_phase (clerks st k) \<noteq> Outside} \<longrightarrow>
      card (dom (results (server st))) \<le> card {k. sck_phase (clerks st k) \<noteq> Outside})"
proof -
  have inv: "srv_inv st" by (rule srv_run_inv [OF assms])
  let ?busy = "{k. sck_phase (clerks st k) \<noteq> Outside}"
  have call: "\<exists>k r. call_of (sck_phase (clerks st k)) = Some r \<and> is_update r \<and> req_ids r = (k, snd (req_ids r)) \<and>
      key = getKey k (snd (req_ids r))" if res: "results (server st) key = Some v" for key v
  proof -
    from inv res obtain k n where key: "key = getKey k n" by (auto simp: srv_inv_def)
    with res have "remembers st k n = Some v" by (simp add: remembers_def)
    moreover have "clerk_ok st k" using inv by (simp add: srv_inv_def)
    ultimately have "\<exists>r. call_of (sck_phase (clerks st k)) = Some r \<and> is_update r \<and> req_ids r = (k, n)"
      by (cases "sck_phase (clerks st k)"; cases "n = sck_NextCallID (clerks st k) - 1")
        (auto simp: clerk_ok_def phase_ok_def split: if_splits)
    with key show ?thesis by force
  qed
  let ?f = "\<lambda>k. case call_of (sck_phase (clerks st k)) of Some r \<Rightarrow> getKey k (snd (req_ids r)) | None \<Rightarrow> ''''"
  have "dom (results (server st)) \<subseteq> ?f ` ?busy"
  proof
    fix key
    assume "key \<in> dom (results (server st))"
    with call obtain k r where k: "call_of (sck_phase (clerks st k)) = Some r" "key = getKey k (snd (req_ids r))" by blast
    then have "k \<in> ?busy" "key = ?f k" by auto
    then show "key \<in> ?f ` ?busy" by blast
  qed
  then have "card (dom (results (server st))) \<le> card ?busy" if "finite ?busy"
    using surj_card_le [OF that] by blast
  with call show ?thesis by blast
qed

theorem srv_results_bounded_witness:
  "results (server (the (srv_run (take 4 srv_sample) srv_init))) (getKey 1 0) = Some '''' \<and>
   (\<exists>k r. call_of (sck_phase (clerks (the (srv_run (take 4 srv_sample) srv_init)) k)) = Some r \<and> is_update r \<and>
     req_ids r = (k, snd (req_ids r)) \<and> getKey 1 0 = getKey k (snd (req_ids r)))"
proof -
  let ?st = "the (srv_run (take 4 srv_sample) srv_init)"
  have "srv_run (take 4 srv_sample) srv_init \<noteq> None" by code_simp
  then have run: "srv_run (take 4 srv_sample) srv_init = Some ?st" by simp
  have "results (server ?st) (getKey 1 0) = Some ''''" by code_simp
  with srv_results_bounded [OF run] show ?thesis by blast
qed

end
