(* ===== verification/MrWorker.thy ===== *)
theory MrWorker
  imports Strconv "HOL-Library.Word" "HOL-Library.Signed_Division" "HOL-Library.Char_ord" "HOL-Library.List_Lexorder" "HOL-Library.Multiset"
begin

text \<open>
  The computations of MapReduce (\<^verbatim>\<open>src/mr/worker.go\<close>, \<^verbatim>\<open>src/main/mrsequential.go\<close> and the application
  \<^verbatim>\<open>src/mrapps/wc.go\<close>): the hash that chooses the reduce task of a key, the names of the intermediate
  files, the loop that calls \<^verbatim>\<open>reducef\<close> once for every key, and the sequential program. Strings are
  sequences of bytes, ordered byte by byte; the text that the word count splits is ASCII. The application's \<^verbatim>\<open>mapf\<close> and \<^verbatim>\<open>reducef\<close> are parameters, and
  so is \<^verbatim>\<open>sort.Sort\<close>, which promises a sorted permutation and nothing about the order of equal keys.
  The lemmas take the number of reduce tasks to be positive.
\<close>

unbundle bit_operations_syntax

section \<open>Keys and their reduce tasks\<close>

record KeyValue =
  kv_Key :: string
  kv_Value :: string

text \<open>The 32-bit FNV-1a hash of \<^verbatim>\<open>hash/fnv\<close>: multiply by the prime after each byte.\<close>

definition fnv32a :: "string \<Rightarrow> 32 word" where
  "fnv32a s = fold (\<lambda>c h. (h XOR of_char c) * 16777619) s 2166136261"

definition ihash :: "string \<Rightarrow> int" where
  "ihash key = uint (fnv32a key AND 0x7fffffff)"

text \<open>
  Go's remainder \<^verbatim>\<open>%\<close> takes the sign of the dividend, as \<^verbatim>\<open>smod\<close> does; a divisor 0 is the panic of the map
  step in the theory of the job.
\<close>

definition reduce_index :: "int \<Rightarrow> string \<Rightarrow> int" where
  "reduce_index nReduce key = ihash key smod nReduce"

definition iFileName :: "int \<Rightarrow> int \<Rightarrow> string" where
  "iFileName index r = ''mr-'' @ FormatInt index @ ''-'' @ FormatInt r"

definition oFileName :: "int \<Rightarrow> string" where
  "oFileName index = ''mr-out-'' @ FormatInt index"

text \<open>What the coordinator reads from the name of an intermediate file: the third part, as a number.\<close>

definition file_index :: "string \<Rightarrow> int option go" where
  "file_index filename = go_bind (go_index (Split CHR ''-'' filename) 2) (\<lambda>p. Inr (Atoi p))"

section \<open>One call of reducef for every key\<close>

function next_key :: "KeyValue list \<Rightarrow> nat \<Rightarrow> nat \<Rightarrow> nat" where
  "next_key kva i j =
     (if j < length kva \<and> kv_Key (kva ! j) = kv_Key (kva ! i) then next_key kva i (j + 1) else j)"
  by pat_completeness auto
termination by (relation "measure (\<lambda>(kva, i, j). length kva - j)") auto

declare next_key.simps [simp del]

lemma next_key_ge: "j \<le> next_key kva i j"
proof (induction kva i j rule: next_key.induct)
  case (1 kva i j)
  then show ?case by (subst next_key.simps) auto
qed

function reduce_loop :: "(string \<Rightarrow> string list \<Rightarrow> string) \<Rightarrow> KeyValue list \<Rightarrow> nat \<Rightarrow> (string \<times> string) list" where
  "reduce_loop reducef kva i =
     (if i < length kva then
        (let j = next_key kva i (i + 1);
             values = map (\<lambda>k. kv_Value (kva ! k)) [i..<j]
         in (kv_Key (kva ! i), reducef (kv_Key (kva ! i)) values) # reduce_loop reducef kva j)
      else [])"
  by pat_completeness auto
termination
proof (relation "measure (\<lambda>(reducef, kva, i). length kva - i)")
  fix reducef :: "string \<Rightarrow> string list \<Rightarrow> string" and kva :: "KeyValue list" and i j
  assume "i < length kva" "j = next_key kva i (i + 1)"
  with next_key_ge [of "i + 1" kva i]
  show "((reducef, kva, j), (reducef, kva, i)) \<in> measure (\<lambda>(reducef, kva, i). length kva - i)" by auto
qed auto

declare reduce_loop.simps [simp del]

text \<open>The line that \<^verbatim>\<open>Fprintf\<close> writes for a key.\<close>

definition out_line :: "string \<times> string \<Rightarrow> string" where
  "out_line p = fst p @ '' '' @ snd p @ [CHR 0x0A]"

section \<open>The sequential program\<close>

definition mrsequential ::
    "(KeyValue list \<Rightarrow> KeyValue list) \<Rightarrow> (string \<Rightarrow> string \<Rightarrow> KeyValue list) \<Rightarrow> (string \<Rightarrow> string list \<Rightarrow> string) \<Rightarrow>
      (string \<times> string) list \<Rightarrow> string list" where
  "mrsequential srt mapf reducef files =
     (let intermediate = fold (\<lambda>(filename, content) acc. acc @ mapf filename content) files []
      in map out_line (reduce_loop reducef (srt intermediate) 0))"

section \<open>The word-count application\<close>

text \<open>\<^verbatim>\<open>strings.FieldsFunc\<close>: the maximal runs of characters that are no separators. \<open>isLetter\<close> is \<^verbatim>\<open>unicode.IsLetter\<close>.\<close>

function FieldsFunc :: "(char \<Rightarrow> bool) \<Rightarrow> string \<Rightarrow> string list" where
  "FieldsFunc sep s =
     (let s1 = dropWhile sep s in
      if s1 = [] then [] else takeWhile (\<lambda>c. \<not> sep c) s1 # FieldsFunc sep (dropWhile (\<lambda>c. \<not> sep c) s1))"
  by pat_completeness auto
termination
proof (relation "measure (\<lambda>(sep, s). length s)")
  fix sep :: "char \<Rightarrow> bool" and s s1
  assume s1: "s1 = dropWhile sep s" "s1 \<noteq> []"
  then have "\<not> sep (hd s1)" by (simp add: hd_dropWhile)
  with s1(2) have "length (dropWhile (\<lambda>c. \<not> sep c) s1) < length s1"
    by (cases s1) (simp_all add: length_dropWhile_le le_imp_less_Suc)
  moreover have "length s1 \<le> length s" using s1(1) by (simp add: length_dropWhile_le)
  ultimately show "((sep, dropWhile (\<lambda>c. \<not> sep c) s1), (sep, s)) \<in> measure (\<lambda>(sep, s). length s)" by simp
qed auto

declare FieldsFunc.simps [simp del]

definition wc_Map :: "(char \<Rightarrow> bool) \<Rightarrow> string \<Rightarrow> string \<Rightarrow> KeyValue list" where
  "wc_Map isLetter filename contents =
     map (\<lambda>w. \<lparr>kv_Key = w, kv_Value = ''1''\<rparr>) (FieldsFunc (\<lambda>c. \<not> isLetter c) contents)"

definition wc_Reduce :: "string \<Rightarrow> string list \<Rightarrow> string" where
  "wc_Reduce key values = FormatInt (int (length values))"

section \<open>Bounds and names\<close>

text \<open>The hash of a key fits into 31 bits, so its remainder is the index of one of the reduce tasks.\<close>

lemma ihash_bounds: "0 \<le> ihash key" "ihash key < 2 ^ 31"
proof -
  have "0x7fffffff = (mask 31 :: 32 word)" by (simp add: mask_eq_exp_minus_1)
  then have "ihash key = uint (take_bit 31 (fnv32a key))" by (simp add: ihash_def take_bit_eq_mask)
  then have "ihash key = take_bit 31 (uint (fnv32a key))" by (simp add: unsigned_take_bit_eq)
  then show "0 \<le> ihash key" "ihash key < 2 ^ 31" using take_bit_int_less_exp [of 31 "uint (fnv32a key)"] by simp_all
qed

lemma reduce_index_mod: "0 < n \<Longrightarrow> reduce_index n key = ihash key mod n"
  using ihash_bounds(1) [of key] by (simp add: reduce_index_def smod_mod_positive)

lemma reduce_index_range: "0 < n \<Longrightarrow> 0 \<le> reduce_index n key \<and> reduce_index n key < n"
  by (simp add: reduce_index_mod)

lemma Split_iFileName:
  assumes "0 \<le> i" "0 \<le> r"
  shows "Split CHR ''-'' (iFileName i r) = [''mr'', FormatInt i, FormatInt r]"
proof -
  have "iFileName i r = ''mr'' @ CHR ''-'' # (FormatInt i @ CHR ''-'' # FormatInt r)" by (simp add: iFileName_def)
  moreover have "Split CHR ''-'' (''mr'' @ CHR ''-'' # xs) = ''mr'' # Split CHR ''-'' xs" for xs
    by (rule Split_prefix) simp
  moreover note Split_prefix [OF FormatInt_no_dash [OF assms(1)]] Split_single [OF FormatInt_no_dash [OF assms(2)]]
  ultimately show ?thesis by (simp only:)
qed

lemma append_sep_inject:
  "sep \<notin> set xs \<Longrightarrow> sep \<notin> set xs' \<Longrightarrow> xs @ sep # ys = xs' @ sep # ys' \<longleftrightarrow> xs = xs' \<and> ys = ys'"
proof (induction xs arbitrary: xs')
  case Nil
  then show ?case by (cases xs') auto
next
  case (Cons x xs)
  then show ?case by (cases xs') auto
qed

lemma iFileName_inject:
  assumes "0 \<le> i" "0 \<le> i'"
  shows "iFileName i r = iFileName i' r' \<longleftrightarrow> i = i' \<and> r = r'"
  using append_sep_inject [OF FormatInt_no_dash [OF assms(1)] FormatInt_no_dash [OF assms(2)], of "FormatInt r" "FormatInt r'"]
  by (simp add: iFileName_def)

lemma file_index_eq: "0 \<le> i \<Longrightarrow> 0 \<le> r \<Longrightarrow> r < 2 ^ 63 \<Longrightarrow> file_index (iFileName i r) = Inr (Some r)"
  by (simp add: file_index_def Split_iFileName go_index_def Atoi_FormatInt)

text \<open>
  The name of an intermediate file gives back its reduce task. Splitting the name that a worker makes
  at the dashes and reading the third part, as the coordinator does, neither panics nor fails.
\<close>

theorem file_index_iFileName:
  assumes "0 \<le> index" "0 \<le> r" "r < 2 ^ 63"
  shows "file_index (iFileName index r) = Inr (Some r)"
  using assms by (rule file_index_eq)

theorem file_index_iFileName_witness: "file_index (iFileName 12 7) = Inr (Some 7)"
  using file_index_iFileName [of 12 7] by simp

section \<open>The loop over sorted pairs\<close>

function groups :: "(string \<Rightarrow> string list \<Rightarrow> string) \<Rightarrow> KeyValue list \<Rightarrow> (string \<times> string) list" where
  "groups reducef [] = []"
| "groups reducef (x # xs) =
     (kv_Key x, reducef (kv_Key x) (map kv_Value (x # takeWhile (\<lambda>y. kv_Key y = kv_Key x) xs))) #
     groups reducef (dropWhile (\<lambda>y. kv_Key y = kv_Key x) xs)"
  by pat_completeness auto
termination
  by (relation "measure (\<lambda>(reducef, xs). length xs)") (auto simp: le_imp_less_Suc length_dropWhile_le)

lemma next_key_eq:
  "next_key kva i j = j + length (takeWhile (\<lambda>y. kv_Key y = kv_Key (kva ! i)) (drop j kva))"
proof (induction kva i j rule: next_key.induct)
  case (1 kva i j)
  show ?case
  proof (cases "j < length kva")
    case True
    with 1 show ?thesis by (subst next_key.simps) (simp add: Cons_nth_drop_Suc [symmetric])
  qed (subst next_key.simps, simp)
qed

lemma map_nth_slice: "j \<le> length xs \<Longrightarrow> map ((!) xs) [i..<j] = take (j - i) (drop i xs)"
  by (rule nth_equalityI) auto

lemma reduce_loop_groups: "reduce_loop reducef kva i = groups reducef (drop i kva)"
proof (induction reducef kva i rule: reduce_loop.induct)
  case (1 reducef kva i)
  show ?case
  proof (cases "i < length kva")
    case True
    let ?same = "\<lambda>y. kv_Key y = kv_Key (kva ! i)"
    let ?n = "length (takeWhile ?same (drop (Suc i) kva))"
    have d: "drop i kva = kva ! i # drop (Suc i) kva" using True by (simp add: Cons_nth_drop_Suc)
    have j: "next_key kva i (i + 1) = Suc i + ?n" by (simp add: next_key_eq)
    have n: "?n \<le> length kva - Suc i" using length_takeWhile_le [of ?same "drop (Suc i) kva"] by simp
    have "map (\<lambda>k. kv_Value (kva ! k)) [i..<Suc i + ?n] = map kv_Value (map ((!) kva) [i..<Suc i + ?n])" by simp
    also have "\<dots> = map kv_Value (take (Suc ?n) (drop i kva))"
      using True n by (subst map_nth_slice) (simp_all add: Suc_diff_le)
    also have "\<dots> = map kv_Value (kva ! i # takeWhile ?same (drop (Suc i) kva))"
      by (simp add: d takeWhile_eq_take [symmetric])
    finally have vs: "map (\<lambda>k. kv_Value (kva ! k)) [i..<Suc i + ?n] =
      map kv_Value (kva ! i # takeWhile ?same (drop (Suc i) kva))" .
    have "reduce_loop reducef kva (Suc i + ?n) = groups reducef (drop (Suc i + ?n) kva)"
      using 1 [OF True refl] j by simp
    also have "drop (Suc i + ?n) kva = dropWhile ?same (drop (Suc i) kva)"
      by (simp add: dropWhile_eq_drop add.commute)
    finally show ?thesis using True j vs by (subst reduce_loop.simps) (simp add: Let_def d del: upt_Suc)
  qed (subst reduce_loop.simps, simp)
qed

text \<open>On sorted pairs the groups are the keys in order, each with all its values.\<close>

definition values_of :: "KeyValue list \<Rightarrow> string \<Rightarrow> string list" where
  "values_of kva k = map kv_Value (filter (\<lambda>y. kv_Key y = k) kva)"

definition reduce_spec :: "(string \<Rightarrow> string list \<Rightarrow> string) \<Rightarrow> KeyValue list \<Rightarrow> (string \<times> string) list" where
  "reduce_spec reducef kva =
     map (\<lambda>k. (k, reducef k (values_of kva k))) (sorted_list_of_set (kv_Key ` set kva))"

lemma sorted_same_prefix:
  assumes "sorted (map kv_Key (x # xs))"
  shows "takeWhile (\<lambda>y. kv_Key y = kv_Key x) xs = filter (\<lambda>y. kv_Key y = kv_Key x) xs \<and>
    dropWhile (\<lambda>y. kv_Key y = kv_Key x) xs = filter (\<lambda>y. kv_Key y \<noteq> kv_Key x) xs"
  using assms
proof (induction xs)
  case (Cons y ys)
  show ?case
  proof (cases "kv_Key y = kv_Key x")
    case False
    with Cons.prems have "kv_Key x < kv_Key z" if "z \<in> set (y # ys)" for z
      using that by (auto intro: le_neq_trans less_le_trans)
    then have "\<forall>z \<in> set (y # ys). kv_Key z \<noteq> kv_Key x" by fastforce
    with False show ?thesis by (simp add: filter_empty_conv)
  qed (use Cons in auto)
qed simp

lemma groups_sorted:
  "sorted (map kv_Key kva) \<Longrightarrow> groups reducef kva = reduce_spec reducef kva"
proof (induction reducef kva rule: groups.induct)
  case (2 reducef x xs)
  note same = sorted_same_prefix [OF 2(2)]
  let ?rest = "filter (\<lambda>y. kv_Key y \<noteq> kv_Key x) xs"
  have keys: "kv_Key ` set (x # xs) = insert (kv_Key x) (kv_Key ` set ?rest)" by auto
  have below: "\<forall>k \<in> kv_Key ` set ?rest. kv_Key x < k" using 2(2) by (auto simp: less_le)
  have ks: "sorted_list_of_set (kv_Key ` set (x # xs)) = kv_Key x # sorted_list_of_set (kv_Key ` set ?rest)"
  proof -
    have "kv_Key ` set ?rest - {kv_Key x} = kv_Key ` set ?rest" by auto
    with below show ?thesis unfolding keys
      by (simp only: sorted_list_of_set_insert_remove finite_imageI finite_set)
        (auto intro!: insort_is_Cons simp: less_imp_le)
  qed
  have vals: "values_of (x # xs) k = values_of ?rest k" if "k \<in> kv_Key ` set ?rest" for k
    using that below by (auto simp: values_of_def intro!: arg_cong [where f = "map kv_Value"] filter_cong)
  have "groups reducef ?rest = reduce_spec reducef ?rest"
    using 2(1) 2(2) same by (simp add: sorted_filter)
  moreover have "map (\<lambda>k. (k, reducef k (values_of ?rest k))) (sorted_list_of_set (kv_Key ` set ?rest)) =
      map (\<lambda>k. (k, reducef k (values_of (x # xs) k))) (sorted_list_of_set (kv_Key ` set ?rest))"
    using vals by (intro map_cong) auto
  moreover have "map kv_Value (x # takeWhile (\<lambda>y. kv_Key y = kv_Key x) xs) = values_of (x # xs) (kv_Key x)"
    using same by (simp add: values_of_def)
  ultimately show ?case using same by (simp only: reduce_spec_def ks groups.simps list.map)
qed (simp add: reduce_spec_def)

section \<open>Distributing the work\<close>

definition sorts :: "(KeyValue list \<Rightarrow> KeyValue list) \<Rightarrow> bool" where
  "sorts srt \<longleftrightarrow> (\<forall>xs. mset (srt xs) = mset xs \<and> sorted (map kv_Key (srt xs)))"

text \<open>A \<^verbatim>\<open>reducef\<close> whose result does not depend on the order of the values.\<close>

definition order_free :: "(string \<Rightarrow> string list \<Rightarrow> string) \<Rightarrow> bool" where
  "order_free reducef \<longleftrightarrow> (\<forall>k vs ws. mset vs = mset ws \<longrightarrow> reducef k vs = reducef k ws)"

lemma reduce_spec_mset:
  assumes "order_free reducef" "mset xs = mset ys"
  shows "reduce_spec reducef xs = reduce_spec reducef ys"
proof -
  have "mset (values_of xs k) = mset (values_of ys k)" for k using assms(2) by (simp add: values_of_def)
  moreover have "set xs = set ys" using assms(2) by (rule mset_eq_setD)
  ultimately have "set xs = set ys" "reducef k (values_of xs k) = reducef k (values_of ys k)" for k
    using assms(1) unfolding order_free_def by blast+
  then show ?thesis by (simp add: reduce_spec_def)
qed

lemma reduce_output_spec:
  assumes "sorts srt" "order_free reducef"
  shows "map out_line (reduce_loop reducef (srt xs) 0) = map out_line (reduce_spec reducef xs)"
proof -
  have "sorted (map kv_Key (srt xs))" "mset (srt xs) = mset xs" using assms(1) by (simp_all add: sorts_def)
  then show ?thesis
    by (simp add: reduce_loop_groups groups_sorted reduce_spec_mset [OF assms(2), of "srt xs" xs])
qed

lemma mset_reduce_spec:
  "mset (reduce_spec reducef xs) = image_mset (\<lambda>k. (k, reducef k (values_of xs k))) (mset_set (kv_Key ` set xs))"
  using mset_set_set [of "sorted_list_of_set (kv_Key ` set xs)"] by (simp add: reduce_spec_def)

text \<open>The pairs of reduce task \<open>r\<close>.\<close>

definition bucket :: "int \<Rightarrow> int \<Rightarrow> KeyValue list \<Rightarrow> KeyValue list" where
  "bucket nReduce r kva = filter (\<lambda>kv. reduce_index nReduce (kv_Key kv) = r) kva"

lemma mset_set_partition:
  assumes "finite K" "finite R" "\<And>k. k \<in> K \<Longrightarrow> h k \<in> R"
  shows "(\<Sum>r \<in> R. mset_set {k \<in> K. h k = r}) = mset_set K"
  using assms(1,3)
proof (induction K rule: finite_induct)
  case (insert x K)
  have "{k \<in> insert x K. h k = r} = (if h x = r then insert x {k \<in> K. h k = r} else {k \<in> K. h k = r})" for r by auto
  then have "mset_set {k \<in> insert x K. h k = r} = mset_set {k \<in> K. h k = r} + (if h x = r then {#x#} else {#})" for r
    using insert.hyps by simp
  then have "(\<Sum>r \<in> R. mset_set {k \<in> insert x K. h k = r}) =
      (\<Sum>r \<in> R. mset_set {k \<in> K. h k = r}) + (\<Sum>r \<in> R. if h x = r then {#x#} else {#})"
    by (simp add: sum.distrib)
  also have "(\<Sum>r \<in> R. if h x = r then {#x#} else {#}) = {#x#}"
    using assms(2) insert.prems [of x] by (simp add: sum.delta)
  finally show ?case using insert by simp
qed simp

lemma bucket_spec:
  "mset (reduce_spec reducef (bucket n r xs)) =
     image_mset (\<lambda>k. (k, reducef k (values_of xs k))) (mset_set {k \<in> kv_Key ` set xs. reduce_index n k = r})"
proof -
  have "kv_Key ` set (bucket n r xs) = {k \<in> kv_Key ` set xs. reduce_index n k = r}" by (auto simp: bucket_def)
  moreover have "values_of (bucket n r xs) k = values_of xs k" if "reduce_index n k = r" for k
    using that by (auto simp: values_of_def bucket_def intro!: arg_cong [where f = "map kv_Value"] filter_cong)
  ultimately show ?thesis by (auto simp: mset_reduce_spec intro!: image_mset_cong)
qed

lemma image_mset_Sum: "finite R \<Longrightarrow> image_mset f (\<Sum>r \<in> R. g r) = (\<Sum>r \<in> R. image_mset f (g r))"
  by (induction R rule: finite_induct) simp_all

text \<open>The outputs of all reduce tasks together are the output on all pairs.\<close>

lemma buckets_output:
  assumes "0 < n"
  shows "(\<Sum>r \<in> {0..<n}. mset (reduce_spec reducef (bucket n r xs))) = mset (reduce_spec reducef xs)"
proof -
  have "(\<Sum>r \<in> {0..<n}. mset_set {k \<in> kv_Key ` set xs. reduce_index n k = r}) = mset_set (kv_Key ` set xs)"
    using assms by (intro mset_set_partition) (auto simp: reduce_index_range)
  then show ?thesis
    unfolding bucket_spec by (simp add: mset_reduce_spec flip: image_mset_Sum)
qed

lemma mrsequential_spec:
  assumes "sorts srt" "order_free reducef"
  shows "mrsequential srt mapf reducef files =
    map out_line (reduce_spec reducef (concat (map (\<lambda>(f, c). mapf f c) files)))"
proof -
  have "fold (\<lambda>(f, c) acc. acc @ mapf f c) files acc = acc @ concat (map (\<lambda>(f, c). mapf f c) files)" for acc
    by (induction files arbitrary: acc) auto
  from this [of "[]"] show ?thesis by (simp add: mrsequential_def reduce_output_spec [OF assms])
qed

lemma wc_order_free: "order_free wc_Reduce"
  by (auto simp: order_free_def wc_Reduce_def dest: mset_eq_length)

lemma sort_key_sorts: "sorts (sort_key kv_Key)"
  by (simp add: sorts_def)

end
