(* ===== verification/MrCoordinator.thy ===== *)
theory MrCoordinator
  imports MrWorker "HOL-Library.AList"
begin

text \<open>
  The coordinator of MapReduce (\<^verbatim>\<open>src/mr/coordinator.go\<close>): the queues of idle tasks, the transactions in
  progress, the RPC handlers and the inspection of timeouts. A handler holds the lock except while it
  waits for a condition variable; it is modelled from the test of the condition on, and \<open>Waits\<close> says
  that it goes on waiting. \<open>now\<close> is \<^verbatim>\<open>time.Now()\<close> in nanoseconds, \<open>rng\<close> the order in which a map is
  visited. A handler that changes the state also says which condition variables it broadcasts.
\<close>

section \<open>State\<close>

datatype Status = IDLE | INPROGRESS | COMPLETED

record Task =
  IsMapTask :: bool
  Filenames :: "string list"
  Index :: int
  t_NReduce :: int
  TxnID :: int

record transaction =
  txnID :: int
  beginTime :: int

record TaskReply =
  rp_Index :: int
  rp_TxnID :: int
  rp_Filenames :: "string list"

record Coordinator =
  NReduce :: int
  MapTasksCompletedCnt :: int
  ReduceTasksCompletedCnt :: int
  NextTxnID :: int
  MapTasks :: "Task list"
  ReduceTasks :: "(int \<times> Task) list"
  MapTaskStatus :: "int \<rightharpoonup> Status"
  ReduceTaskStatus :: "int \<rightharpoonup> Status"
  MTaskProcessingTxn :: "(int \<times> transaction) list"
  RTaskProcessingTxn :: "(int \<times> transaction) list"
  IdleMapTask :: "int list"
  IdleReduceTask :: "int list"

datatype mr_cond = mapTaskCond | mapTaskCompletedcond | reduceTaskCond

datatype 'a waiting = Waits mr_cond | Returns 'a

datatype mr_error = AllTasksDone | UnexpectedTxn int int | BadFilename

definition TIMEOUTLIMIT :: int where
  "TIMEOUTLIMIT = 10"

definition Second :: int where
  "Second = 1000000000"

definition zeroTask :: Task where
  "zeroTask = \<lparr>IsMapTask = False, Filenames = [], Index = 0, t_NReduce = 0, TxnID = 0\<rparr>"

section \<open>Handing out tasks\<close>

definition CloneTask :: "Task \<Rightarrow> Task \<Rightarrow> Task" where
  "CloneTask dest src = dest\<lparr>IsMapTask := IsMapTask src, Filenames := Filenames src, Index := Index src,
     t_NReduce := t_NReduce src\<rparr>"

definition GetMapTask :: "int \<Rightarrow> Task \<Rightarrow> Coordinator \<Rightarrow> (bool \<times> Task \<times> Coordinator) waiting go" where
  "GetMapTask now task c =
     (if IdleMapTask c = [] \<and> MapTasksCompletedCnt c < int (length (MapTasks c)) then Inr (Waits mapTaskCond)
      else if MapTasksCompletedCnt c \<ge> int (length (MapTasks c)) then Inr (Returns (False, task, c))
      else if IdleMapTask c = [] then Inl (ExplicitPanic ''Expect c.IdleMapTask to have element(s).'')
      else let i = hd (IdleMapTask c) in
        go_bind (go_index (MapTasks c) i) (\<lambda>src.
          Inr (Returns (True, (CloneTask task src)\<lparr>TxnID := NextTxnID c\<rparr>,
            c\<lparr>IdleMapTask := tl (IdleMapTask c), MapTaskStatus := (MapTaskStatus c)(i \<mapsto> INPROGRESS),
              NextTxnID := NextTxnID c + 1,
              MTaskProcessingTxn := AList.update i \<lparr>txnID = NextTxnID c, beginTime = now\<rparr> (MTaskProcessingTxn c)\<rparr>))))"

definition GetReduceTask :: "int \<Rightarrow> Task \<Rightarrow> Coordinator \<Rightarrow> (bool \<times> Task \<times> Coordinator) waiting go" where
  "GetReduceTask now task c =
     (if MapTasksCompletedCnt c < int (length (MapTasks c)) then Inr (Waits mapTaskCompletedcond)
      else if IdleReduceTask c = [] \<and> ReduceTasksCompletedCnt c < int (length (ReduceTasks c)) then Inr (Waits reduceTaskCond)
      else if ReduceTasksCompletedCnt c \<ge> int (length (ReduceTasks c)) then Inr (Returns (False, task, c))
      else if IdleReduceTask c = [] then Inl (ExplicitPanic ''Expectd c.IdleReduceTask to have element(s).'')
      else let i = hd (IdleReduceTask c) in
        case map_of (ReduceTasks c) i of
          None \<Rightarrow> Inl (ExplicitPanic ''nil pointer dereference'')
        | Some src \<Rightarrow>
            Inr (Returns (True, (CloneTask task src)\<lparr>TxnID := NextTxnID c\<rparr>,
              c\<lparr>IdleReduceTask := tl (IdleReduceTask c), ReduceTaskStatus := (ReduceTaskStatus c)(i \<mapsto> INPROGRESS),
                NextTxnID := NextTxnID c + 1,
                RTaskProcessingTxn := AList.update i \<lparr>txnID = NextTxnID c, beginTime = now\<rparr> (RTaskProcessingTxn c)\<rparr>)))"

text \<open>
  \<^verbatim>\<open>GetTask\<close> asks for a map task and then for a reduce task; it releases the lock between the two and
  while it waits, so it is a machine with two stages, in which \<open>Again\<close> is the stage to go on with.
\<close>

datatype stage = AskMap | AskReduce

datatype get_result = Again stage | Got Task Coordinator | Refused mr_error

definition GetTask :: "int \<Rightarrow> stage \<Rightarrow> Coordinator \<Rightarrow> get_result go" where
  "GetTask now stg c =
     (case stg of
        AskMap \<Rightarrow> go_bind (GetMapTask now zeroTask c) (\<lambda>w. Inr
          (case w of Waits _ \<Rightarrow> Again AskMap
           | Returns (True, task, c') \<Rightarrow> Got task c'
           | Returns (False, _, _) \<Rightarrow> Again AskReduce))
      | AskReduce \<Rightarrow> go_bind (GetReduceTask now zeroTask c) (\<lambda>w. Inr
          (case w of Waits _ \<Rightarrow> Again AskReduce
           | Returns (True, task, c') \<Rightarrow> Got task c'
           | Returns (False, _, _) \<Rightarrow> Refused AllTasksDone)))"

section \<open>Finished tasks\<close>

text \<open>Adding an intermediate file to its reduce task, which is created when it does not exist.\<close>

definition add_file :: "int \<Rightarrow> string \<Rightarrow> Coordinator \<Rightarrow> Coordinator" where
  "add_file idx filename c =
     (let c1 = (if map_of (ReduceTasks c) idx = None
                then c\<lparr>ReduceTasks := AList.update idx (zeroTask\<lparr>Index := idx\<rparr>) (ReduceTasks c),
                       ReduceTaskStatus := (ReduceTaskStatus c)(idx \<mapsto> IDLE),
                       IdleReduceTask := IdleReduceTask c @ [idx]\<rparr>
                else c)
      in c1\<lparr>ReduceTasks := AList.map_entry idx (\<lambda>t. t\<lparr>Filenames := Filenames t @ [filename]\<rparr>) (ReduceTasks c1)\<rparr>)"

text \<open>The loop over the files of a report: False when a number cannot be read, which ends the handler.\<close>

fun add_files :: "string list \<Rightarrow> Coordinator \<Rightarrow> (bool \<times> Coordinator) go" where
  "add_files [] c = Inr (True, c)"
| "add_files (filename # filenames) c =
     go_bind (file_index filename) (\<lambda>r. case r of
        None \<Rightarrow> Inr (False, c)
      | Some idx \<Rightarrow> add_files filenames (add_file idx filename c))"

definition MapTaskDone :: "TaskReply \<Rightarrow> Coordinator \<Rightarrow> (mr_error option \<times> Coordinator \<times> mr_cond list) go" where
  "MapTaskDone req c =
     (if map_option txnID (map_of (MTaskProcessingTxn c) (rp_Index req)) \<noteq> Some (rp_TxnID req)
      then Inr (Some (UnexpectedTxn (rp_TxnID req) (rp_Index req)), c, [])
      else go_bind (add_files (rp_Filenames req) c) (\<lambda>(ok, c1).
        if \<not> ok then Inr (Some BadFilename, c1, [])
        else
          let c2 = c1\<lparr>MapTaskStatus := (MapTaskStatus c1)(rp_Index req \<mapsto> COMPLETED),
                      MapTasksCompletedCnt := MapTasksCompletedCnt c1 + 1,
                      MTaskProcessingTxn := AList.delete (rp_Index req) (MTaskProcessingTxn c1)\<rparr>
          in Inr (None, c2, if MapTasksCompletedCnt c2 \<ge> int (length (MapTasks c2))
                            then [mapTaskCond, mapTaskCompletedcond] else [])))"

definition ReduceTaskDone :: "TaskReply \<Rightarrow> Coordinator \<Rightarrow> mr_error option \<times> Coordinator \<times> mr_cond list" where
  "ReduceTaskDone req c =
     (if map_option txnID (map_of (RTaskProcessingTxn c) (rp_Index req)) \<noteq> Some (rp_TxnID req)
      then (Some (UnexpectedTxn (rp_TxnID req) (rp_Index req)), c, [])
      else
        let c1 = c\<lparr>ReduceTaskStatus := (ReduceTaskStatus c)(rp_Index req \<mapsto> COMPLETED),
                   ReduceTasksCompletedCnt := ReduceTasksCompletedCnt c + 1,
                   RTaskProcessingTxn := AList.delete (rp_Index req) (RTaskProcessingTxn c)\<rparr>
        in (None, c1, if ReduceTasksCompletedCnt c1 \<ge> int (length (ReduceTasks c1)) then [reduceTaskCond] else []))"

section \<open>Timeouts\<close>

definition expired :: "(int list \<Rightarrow> int list) \<Rightarrow> int \<Rightarrow> (int \<times> transaction) list \<Rightarrow> int list" where
  "expired rng now txns =
     filter (\<lambda>i. case map_of txns i of None \<Rightarrow> False | Some t \<Rightarrow> now - beginTime t > TIMEOUTLIMIT * Second)
       (rng (map fst txns))"

definition expire_map :: "int \<Rightarrow> Coordinator \<Rightarrow> Coordinator" where
  "expire_map i c = c\<lparr>MTaskProcessingTxn := AList.delete i (MTaskProcessingTxn c),
     MapTaskStatus := (MapTaskStatus c)(i \<mapsto> IDLE), IdleMapTask := IdleMapTask c @ [i]\<rparr>"

definition InspectMapTasks :: "(int list \<Rightarrow> int list) \<Rightarrow> int \<Rightarrow> Coordinator \<Rightarrow> Coordinator \<times> mr_cond list" where
  "InspectMapTasks rng now c =
     (let indexs = expired rng now (MTaskProcessingTxn c)
      in (fold expire_map indexs c, map (\<lambda>_. mapTaskCond) indexs))"

definition expire_reduce :: "int \<Rightarrow> Coordinator \<Rightarrow> Coordinator" where
  "expire_reduce i c = c\<lparr>RTaskProcessingTxn := AList.delete i (RTaskProcessingTxn c),
     ReduceTaskStatus := (ReduceTaskStatus c)(i \<mapsto> IDLE), IdleReduceTask := IdleReduceTask c @ [i]\<rparr>"

definition InspectReduceTasks :: "(int list \<Rightarrow> int list) \<Rightarrow> int \<Rightarrow> Coordinator \<Rightarrow> Coordinator \<times> mr_cond list" where
  "InspectReduceTasks rng now c =
     (let indexs = expired rng now (RTaskProcessingTxn c)
      in (fold expire_reduce indexs c, map (\<lambda>_. reduceTaskCond) indexs))"

definition mr_Done :: "Coordinator \<Rightarrow> bool" where
  "mr_Done c \<longleftrightarrow> MapTasksCompletedCnt c \<ge> int (length (MapTasks c)) \<and>
     ReduceTasksCompletedCnt c \<ge> int (length (ReduceTasks c))"

section \<open>Creation\<close>

definition add_map_task :: "int \<Rightarrow> nat \<times> string \<Rightarrow> Coordinator \<Rightarrow> Coordinator" where
  "add_map_task nReduce p c =
     (case p of (i, file) \<Rightarrow>
        c\<lparr>MapTasks := MapTasks c @ [zeroTask\<lparr>IsMapTask := True, Filenames := [file], Index := int i, t_NReduce := nReduce\<rparr>],
          MapTaskStatus := (MapTaskStatus c)(int i \<mapsto> IDLE), IdleMapTask := IdleMapTask c @ [int i]\<rparr>)"

definition MakeCoordinator :: "string list \<Rightarrow> int \<Rightarrow> Coordinator" where
  "MakeCoordinator files nReduce =
     fold (add_map_task nReduce) (enumerate 0 files)
       \<lparr>NReduce = nReduce, MapTasksCompletedCnt = 0, ReduceTasksCompletedCnt = 0, NextTxnID = 0, MapTasks = [],
        ReduceTasks = [], MapTaskStatus = Map.empty, ReduceTaskStatus = Map.empty, MTaskProcessingTxn = [],
        RTaskProcessingTxn = [], IdleMapTask = [], IdleReduceTask = []\<rparr>"

section \<open>A pool of tasks\<close>

text \<open>
  The map tasks and the reduce tasks are kept the same way. Every task of \<open>U\<close> is idle, in progress or
  completed: the idle ones are in the queue, once; the ones in progress have a transaction, the
  completed ones are counted.
\<close>

definition pool_ok ::
    "int set \<Rightarrow> int list \<Rightarrow> (int \<times> transaction) list \<Rightarrow> (int \<rightharpoonup> Status) \<Rightarrow> int \<Rightarrow> bool" where
  "pool_ok U idle txns status cnt \<longleftrightarrow>
     finite U \<and> distinct idle \<and> distinct (map fst txns) \<and> set idle \<union> fst ` set txns \<subseteq> U \<and>
     set idle \<inter> fst ` set txns = {} \<and>
     (\<forall>i \<in> U. status i = Some (if i \<in> set idle then IDLE else if i \<in> fst ` set txns then INPROGRESS else COMPLETED)) \<and>
     cnt = int (card (U - set idle - fst ` set txns))"

lemma delete_filter: "AList.delete i txns = filter (\<lambda>p. fst p \<noteq> i) txns"
  by (induction txns) auto

lemma delete_fst [simp]: "fst ` set (AList.delete i txns) = fst ` set txns - {i}"
  by (auto simp: delete_filter)

lemma update_mem: "p \<in> set (AList.update i t txns) \<Longrightarrow> p = (i, t) \<or> p \<in> set txns"
  by (induction txns) (auto split: if_splits)

lemma map_entry_keys [simp]: "map fst (AList.map_entry k f xs) = map fst xs"
  by (induction xs) auto

lemma map_entry_fst [simp]: "fst ` set (AList.map_entry k f xs) = fst ` set xs"
  by (metis list.set_map map_entry_keys)

lemma map_entry_mem: "(i, t) \<in> set (AList.map_entry k f xs) \<Longrightarrow> (i, t) \<in> set xs \<or> (\<exists>u. (i, u) \<in> set xs \<and> t = f u)"
  by (induction xs) (auto split: if_splits)

lemma pool_issue:
  assumes "pool_ok U (i # idle) txns status cnt"
  shows "pool_ok U idle (AList.update i t txns) (status(i \<mapsto> INPROGRESS)) cnt"
proof -
  have "U - set idle - fst ` set (AList.update i t txns) = U - set (i # idle) - fst ` set txns" by (auto simp: dom_update)
  with assms show ?thesis by (auto simp: pool_ok_def distinct_update dom_update)
qed

lemma pool_complete:
  assumes "pool_ok U idle txns status cnt" "map_of txns i = Some t"
  shows "pool_ok U idle (AList.delete i txns) (status(i \<mapsto> COMPLETED)) (cnt + 1)"
proof -
  have i: "i \<in> fst ` set txns" using assms(2) by (metis domI dom_map_of_conv_image_fst)
  with assms(1) have "U - set idle - fst ` set (AList.delete i txns) = insert i (U - set idle - fst ` set txns)"
    by (auto simp: pool_ok_def)
  moreover have "i \<notin> U - set idle - fst ` set txns" using i by blast
  ultimately show ?thesis using assms(1) i by (auto simp: pool_ok_def distinct_delete)
qed

lemma pool_expire:
  assumes "pool_ok U idle txns status cnt" "i \<in> fst ` set txns"
  shows "pool_ok U (idle @ [i]) (AList.delete i txns) (status(i \<mapsto> IDLE)) cnt"
proof -
  have "U - set (idle @ [i]) - fst ` set (AList.delete i txns) = U - set idle - fst ` set txns" using assms(2) by auto
  with assms show ?thesis by (auto simp: pool_ok_def distinct_delete)
qed

lemma pool_add:
  assumes "pool_ok U idle txns status cnt" "i \<notin> U"
  shows "pool_ok (insert i U) (idle @ [i]) txns (status(i \<mapsto> IDLE)) cnt"
proof -
  have "insert i U - set (idle @ [i]) - fst ` set txns = U - set idle - fst ` set txns" using assms(2) by auto
  with assms show ?thesis by (auto simp: pool_ok_def)
qed

lemma pool_inprogress:
  assumes "pool_ok U idle txns status cnt" "map_of txns i = Some t"
  shows "i \<in> U" "status i = Some INPROGRESS" "i \<in> fst ` set txns" "i \<notin> set idle"
proof -
  show k: "i \<in> fst ` set txns" using assms(2) by (metis domI dom_map_of_conv_image_fst)
  have sub: "fst ` set txns \<subseteq> U" and dis: "set idle \<inter> fst ` set txns = {}"
    and st: "\<forall>i \<in> U. status i = Some (if i \<in> set idle then IDLE else if i \<in> fst ` set txns then INPROGRESS else COMPLETED)"
    using assms(1) by (simp_all add: pool_ok_def)
  show u: "i \<in> U" by (rule subsetD [OF sub k])
  show d: "i \<notin> set idle" using dis k by (meson disjoint_iff)
  show "status i = Some INPROGRESS" using bspec [OF st u] d k by simp
qed

lemma pool_completed:
  assumes "pool_ok U idle txns status cnt" "i \<in> U"
  shows "status i = Some COMPLETED \<longleftrightarrow> i \<notin> set idle \<and> i \<notin> fst ` set txns"
proof -
  have "\<forall>i \<in> U. status i = Some (if i \<in> set idle then IDLE else if i \<in> fst ` set txns then INPROGRESS else COMPLETED)"
    using assms(1) by (simp add: pool_ok_def)
  from bspec [OF this assms(2)] show ?thesis by simp
qed

lemma pool_none_done:
  assumes "pool_ok U idle txns status cnt" "i \<in> U" "cnt = 0"
  shows "status i \<noteq> Some COMPLETED"
proof -
  have "finite U" "card (U - set idle - fst ` set txns) = 0" using assms(1,3) by (simp_all add: pool_ok_def)
  then have "U - set idle - fst ` set txns = {}" by simp
  then show ?thesis using pool_completed [OF assms(1,2)] assms(2) by (metis DiffI empty_iff)
qed

text \<open>All tasks are completed exactly when none is idle or in progress.\<close>

lemma pool_all_done:
  assumes "pool_ok U idle txns status cnt"
  shows "int (card U) \<le> cnt \<longleftrightarrow> idle = [] \<and> txns = []" and "cnt \<le> int (card U)"
proof -
  let ?C = "U - set idle - fst ` set txns"
  have f: "finite U" and sub: "set idle \<union> fst ` set txns \<subseteq> U" and cnt: "cnt = int (card ?C)"
    using assms unfolding pool_ok_def by blast+
  have sub': "?C \<subseteq> U" by blast
  with f cnt show "cnt \<le> int (card U)" using card_mono [OF f sub'] by simp
  have "?C = U" if "int (card U) \<le> cnt" using card_seteq [OF f sub'] that cnt by simp
  moreover have "int (card U) \<le> cnt" if "?C = U" unfolding cnt that by simp
  moreover have "?C = U \<longleftrightarrow> idle = [] \<and> txns = []"
  proof
    assume e: "?C = U"
    have "A = {} \<and> B = {}" if "A \<union> B \<subseteq> U" "U - A - B = U" for A B :: "int set" using that by auto
    from this [OF sub e] show "idle = [] \<and> txns = []" by simp
  qed auto
  ultimately show "int (card U) \<le> cnt \<longleftrightarrow> idle = [] \<and> txns = []" by blast
qed

text \<open>Both sides of the coordinator provide a pool, and expiring a task is the same for both.\<close>

locale task_side =
  fixes U :: "Coordinator \<Rightarrow> int set"
    and idle :: "Coordinator \<Rightarrow> int list"
    and txns :: "Coordinator \<Rightarrow> (int \<times> transaction) list"
    and status :: "Coordinator \<Rightarrow> int \<rightharpoonup> Status"
    and cnt :: "Coordinator \<Rightarrow> int"
    and expire :: "int \<Rightarrow> Coordinator \<Rightarrow> Coordinator"
  assumes expire_fields: "U (expire i c) = U c" "idle (expire i c) = idle c @ [i]"
      "txns (expire i c) = AList.delete i (txns c)" "status (expire i c) = (status c)(i \<mapsto> IDLE)"
      "cnt (expire i c) = cnt c"
begin

lemma expire_all:
  assumes "pool_ok (U c) (idle c) (txns c) (status c) (cnt c)" "distinct idx" "set idx \<subseteq> fst ` set (txns c)"
  shows "pool_ok (U (fold expire idx c)) (idle (fold expire idx c)) (txns (fold expire idx c))
    (status (fold expire idx c)) (cnt (fold expire idx c))"
  using assms
proof (induction idx arbitrary: c)
  case (Cons i idx)
  have "pool_ok (U (expire i c)) (idle (expire i c)) (txns (expire i c)) (status (expire i c)) (cnt (expire i c))"
    using pool_expire [OF Cons.prems(1), of i] Cons.prems(3) by (simp add: expire_fields)
  moreover have "set idx \<subseteq> fst ` set (txns (expire i c))" using Cons.prems by (auto simp: expire_fields)
  ultimately show ?case using Cons by simp
qed simp

lemma expire_idle: "idle (fold expire idx c) = idle c @ idx"
  by (induction idx arbitrary: c) (simp_all add: expire_fields)

lemma expire_txns: "txns (fold expire idx c) = filter (\<lambda>p. fst p \<notin> set idx) (txns c)"
proof (induction idx arbitrary: c)
  case (Cons i idx)
  show ?case using Cons by (auto simp: expire_fields delete_filter intro!: filter_cong)
qed simp

end

interpretation maps: task_side "\<lambda>c. {0..<int (length (MapTasks c))}" IdleMapTask MTaskProcessingTxn MapTaskStatus
  MapTasksCompletedCnt expire_map
  by unfold_locales (simp_all add: expire_map_def)

interpretation reduces: task_side "\<lambda>c. fst ` set (ReduceTasks c)" IdleReduceTask RTaskProcessingTxn ReduceTaskStatus
  ReduceTasksCompletedCnt expire_reduce
  by unfold_locales (simp_all add: expire_reduce_def)

section \<open>Invariant of the coordinator\<close>

abbreviation map_pool :: "Coordinator \<Rightarrow> bool" where
  "map_pool c \<equiv> pool_ok {0..<int (length (MapTasks c))} (IdleMapTask c) (MTaskProcessingTxn c) (MapTaskStatus c)
     (MapTasksCompletedCnt c)"

abbreviation reduce_pool :: "Coordinator \<Rightarrow> bool" where
  "reduce_pool c \<equiv> pool_ok (fst ` set (ReduceTasks c)) (IdleReduceTask c) (RTaskProcessingTxn c) (ReduceTaskStatus c)
     (ReduceTasksCompletedCnt c)"

text \<open>Reduce tasks are touched only after all map tasks are completed.\<close>

definition reduce_late :: "Coordinator \<Rightarrow> bool" where
  "reduce_late c \<longleftrightarrow> MapTasksCompletedCnt c < int (length (MapTasks c)) \<longrightarrow>
     RTaskProcessingTxn c = [] \<and> ReduceTasksCompletedCnt c = 0"

definition coord_inv :: "Coordinator \<Rightarrow> bool" where
  "coord_inv c \<longleftrightarrow>
     map_pool c \<and> reduce_pool c \<and> distinct (map fst (ReduceTasks c)) \<and> reduce_late c \<and>
     (\<forall>p \<in> set (MTaskProcessingTxn c). txnID (snd p) < NextTxnID c) \<and>
     (\<forall>p \<in> set (RTaskProcessingTxn c). txnID (snd p) < NextTxnID c) \<and>
     (\<forall>i < length (MapTasks c). IsMapTask (MapTasks c ! i) \<and> Index (MapTasks c ! i) = int i) \<and>
     (\<forall>(r, t) \<in> set (ReduceTasks c). \<not> IsMapTask t \<and> Index t = r)"

lemma coord_invD:
  assumes "coord_inv c"
  shows "map_pool c" "reduce_pool c" "distinct (map fst (ReduceTasks c))" "reduce_late c"
    "\<And>p. p \<in> set (MTaskProcessingTxn c) \<Longrightarrow> txnID (snd p) < NextTxnID c"
    "\<And>p. p \<in> set (RTaskProcessingTxn c) \<Longrightarrow> txnID (snd p) < NextTxnID c"
    "\<And>i. i < length (MapTasks c) \<Longrightarrow> IsMapTask (MapTasks c ! i) \<and> Index (MapTasks c ! i) = int i"
    "\<And>r t. (r, t) \<in> set (ReduceTasks c) \<Longrightarrow> \<not> IsMapTask t \<and> Index t = r"
  using assms by (auto simp: coord_inv_def)

lemma map_done_iff:
  assumes "coord_inv c"
  shows "int (length (MapTasks c)) \<le> MapTasksCompletedCnt c \<longleftrightarrow> IdleMapTask c = [] \<and> MTaskProcessingTxn c = []"
  using pool_all_done(1) [OF coord_invD(1) [OF assms]] by simp

lemma reduce_done_iff:
  assumes "coord_inv c"
  shows "int (length (ReduceTasks c)) \<le> ReduceTasksCompletedCnt c \<longleftrightarrow> IdleReduceTask c = [] \<and> RTaskProcessingTxn c = []"
proof -
  have "card (fst ` set (ReduceTasks c)) = length (ReduceTasks c)"
    using distinct_card [OF coord_invD(3) [OF assms]] by simp
  with pool_all_done(1) [OF coord_invD(2) [OF assms]] show ?thesis by simp
qed

lemma MakeCoordinator_fields:
  "MakeCoordinator files nReduce =
     \<lparr>NReduce = nReduce, MapTasksCompletedCnt = 0, ReduceTasksCompletedCnt = 0, NextTxnID = 0,
      MapTasks = map (\<lambda>(i, file). zeroTask\<lparr>IsMapTask := True, Filenames := [file], Index := int i, t_NReduce := nReduce\<rparr>)
        (enumerate 0 files),
      ReduceTasks = [], MapTaskStatus = (\<lambda>i. if 0 \<le> i \<and> i < int (length files) then Some IDLE else None),
      ReduceTaskStatus = Map.empty, MTaskProcessingTxn = [], RTaskProcessingTxn = [],
      IdleMapTask = map int [0..<length files], IdleReduceTask = []\<rparr>"
proof (induction files rule: rev_induct)
  case Nil
  then show ?case by (auto simp: MakeCoordinator_def)
next
  case (snoc f files)
  have "MakeCoordinator (files @ [f]) nReduce =
      add_map_task nReduce (length files, f) (MakeCoordinator files nReduce)"
    by (simp add: MakeCoordinator_def enumerate_append_eq)
  then show ?case by (simp only: snoc) (auto simp: add_map_task_def enumerate_append_eq fun_eq_iff)
qed

lemma MakeCoordinator_inv: "coord_inv (MakeCoordinator files nReduce)"
proof -
  have "int ` {0..<length files} = {0..<int (length files)}"
    using image_int_atLeastLessThan [of 0 "length files"] by simp
  then have "set (map int [0..<length files]) = {0..<int (length files)}" by simp
  then show ?thesis
    by (auto simp: coord_inv_def MakeCoordinator_fields pool_ok_def reduce_late_def zeroTask_def distinct_map
        enumerate_eq_zip inj_on_def nth_enumerate_eq)
qed

text \<open>Handing out a task of a coordinator that satisfies the invariant does not panic.\<close>

lemma GetMapTask_cases:
  assumes inv: "coord_inv c"
  shows "GetMapTask now task c = Inr (Waits mapTaskCond) \<or>
    int (length (MapTasks c)) \<le> MapTasksCompletedCnt c \<and> GetMapTask now task c = Inr (Returns (False, task, c)) \<or>
    (\<exists>i c'. 0 \<le> i \<and> i < int (length (MapTasks c)) \<and> i \<in> set (IdleMapTask c) \<and>
      GetMapTask now task c = Inr (Returns (True, (CloneTask task (MapTasks c ! nat i))\<lparr>TxnID := NextTxnID c\<rparr>, c')) \<and>
      c' = c\<lparr>IdleMapTask := tl (IdleMapTask c), MapTaskStatus := (MapTaskStatus c)(i \<mapsto> INPROGRESS),
              NextTxnID := NextTxnID c + 1,
              MTaskProcessingTxn := AList.update i \<lparr>txnID = NextTxnID c, beginTime = now\<rparr> (MTaskProcessingTxn c)\<rparr> \<and>
      coord_inv c')"
proof (cases "IdleMapTask c = [] \<or> int (length (MapTasks c)) \<le> MapTasksCompletedCnt c")
  case True
  then show ?thesis by (auto simp: GetMapTask_def)
next
  case False
  then obtain i idle where idle: "IdleMapTask c = i # idle" by (cases "IdleMapTask c") auto
  let ?c = "c\<lparr>IdleMapTask := tl (IdleMapTask c), MapTaskStatus := (MapTaskStatus c)(i \<mapsto> INPROGRESS),
    NextTxnID := NextTxnID c + 1,
    MTaskProcessingTxn := AList.update i \<lparr>txnID = NextTxnID c, beginTime = now\<rparr> (MTaskProcessingTxn c)\<rparr>"
  from coord_invD(1) [OF inv] have i: "0 \<le> i" "i < int (length (MapTasks c))" by (auto simp: pool_ok_def idle)
  have "map_pool ?c" using pool_issue coord_invD(1) [OF inv] by (simp add: idle)
  moreover have "txnID (snd p) < NextTxnID ?c" if "p \<in> set (MTaskProcessingTxn ?c) \<union> set (RTaskProcessingTxn c)" for p
    using that coord_invD(5,6) [OF inv, of p] by (auto dest!: update_mem)
  ultimately have "coord_inv ?c" using inv by (simp add: coord_inv_def reduce_late_def)
  with False i idle show ?thesis by (auto simp: GetMapTask_def go_index_def)
qed

lemma GetReduceTask_cases:
  assumes inv: "coord_inv c"
  shows "(\<exists>w. GetReduceTask now task c = Inr (Waits w)) \<or>
    mr_Done c \<and> GetReduceTask now task c = Inr (Returns (False, task, c)) \<or>
    int (length (MapTasks c)) \<le> MapTasksCompletedCnt c \<and>
    (\<exists>i t c'. map_of (ReduceTasks c) i = Some t \<and> i \<in> set (IdleReduceTask c) \<and>
      GetReduceTask now task c = Inr (Returns (True, (CloneTask task t)\<lparr>TxnID := NextTxnID c\<rparr>, c')) \<and>
      c' = c\<lparr>IdleReduceTask := tl (IdleReduceTask c), ReduceTaskStatus := (ReduceTaskStatus c)(i \<mapsto> INPROGRESS),
              NextTxnID := NextTxnID c + 1,
              RTaskProcessingTxn := AList.update i \<lparr>txnID = NextTxnID c, beginTime = now\<rparr> (RTaskProcessingTxn c)\<rparr> \<and>
      coord_inv c')"
proof (cases "MapTasksCompletedCnt c < int (length (MapTasks c)) \<or> IdleReduceTask c = [] \<or>
    int (length (ReduceTasks c)) \<le> ReduceTasksCompletedCnt c")
  case True
  then show ?thesis by (auto simp: GetReduceTask_def mr_Done_def)
next
  case False
  then obtain i idle where idle: "IdleReduceTask c = i # idle" by (cases "IdleReduceTask c") auto
  let ?c = "c\<lparr>IdleReduceTask := tl (IdleReduceTask c), ReduceTaskStatus := (ReduceTaskStatus c)(i \<mapsto> INPROGRESS),
    NextTxnID := NextTxnID c + 1,
    RTaskProcessingTxn := AList.update i \<lparr>txnID = NextTxnID c, beginTime = now\<rparr> (RTaskProcessingTxn c)\<rparr>"
  have "i \<in> fst ` set (ReduceTasks c)" using coord_invD(2) [OF inv] by (auto simp: pool_ok_def idle)
  then obtain t where t: "map_of (ReduceTasks c) i = Some t" by (metis domD dom_map_of_conv_image_fst)
  have "reduce_pool ?c" using pool_issue coord_invD(2) [OF inv] by (simp add: idle)
  moreover have "txnID (snd p) < NextTxnID ?c" if "p \<in> set (RTaskProcessingTxn ?c) \<union> set (MTaskProcessingTxn c)" for p
    using that coord_invD(5,6) [OF inv, of p] by (auto dest!: update_mem)
  ultimately have "coord_inv ?c" using inv False by (simp add: coord_inv_def reduce_late_def)
  with False t idle show ?thesis by (auto simp: GetReduceTask_def)
qed

text \<open>Adding a file touches the reduce tasks only.\<close>

definition same_maps :: "Coordinator \<Rightarrow> Coordinator \<Rightarrow> bool" where
  "same_maps c c' \<longleftrightarrow> MapTasks c' = MapTasks c \<and> IdleMapTask c' = IdleMapTask c \<and> MapTaskStatus c' = MapTaskStatus c \<and>
     MTaskProcessingTxn c' = MTaskProcessingTxn c \<and> MapTasksCompletedCnt c' = MapTasksCompletedCnt c \<and>
     NextTxnID c' = NextTxnID c \<and> RTaskProcessingTxn c' = RTaskProcessingTxn c \<and>
     ReduceTasksCompletedCnt c' = ReduceTasksCompletedCnt c"

lemma same_maps_refl [simp]: "same_maps c c"
  by (simp add: same_maps_def)

lemma same_maps_trans: "same_maps a b \<Longrightarrow> same_maps b c \<Longrightarrow> same_maps a c"
  by (simp add: same_maps_def)

lemma add_file_same_maps: "same_maps c (add_file idx f c)"
  by (simp add: same_maps_def add_file_def Let_def)

lemma add_file_inv:
  assumes "coord_inv c"
  shows "coord_inv (add_file idx f c)"
proof -
  let ?c = "add_file idx f c"
  have same: "same_maps c ?c" by (rule add_file_same_maps)
  have "idx \<notin> fst ` set (ReduceTasks c)" if "map_of (ReduceTasks c) idx = None"
    using that by (simp add: map_of_eq_None_iff)
  then have "reduce_pool ?c"
    using coord_invD(2) [OF assms] pool_add [OF coord_invD(2) [OF assms], of idx]
    by (auto simp: add_file_def Let_def dom_update)
  moreover have "distinct (map fst (ReduceTasks ?c))"
    using coord_invD(3) [OF assms] by (simp add: add_file_def Let_def distinct_update)
  moreover have "\<not> IsMapTask t \<and> Index t = r" if "(r, t) \<in> set (ReduceTasks ?c)" for r t
    using that coord_invD(8) [OF assms, of r] 
    by (auto simp: add_file_def Let_def zeroTask_def dest!: map_entry_mem update_mem split: if_splits)
  ultimately show ?thesis using assms same by (auto simp: coord_inv_def same_maps_def reduce_late_def)
qed

lemma add_files_inv:
  "coord_inv c \<Longrightarrow> add_files fs c = Inr (ok, c') \<Longrightarrow> coord_inv c' \<and> same_maps c c'"
proof (induction fs c rule: add_files.induct)
  case (2 f fs c)
  then show ?case using add_file_inv add_file_same_maps same_maps_trans
    by (fastforce simp: go_bind_eq_Inr split: option.splits)
qed simp

text \<open>An accepted report completes its task; what it does to the other fields.\<close>

lemma MapTaskDone_accepted:
  assumes "MapTaskDone req c = Inr (None, c', bs)"
  shows "\<exists>t c1. map_of (MTaskProcessingTxn c) (rp_Index req) = Some t \<and> txnID t = rp_TxnID req \<and>
    add_files (rp_Filenames req) c = Inr (True, c1) \<and>
    c' = c1\<lparr>MapTaskStatus := (MapTaskStatus c1)(rp_Index req \<mapsto> COMPLETED),
             MapTasksCompletedCnt := MapTasksCompletedCnt c1 + 1,
             MTaskProcessingTxn := AList.delete (rp_Index req) (MTaskProcessingTxn c1)\<rparr> \<and>
    bs = (if int (length (MapTasks c')) \<le> MapTasksCompletedCnt c' then [mapTaskCond, mapTaskCompletedcond] else [])"
  using assms by (auto simp: MapTaskDone_def Let_def go_bind_eq_Inr split: if_splits prod.splits)

lemma MapTaskDone_inv:
  assumes inv: "coord_inv c" and run: "MapTaskDone req c = Inr (err, c', bs)"
  shows "coord_inv c'"
proof (cases err)
  case None
  with run have "MapTaskDone req c = Inr (None, c', bs)" by simp
  from MapTaskDone_accepted [OF this] obtain t c1 where
    t: "map_of (MTaskProcessingTxn c) (rp_Index req) = Some t" and add: "add_files (rp_Filenames req) c = Inr (True, c1)"
    and c': "c' = c1\<lparr>MapTaskStatus := (MapTaskStatus c1)(rp_Index req \<mapsto> COMPLETED),
      MapTasksCompletedCnt := MapTasksCompletedCnt c1 + 1,
      MTaskProcessingTxn := AList.delete (rp_Index req) (MTaskProcessingTxn c1)\<rparr>" by blast
  from add_files_inv [OF inv add] have c1: "coord_inv c1" "same_maps c c1" by auto
  with t have "map_of (MTaskProcessingTxn c1) (rp_Index req) = Some t" by (simp add: same_maps_def)
  from pool_complete [OF coord_invD(1) [OF c1(1)] this] c1(1) show ?thesis
    unfolding c' by (simp add: coord_inv_def reduce_late_def delete_filter)
next
  case (Some e)
  with run inv add_files_inv [OF inv] show ?thesis
    by (auto simp: MapTaskDone_def Let_def go_bind_eq_Inr split: if_splits prod.splits)
qed

lemma ReduceTaskDone_inv:
  assumes inv: "coord_inv c" and run: "ReduceTaskDone req c = (err, c', bs)"
  shows "coord_inv c'"
proof (cases "map_option txnID (map_of (RTaskProcessingTxn c) (rp_Index req)) = Some (rp_TxnID req)")
  case True
  then obtain t where t: "map_of (RTaskProcessingTxn c) (rp_Index req) = Some t" by auto
  then have "RTaskProcessingTxn c \<noteq> []" by auto
  then have late: "\<not> MapTasksCompletedCnt c < int (length (MapTasks c))"
    using coord_invD(4) [OF inv] by (auto simp: reduce_late_def)
  have c': "c' = c\<lparr>ReduceTaskStatus := (ReduceTaskStatus c)(rp_Index req \<mapsto> COMPLETED),
      ReduceTasksCompletedCnt := ReduceTasksCompletedCnt c + 1,
      RTaskProcessingTxn := AList.delete (rp_Index req) (RTaskProcessingTxn c)\<rparr>"
    using run True by (simp add: ReduceTaskDone_def Let_def)
  from pool_complete [OF coord_invD(2) [OF inv] t] inv late show ?thesis
    unfolding c' by (simp add: coord_inv_def reduce_late_def delete_filter)
next
  case False
  with run inv show ?thesis by (simp add: ReduceTaskDone_def)
qed

text \<open>The range over a map visits every key once.\<close>

definition visits :: "(int list \<Rightarrow> int list) \<Rightarrow> bool" where
  "visits rng \<longleftrightarrow> (\<forall>ks. mset (rng ks) = mset ks)"

lemma expired_keys:
  assumes "visits rng" "distinct (map fst txns)"
  shows "distinct (expired rng now txns)" "set (expired rng now txns) \<subseteq> fst ` set txns"
proof -
  have m: "mset (rng (map fst txns)) = mset (map fst txns)" using assms(1) by (simp add: visits_def)
  from mset_eq_imp_distinct_iff [OF m] assms(2) show "distinct (expired rng now txns)" by (simp add: expired_def)
  from mset_eq_setD [OF m] show "set (expired rng now txns) \<subseteq> fst ` set txns" by (auto simp: expired_def)
qed

lemma expire_map_fields:
  "MapTasks (fold expire_map idx c) = MapTasks c \<and> ReduceTasks (fold expire_map idx c) = ReduceTasks c \<and>
   IdleReduceTask (fold expire_map idx c) = IdleReduceTask c \<and> RTaskProcessingTxn (fold expire_map idx c) = RTaskProcessingTxn c \<and>
   ReduceTaskStatus (fold expire_map idx c) = ReduceTaskStatus c \<and> NextTxnID (fold expire_map idx c) = NextTxnID c \<and>
   ReduceTasksCompletedCnt (fold expire_map idx c) = ReduceTasksCompletedCnt c \<and>
   MapTasksCompletedCnt (fold expire_map idx c) = MapTasksCompletedCnt c"
  by (induction idx arbitrary: c) (simp_all add: expire_map_def)

lemma expire_reduce_fields:
  "MapTasks (fold expire_reduce idx c) = MapTasks c \<and> ReduceTasks (fold expire_reduce idx c) = ReduceTasks c \<and>
   IdleMapTask (fold expire_reduce idx c) = IdleMapTask c \<and> MTaskProcessingTxn (fold expire_reduce idx c) = MTaskProcessingTxn c \<and>
   MapTaskStatus (fold expire_reduce idx c) = MapTaskStatus c \<and> NextTxnID (fold expire_reduce idx c) = NextTxnID c \<and>
   ReduceTasksCompletedCnt (fold expire_reduce idx c) = ReduceTasksCompletedCnt c \<and>
   MapTasksCompletedCnt (fold expire_reduce idx c) = MapTasksCompletedCnt c"
  by (induction idx arbitrary: c) (simp_all add: expire_reduce_def)

lemma InspectMapTasks_inv:
  assumes inv: "coord_inv c" and rng: "visits rng" and run: "InspectMapTasks rng now c = (c', bs)"
  shows "coord_inv c'"
proof -
  let ?idx = "expired rng now (MTaskProcessingTxn c)"
  have c': "c' = fold expire_map ?idx c" using run by (simp add: InspectMapTasks_def Let_def)
  have "distinct (map fst (MTaskProcessingTxn c))" using coord_invD(1) [OF inv] by (simp add: pool_ok_def)
  from expired_keys [OF rng this, of now] maps.expire_all [OF coord_invD(1) [OF inv], of ?idx]
  have "map_pool c'" by (simp add: c')
  with inv show ?thesis
    by (simp add: coord_inv_def reduce_late_def c' expire_map_fields maps.expire_txns)
qed

lemma InspectReduceTasks_inv:
  assumes inv: "coord_inv c" and rng: "visits rng" and run: "InspectReduceTasks rng now c = (c', bs)"
  shows "coord_inv c'"
proof -
  let ?idx = "expired rng now (RTaskProcessingTxn c)"
  have c': "c' = fold expire_reduce ?idx c" using run by (simp add: InspectReduceTasks_def Let_def)
  have "distinct (map fst (RTaskProcessingTxn c))" using coord_invD(2) [OF inv] by (simp add: pool_ok_def)
  from expired_keys [OF rng this, of now] reduces.expire_all [OF coord_invD(2) [OF inv], of ?idx]
  have "reduce_pool c'" by (simp add: c')
  moreover have "reduce_late c'"
    using coord_invD(4) [OF inv] by (auto simp: reduce_late_def c' expire_reduce_fields reduces.expire_txns)
  ultimately show ?thesis using inv
    by (simp add: coord_inv_def c' expire_reduce_fields reduces.expire_txns)
qed

section \<open>Sequences of calls\<close>

datatype coord_op =
    OpGet int stage
  | OpMapDone TaskReply
  | OpReduceDone TaskReply
  | OpInspectMap "int list \<Rightarrow> int list" int
  | OpInspectReduce "int list \<Rightarrow> int list" int

fun coord_step :: "coord_op \<Rightarrow> Coordinator \<Rightarrow> (Coordinator \<times> mr_cond list) go" where
  "coord_step (OpGet now stg) c =
     go_bind (GetTask now stg c) (\<lambda>r. Inr (case r of Got _ c' \<Rightarrow> (c', []) | _ \<Rightarrow> (c, [])))"
| "coord_step (OpMapDone req) c = go_bind (MapTaskDone req c) (\<lambda>(_, c', bs). Inr (c', bs))"
| "coord_step (OpReduceDone req) c = (case ReduceTaskDone req c of (_, c', bs) \<Rightarrow> Inr (c', bs))"
| "coord_step (OpInspectMap rng now) c = Inr (InspectMapTasks rng now c)"
| "coord_step (OpInspectReduce rng now) c = Inr (InspectReduceTasks rng now c)"

fun coord_run :: "coord_op list \<Rightarrow> Coordinator \<Rightarrow> Coordinator go" where
  "coord_run [] c = Inr c"
| "coord_run (x # xs) c = go_bind (coord_step x c) (\<lambda>(c', _). coord_run xs c')"

fun op_visits :: "coord_op \<Rightarrow> bool" where
  "op_visits (OpInspectMap rng now) \<longleftrightarrow> visits rng"
| "op_visits (OpInspectReduce rng now) \<longleftrightarrow> visits rng"
| "op_visits _ \<longleftrightarrow> True"

lemma GetTask_inv:
  assumes "coord_inv c"
  shows "\<exists>r. GetTask now stg c = Inr r \<and> (\<forall>task c'. r = Got task c' \<longrightarrow> coord_inv c')"
  using GetMapTask_cases [OF assms, of now zeroTask] GetReduceTask_cases [OF assms, of now zeroTask]
  by (cases stg) (auto simp: GetTask_def)

lemma coord_step_inv:
  assumes "coord_inv c" "op_visits x" "coord_step x c = Inr (c', bs)"
  shows "coord_inv c'"
proof (cases x)
  case (OpGet now stg)
  from GetTask_inv [OF assms(1), of now stg] obtain r where
    "GetTask now stg c = Inr r" "\<forall>task c'. r = Got task c' \<longrightarrow> coord_inv c'" by blast
  with OpGet assms(1,3) show ?thesis by (cases r) auto
next
  case (OpMapDone req)
  with assms MapTaskDone_inv [OF assms(1)] show ?thesis by (auto simp: go_bind_eq_Inr)
next
  case (OpReduceDone req)
  with assms ReduceTaskDone_inv [OF assms(1)] show ?thesis by (auto split: prod.splits)
next
  case (OpInspectMap rng now)
  with assms InspectMapTasks_inv [OF assms(1)] show ?thesis by simp
next
  case (OpInspectReduce rng now)
  with assms InspectReduceTasks_inv [OF assms(1)] show ?thesis by simp
qed

lemma coord_run_inv:
  assumes "coord_inv c" "\<forall>x \<in> set xs. op_visits x" "coord_run xs c = Inr c'"
  shows "coord_inv c'"
  using assms
proof (induction xs arbitrary: c)
  case (Cons x xs)
  from Cons.prems(3) obtain c1 bs where "coord_step x c = Inr (c1, bs)" "coord_run xs c1 = Inr c'"
    by (auto simp: go_bind_eq_Inr)
  with Cons coord_step_inv [OF Cons.prems(1)] show ?case by auto
qed simp

text \<open>Whether a handler waits depends on the state only.\<close>

definition map_waits :: "Coordinator \<Rightarrow> bool" where
  "map_waits c \<longleftrightarrow> IdleMapTask c = [] \<and> MapTasksCompletedCnt c < int (length (MapTasks c))"

definition maps_open :: "Coordinator \<Rightarrow> bool" where
  "maps_open c \<longleftrightarrow> MapTasksCompletedCnt c < int (length (MapTasks c))"

definition reduce_waits :: "Coordinator \<Rightarrow> bool" where
  "reduce_waits c \<longleftrightarrow> \<not> maps_open c \<and> IdleReduceTask c = [] \<and> ReduceTasksCompletedCnt c < int (length (ReduceTasks c))"

lemma GetMapTask_waits: "GetMapTask now task c = Inr (Waits w) \<longleftrightarrow> map_waits c \<and> w = mapTaskCond"
  by (auto simp: GetMapTask_def map_waits_def go_bind_eq_Inr Let_def split: if_splits)

lemma GetReduceTask_waits:
  "GetReduceTask now task c = Inr (Waits w) \<longleftrightarrow>
     maps_open c \<and> w = mapTaskCompletedcond \<or> reduce_waits c \<and> w = reduceTaskCond"
  by (auto simp: GetReduceTask_def reduce_waits_def maps_open_def Let_def split: if_splits option.splits)

lemma coord_step_wakes:
  assumes inv: "coord_inv c" and step: "coord_step x c = Inr (c', bs)"
  shows "map_waits c \<Longrightarrow> \<not> map_waits c' \<Longrightarrow> mapTaskCond \<in> set bs"
    and "maps_open c \<Longrightarrow> \<not> maps_open c' \<Longrightarrow> mapTaskCompletedcond \<in> set bs"
    and "reduce_waits c \<Longrightarrow> \<not> reduce_waits c' \<Longrightarrow> reduceTaskCond \<in> set bs"
proof -
  have "(map_waits c \<and> \<not> map_waits c' \<longrightarrow> mapTaskCond \<in> set bs) \<and>
    (maps_open c \<and> \<not> maps_open c' \<longrightarrow> mapTaskCompletedcond \<in> set bs) \<and>
    (reduce_waits c \<and> \<not> reduce_waits c' \<longrightarrow> reduceTaskCond \<in> set bs)"
  proof (cases x)
    case (OpGet now stg)
    with step show ?thesis
      using GetMapTask_cases [OF inv, of now zeroTask] GetReduceTask_cases [OF inv, of now zeroTask]
      by (cases stg) (auto simp: GetTask_def map_waits_def maps_open_def reduce_waits_def)
  next
    case (OpMapDone req)
    then obtain err where run: "MapTaskDone req c = Inr (err, c', bs)" using step by (auto simp: go_bind_eq_Inr)
    show ?thesis
    proof (cases "maps_open c")
      case True
      show ?thesis
      proof (cases err)
        case None
        with run have "MapTaskDone req c = Inr (None, c', bs)" by simp
        from MapTaskDone_accepted [OF this] add_files_inv [OF inv] True show ?thesis
          by (fastforce simp: map_waits_def maps_open_def reduce_waits_def same_maps_def)
      next
        case (Some e)
        with run add_files_inv [OF inv] have "same_maps c c'"
          by (auto simp: MapTaskDone_def Let_def go_bind_eq_Inr split: if_splits prod.splits)
        with True show ?thesis by (auto simp: map_waits_def maps_open_def reduce_waits_def same_maps_def)
      qed
    next
      case False
      with map_done_iff [OF inv] have "MTaskProcessingTxn c = []" by (simp add: maps_open_def)
      with run have "c' = c" by (simp add: MapTaskDone_def)
      then show ?thesis by simp
    qed
  next
    case (OpReduceDone req)
    with step show ?thesis
      by (auto simp: ReduceTaskDone_def Let_def map_waits_def maps_open_def reduce_waits_def split: if_splits)
  next
    case (OpInspectMap rng now)
    with step show ?thesis
      by (cases "expired rng now (MTaskProcessingTxn c)")
        (auto simp: InspectMapTasks_def Let_def map_waits_def maps_open_def reduce_waits_def expire_map_fields expire_map_def)
  next
    case (OpInspectReduce rng now)
    with step show ?thesis
      by (cases "expired rng now (RTaskProcessingTxn c)")
        (auto simp: InspectReduceTasks_def Let_def map_waits_def maps_open_def reduce_waits_def expire_reduce_fields expire_reduce_def)
  qed
  then show "map_waits c \<Longrightarrow> \<not> map_waits c' \<Longrightarrow> mapTaskCond \<in> set bs"
    "maps_open c \<Longrightarrow> \<not> maps_open c' \<Longrightarrow> mapTaskCompletedcond \<in> set bs"
    "reduce_waits c \<Longrightarrow> \<not> reduce_waits c' \<Longrightarrow> reduceTaskCond \<in> set bs" by blast+
qed

text \<open>
  C16: no wake-up is lost. After any sequence of calls and inspections, when a call would have to wait
  for a condition variable and one more call or inspection changes the state so that it would not wait for
  it any more, this one broadcasts that condition variable; so no worker waits for ever for a task that is there.
\<close>

theorem no_lost_wakeup:
  assumes run: "coord_run xs (MakeCoordinator files nReduce) = Inr c" and rng: "\<forall>x \<in> set xs. op_visits x"
    and step: "coord_step x c = Inr (c', bs)"
  shows "(GetMapTask now task c = Inr (Waits w) \<and> GetMapTask now task c' \<noteq> Inr (Waits w) \<longrightarrow> w \<in> set bs) \<and>
    (GetReduceTask now task c = Inr (Waits w) \<and> GetReduceTask now task c' \<noteq> Inr (Waits w) \<longrightarrow> w \<in> set bs)"
proof -
  have "coord_inv c" by (rule coord_run_inv [OF MakeCoordinator_inv rng run])
  from coord_step_wakes [OF this step] show ?thesis
    unfolding GetMapTask_waits GetReduceTask_waits by blast
qed

definition sample_calls :: "coord_op list" where
  "sample_calls = [OpGet 0 AskMap, OpInspectMap (\<lambda>ks. ks) 11000000000, OpGet 12000000000 AskMap]"

text \<open>The only map task is handed out, times out and is handed out again; then its second transaction reports.\<close>

theorem no_lost_wakeup_witness:
  "\<exists>c c'. coord_run sample_calls (MakeCoordinator [''pg.txt''] 10) = Inr c \<and>
     coord_step (OpMapDone \<lparr>rp_Index = 0, rp_TxnID = 1, rp_Filenames = [''mr-0-3'']\<rparr>) c =
       Inr (c', [mapTaskCond, mapTaskCompletedcond]) \<and>
     GetReduceTask 0 zeroTask c = Inr (Waits mapTaskCompletedcond) \<and>
     GetReduceTask 0 zeroTask c' \<noteq> Inr (Waits mapTaskCompletedcond) \<and>
     mapTaskCompletedcond \<in> set [mapTaskCond, mapTaskCompletedcond]"
proof -
  let ?m = "MakeCoordinator [''pg.txt''] 10" and ?x = "OpMapDone \<lparr>rp_Index = 0, rp_TxnID = 1, rp_Filenames = [''mr-0-3'']\<rparr>"
  let ?c = "projr (coord_run sample_calls ?m)"
  let ?c' = "fst (projr (coord_step ?x ?c))"
  have "\<not> isl (coord_run sample_calls ?m)" by code_simp
  then have run: "coord_run sample_calls ?m = Inr ?c" by (rule sum.collapse(2) [symmetric])
  have "\<not> isl (coord_step ?x ?c)" by code_simp
  then have "coord_step ?x ?c = Inr (projr (coord_step ?x ?c))" by (rule sum.collapse(2) [symmetric])
  moreover have "snd (projr (coord_step ?x ?c)) = [mapTaskCond, mapTaskCompletedcond]" by code_simp
  ultimately have step: "coord_step ?x ?c = Inr (?c', [mapTaskCond, mapTaskCompletedcond])" by (metis prod.collapse)
  have "\<forall>x \<in> set sample_calls. op_visits x" by (simp add: sample_calls_def visits_def)
  moreover have "GetReduceTask 0 zeroTask ?c = Inr (Waits mapTaskCompletedcond)"
    "GetReduceTask 0 zeroTask ?c' \<noteq> Inr (Waits mapTaskCompletedcond)"
    unfolding GetReduceTask_waits by code_simp+
  ultimately show ?thesis
    using no_lost_wakeup [OF run _ step, of 0 zeroTask mapTaskCompletedcond] run step by blast
qed

end
