(* ===== verification/MrSystem.thy ===== *)
theory MrSystem
  imports MrCoordinator
begin

text \<open>
  A MapReduce job: one coordinator, any number of worker processes (\<^verbatim>\<open>Worker\<close>, \<^verbatim>\<open>ProcessMapTask\<close> and
  \<^verbatim>\<open>ProcessReduceTask\<close> of \<^verbatim>\<open>src/mr/worker.go\<close>) and the files they share. A worker moves in small steps,
  because others run between them and it can crash after each: it asks for a task, it writes one pair
  to an intermediate file, it reads one intermediate file, it writes one line of output, it reports.
  The first pair for a file creates it, which truncates what an earlier worker wrote. Later pairs are
  appended to the file of that name: this is what a write at the offset of the open file does, as long as
  no other process truncates the file in between, which holds in the timely runs below and in every run
  that the theorems evaluate. \<^verbatim>\<open>encoding/json\<close> is modelled as faithful: decoding a file gives the
  pairs that were encoded into it, which holds for keys and values that are valid UTF-8. The intermediate
  files and the output files are two maps; their names are disjoint. \<open>contents\<close> gives the contents
  of the input files, which exist and do not change.
\<close>

section \<open>Jobs, workers and files\<close>

record Job =
  inputs :: "string list"
  contents :: "string \<Rightarrow> string"
  mapf :: "string \<Rightarrow> string \<Rightarrow> KeyValue list"
  reducef :: "string \<Rightarrow> string list \<Rightarrow> string"
  sortf :: "KeyValue list \<Rightarrow> KeyValue list"
  nReduce :: int

datatype Worker =
    Asking stage
  | MapWriting Task "KeyValue list" "string list"
  | ReduceReading Task "string list" "KeyValue list"
  | ReduceWriting Task "string list"
  | Gone

record MrSys =
  coord :: Coordinator
  workers :: "nat \<Rightarrow> Worker"
  inter :: "string \<rightharpoonup> KeyValue list"
  outf :: "string \<rightharpoonup> string list"

definition mr_init :: "Job \<Rightarrow> MrSys" where
  "mr_init J = \<lparr>coord = MakeCoordinator (inputs J) (nReduce J), workers = (\<lambda>_. Asking AskMap),
     inter = Map.empty, outf = Map.empty\<rparr>"

text \<open>What a worker begins when it is given a task.\<close>

definition start_task :: "Job \<Rightarrow> Task \<Rightarrow> Worker go" where
  "start_task J task =
     (if IsMapTask task
      then go_bind (go_index (Filenames task) 0) (\<lambda>f. Inr (MapWriting task (mapf J f (contents J f)) []))
      else Inr (ReduceReading task (Filenames task) []))"

definition write_pair :: "Task \<Rightarrow> KeyValue \<Rightarrow> string list \<Rightarrow> (string \<rightharpoonup> KeyValue list) \<Rightarrow>
    string list \<times> (string \<rightharpoonup> KeyValue list)" where
  "write_pair t kv names fs =
     (let f = iFileName (Index t) (reduce_index (t_NReduce t) (kv_Key kv)) in
      if f \<in> set names then (names, fs(f := map_option (\<lambda>c. c @ [kv]) (fs f))) else (names @ [f], fs(f \<mapsto> [kv])))"

datatype MrMove =
    Ask nat int
  | WritePair nat
  | ReportMap nat
  | ReadFile nat
  | OpenOutput nat
  | WriteLine nat
  | ReportReduce nat
  | Crash nat
  | InspectMaps "int list \<Rightarrow> int list" int
  | InspectReduces "int list \<Rightarrow> int list" int

abbreviation set_worker :: "nat \<Rightarrow> Worker \<Rightarrow> MrSys \<Rightarrow> MrSys" where
  "set_worker w x s \<equiv> s\<lparr>workers := (workers s)(w := x)\<rparr>"

text \<open>One step; None when it is not possible, \<open>Inl\<close> when it panics. A refused report ends the worker.\<close>

fun mr_step :: "Job \<Rightarrow> MrMove \<Rightarrow> MrSys \<Rightarrow> MrSys go option" where
  "mr_step J (Ask w now) s =
     (case workers s w of
        Asking stg \<Rightarrow> Some (go_bind (GetTask now stg (coord s)) (\<lambda>r.
          case r of
            Again stg' \<Rightarrow> Inr (set_worker w (Asking stg') s)
          | Got task c \<Rightarrow> go_bind (start_task J task) (\<lambda>x. Inr (set_worker w x (s\<lparr>coord := c\<rparr>)))
          | Refused e \<Rightarrow> Inr (set_worker w Gone s)))
      | _ \<Rightarrow> None)"
| "mr_step J (WritePair w) s =
     (case workers s w of
        MapWriting t (kv # rest) names \<Rightarrow>
          if t_NReduce t = 0 then Some (Inl DivideByZero)
          else (case write_pair t kv names (inter s) of (names', fs) \<Rightarrow>
             Some (Inr (set_worker w (MapWriting t rest names') (s\<lparr>inter := fs\<rparr>))))
      | _ \<Rightarrow> None)"
| "mr_step J (ReportMap w) s =
     (case workers s w of
        MapWriting t [] names \<Rightarrow> Some (go_bind
          (MapTaskDone \<lparr>rp_Index = Index t, rp_TxnID = TxnID t, rp_Filenames = names\<rparr> (coord s)) (\<lambda>(e, c, _).
             Inr (set_worker w (if e = None then Asking AskMap else Gone) (s\<lparr>coord := c\<rparr>))))
      | _ \<Rightarrow> None)"
| "mr_step J (ReadFile w) s =
     (case workers s w of
        ReduceReading t (f # fs) acc \<Rightarrow> Some (Inr
          (case inter s f of
             None \<Rightarrow> set_worker w Gone s
           | Some kvs \<Rightarrow> set_worker w (ReduceReading t fs (acc @ kvs)) s))
      | _ \<Rightarrow> None)"
| "mr_step J (OpenOutput w) s =
     (case workers s w of
        ReduceReading t [] acc \<Rightarrow> Some (Inr
          (set_worker w (ReduceWriting t (map out_line (reduce_loop (reducef J) (sortf J acc) 0)))
             (s\<lparr>outf := (outf s)(oFileName (Index t) \<mapsto> [])\<rparr>)))
      | _ \<Rightarrow> None)"
| "mr_step J (WriteLine w) s =
     (case workers s w of
        ReduceWriting t (l # ls) \<Rightarrow> Some (Inr
          (set_worker w (ReduceWriting t ls)
             (s\<lparr>outf := (outf s)(oFileName (Index t) := map_option (\<lambda>c. c @ [l]) (outf s (oFileName (Index t))))\<rparr>)))
      | _ \<Rightarrow> None)"
| "mr_step J (ReportReduce w) s =
     (case workers s w of
        ReduceWriting t [] \<Rightarrow>
          (case ReduceTaskDone \<lparr>rp_Index = Index t, rp_TxnID = TxnID t, rp_Filenames = []\<rparr> (coord s) of (e, c, _) \<Rightarrow>
             Some (Inr (set_worker w (if e = None then Asking AskMap else Gone) (s\<lparr>coord := c\<rparr>))))
      | _ \<Rightarrow> None)"
| "mr_step J (Crash w) s = Some (Inr (set_worker w Gone s))"
| "mr_step J (InspectMaps rng now) s = Some (Inr (s\<lparr>coord := fst (InspectMapTasks rng now (coord s))\<rparr>))"
| "mr_step J (InspectReduces rng now) s = Some (Inr (s\<lparr>coord := fst (InspectReduceTasks rng now (coord s))\<rparr>))"

fun mr_run :: "Job \<Rightarrow> MrMove list \<Rightarrow> MrSys \<Rightarrow> MrSys go option" where
  "mr_run J [] s = Some (Inr s)"
| "mr_run J (m # ms) s =
     (case mr_step J m s of None \<Rightarrow> None | Some (Inl p) \<Rightarrow> Some (Inl p) | Some (Inr s') \<Rightarrow> mr_run J ms s')"

fun move_visits :: "MrMove \<Rightarrow> bool" where
  "move_visits (InspectMaps rng now) \<longleftrightarrow> visits rng"
| "move_visits (InspectReduces rng now) \<longleftrightarrow> visits rng"
| "move_visits _ \<longleftrightarrow> True"

text \<open>The task a worker is at.\<close>

fun holds_map :: "Worker \<Rightarrow> Task option" where
  "holds_map (MapWriting t rest names) = Some t"
| "holds_map _ = None"

fun holds_reduce :: "Worker \<Rightarrow> Task option" where
  "holds_reduce (ReduceReading t fs acc) = Some t"
| "holds_reduce (ReduceWriting t ls) = Some t"
| "holds_reduce _ = None"

text \<open>A step is timely when no inspection gives up a task at which a live worker still is.\<close>

fun timely :: "MrMove \<Rightarrow> MrSys \<Rightarrow> bool" where
  "timely (InspectMaps rng now) s \<longleftrightarrow>
     (\<forall>w t. holds_map (workers s w) = Some t \<longrightarrow> Index t \<notin> set (expired rng now (MTaskProcessingTxn (coord s))))"
| "timely (InspectReduces rng now) s \<longleftrightarrow>
     (\<forall>w t. holds_reduce (workers s w) = Some t \<longrightarrow> Index t \<notin> set (expired rng now (RTaskProcessingTxn (coord s))))"
| "timely _ s \<longleftrightarrow> True"

fun timely_run :: "Job \<Rightarrow> MrMove list \<Rightarrow> MrSys \<Rightarrow> bool" where
  "timely_run J [] s \<longleftrightarrow> True"
| "timely_run J (m # ms) s \<longleftrightarrow> timely m s \<and> (case mr_step J m s of Some (Inr s') \<Rightarrow> timely_run J ms s' | _ \<Rightarrow> True)"

section \<open>What the job computes\<close>

definition pairs_of :: "Job \<Rightarrow> nat \<Rightarrow> KeyValue list" where
  "pairs_of J i = mapf J (inputs J ! i) (contents J (inputs J ! i))"

abbreviation share :: "Job \<Rightarrow> int \<Rightarrow> KeyValue list \<Rightarrow> KeyValue list" where
  "share J r kvs \<equiv> bucket (nReduce J) r kvs"

definition all_pairs :: "Job \<Rightarrow> KeyValue list" where
  "all_pairs J = concat (map (pairs_of J) [0..<length (inputs J)])"

definition out_lines :: "Job \<Rightarrow> int \<Rightarrow> string list" where
  "out_lines J r = map out_line (reduce_spec (reducef J) (share J r (all_pairs J)))"

text \<open>The conditions on a job under which it is well defined.\<close>

definition job_ok :: "Job \<Rightarrow> bool" where
  "job_ok J \<longleftrightarrow> 0 < nReduce J \<and> nReduce J < 2 ^ 63 \<and> sorts (sortf J) \<and> order_free (reducef J)"

lemma bucket_append [simp]: "bucket n r (xs @ ys) = bucket n r xs @ bucket n r ys"
  by (simp add: bucket_def)

lemma bucket_single [simp]: "bucket n r [kv] = (if reduce_index n (kv_Key kv) = r then [kv] else [])"
  by (simp add: bucket_def)

lemma bucket_Nil [simp]: "bucket n r [] = []"
  by (simp add: bucket_def)

lemma bucket_nonempty: "bucket n r kvs \<noteq> [] \<longleftrightarrow> r \<in> (\<lambda>kv. reduce_index n (kv_Key kv)) ` set kvs"
  by (auto simp: bucket_def filter_empty_conv)

text \<open>The shares of some map tasks, in any order, are those of the whole job when the others have none.\<close>

lemma share_concat:
  assumes "distinct idx" "set idx = {i. i < length (inputs J) \<and> share J r (pairs_of J i) \<noteq> []}"
  shows "mset (concat (map (\<lambda>i. share J r (pairs_of J i)) idx)) = mset (share J r (all_pairs J))"
proof -
  let ?f = "\<lambda>i. mset (share J r (pairs_of J i))"
  have c: "mset (concat (map (\<lambda>i. share J r (pairs_of J i)) xs)) = (\<Sum>i\<leftarrow>xs. ?f i)" for xs
    by (induction xs) simp_all
  have "share J r (concat (map (pairs_of J) xs)) = concat (map (\<lambda>i. share J r (pairs_of J i)) xs)" for xs
    by (induction xs) simp_all
  then have "mset (share J r (all_pairs J)) = (\<Sum>i\<leftarrow>[0..<length (inputs J)]. ?f i)"
    by (simp only: all_pairs_def c)
  also have "\<dots> = (\<Sum>i \<in> {0..<length (inputs J)}. ?f i)" by (simp add: sum_list_distinct_conv_sum_set)
  also have "\<dots> = (\<Sum>i \<in> set idx. ?f i)"
    by (rule sum.mono_neutral_right) (auto simp: assms(2))
  also have "\<dots> = (\<Sum>i\<leftarrow>idx. ?f i)" using assms(1) by (simp add: sum_list_distinct_conv_sum_set)
  finally show ?thesis by (simp only: c)
qed

lemma reduce_lines:
  assumes "job_ok J" "mset acc = mset (share J r (all_pairs J))"
  shows "map out_line (reduce_loop (reducef J) (sortf J acc) 0) = out_lines J r"
  using assms reduce_output_spec [of "sortf J" "reducef J" acc] reduce_spec_mset [OF _ assms(2), of "reducef J"]
  by (simp add: job_ok_def out_lines_def)

lemma oFileName_inject [simp]: "oFileName r = oFileName r' \<longleftrightarrow> r = r'"
  by (simp add: oFileName_def)

section \<open>No step panics\<close>

definition names_ok :: "Job \<Rightarrow> Task \<Rightarrow> string list \<Rightarrow> bool" where
  "names_ok J t names \<longleftrightarrow> 0 \<le> Index t \<and> Index t < int (length (inputs J)) \<and> t_NReduce t = nReduce J \<and>
     (\<forall>f \<in> set names. \<exists>r. 0 \<le> r \<and> r < nReduce J \<and> f = iFileName (Index t) r)"

definition safe_inv :: "Job \<Rightarrow> MrSys \<Rightarrow> bool" where
  "safe_inv J s \<longleftrightarrow> coord_inv (coord s) \<and> MapTasks (coord s) = MapTasks (MakeCoordinator (inputs J) (nReduce J)) \<and>
     (\<forall>w t rest names. workers s w = MapWriting t rest names \<longrightarrow> names_ok J t names)"

lemma MapTasks_nth:
  assumes "i < length (inputs J)"
  shows "MapTasks (MakeCoordinator (inputs J) n) ! i =
    zeroTask\<lparr>IsMapTask := True, Filenames := [inputs J ! i], Index := int i, t_NReduce := n\<rparr>"
    and "length (MapTasks (MakeCoordinator (inputs J) n)) = length (inputs J)"
  using assms by (simp_all add: MakeCoordinator_fields nth_enumerate_eq)

lemma add_files_runs:
  assumes "0 \<le> i" "n < 2 ^ 63" "\<forall>f \<in> set names. \<exists>r. 0 \<le> r \<and> r < n \<and> f = iFileName i r"
  shows "\<exists>c'. add_files names c = Inr (True, c')"
  using assms(3)
proof (induction names arbitrary: c)
  case (Cons f names)
  then obtain r where r: "0 \<le> r" "r < n" "f = iFileName i r" by auto
  have "file_index f = Inr (Some r)"
    using r assms(1,2) by (simp add: file_index_eq)
  with Cons show ?case by simp
qed simp

text \<open>What asking for a task gives, in a state that satisfies the invariant.\<close>

lemma GetTask_map:
  assumes inv: "safe_inv J s" and got: "GetTask now AskMap (coord s) = Inr (Got task c)"
  shows "\<exists>i. i < length (inputs J) \<and> int i \<in> set (IdleMapTask (coord s)) \<and>
    task = \<lparr>IsMapTask = True, Filenames = [inputs J ! i], Index = int i, t_NReduce = nReduce J, TxnID = NextTxnID (coord s)\<rparr> \<and>
    c = (coord s)\<lparr>IdleMapTask := tl (IdleMapTask (coord s)),
      MapTaskStatus := (MapTaskStatus (coord s))(int i \<mapsto> INPROGRESS), NextTxnID := NextTxnID (coord s) + 1,
      MTaskProcessingTxn := AList.update (int i) \<lparr>txnID = NextTxnID (coord s), beginTime = now\<rparr>
        (MTaskProcessingTxn (coord s))\<rparr> \<and> coord_inv c"
proof -
  have c: "coord_inv (coord s)" and m: "MapTasks (coord s) = MapTasks (MakeCoordinator (inputs J) (nReduce J))"
    using inv by (simp_all add: safe_inv_def)
  have len: "length (MapTasks (coord s)) = length (inputs J)" unfolding m by (simp add: MakeCoordinator_fields)
  from GetMapTask_cases [OF c, of now zeroTask] got obtain i where
    i: "0 \<le> i" "i < int (length (inputs J))" "i \<in> set (IdleMapTask (coord s))"
    "task = (CloneTask zeroTask (MapTasks (coord s) ! nat i))\<lparr>TxnID := NextTxnID (coord s)\<rparr>"
    "c = (coord s)\<lparr>IdleMapTask := tl (IdleMapTask (coord s)),
      MapTaskStatus := (MapTaskStatus (coord s))(i \<mapsto> INPROGRESS), NextTxnID := NextTxnID (coord s) + 1,
      MTaskProcessingTxn := AList.update i \<lparr>txnID = NextTxnID (coord s), beginTime = now\<rparr>
        (MTaskProcessingTxn (coord s))\<rparr>" "coord_inv c" by (auto simp: GetTask_def len)
  then have n: "nat i < length (inputs J)" "int (nat i) = i" by auto
  have "task = \<lparr>IsMapTask = True, Filenames = [inputs J ! nat i], Index = i, t_NReduce = nReduce J,
      TxnID = NextTxnID (coord s)\<rparr>"
    using i(4) n unfolding m by (simp add: MapTasks_nth CloneTask_def zeroTask_def)
  with i n show ?thesis by (intro exI [of _ "nat i"]) simp
qed

lemma GetTask_reduce:
  assumes inv: "coord_inv c0" and got: "GetTask now AskReduce c0 = Inr (Got task c)"
  shows "int (length (MapTasks c0)) \<le> MapTasksCompletedCnt c0 \<and> (\<exists>r t. map_of (ReduceTasks c0) r = Some t \<and> r \<in> set (IdleReduceTask c0) \<and>
    task = t\<lparr>TxnID := NextTxnID c0\<rparr> \<and> Index t = r \<and> \<not> IsMapTask t \<and>
    c = c0\<lparr>IdleReduceTask := tl (IdleReduceTask c0), ReduceTaskStatus := (ReduceTaskStatus c0)(r \<mapsto> INPROGRESS),
      NextTxnID := NextTxnID c0 + 1,
      RTaskProcessingTxn := AList.update r \<lparr>txnID = NextTxnID c0, beginTime = now\<rparr> (RTaskProcessingTxn c0)\<rparr> \<and> coord_inv c)"
proof -
  from GetReduceTask_cases [OF inv, of now zeroTask] got obtain r t where
    r: "int (length (MapTasks c0)) \<le> MapTasksCompletedCnt c0" "map_of (ReduceTasks c0) r = Some t" "r \<in> set (IdleReduceTask c0)"
    "task = (CloneTask zeroTask t)\<lparr>TxnID := NextTxnID c0\<rparr>"
    "c = c0\<lparr>IdleReduceTask := tl (IdleReduceTask c0), ReduceTaskStatus := (ReduceTaskStatus c0)(r \<mapsto> INPROGRESS),
      NextTxnID := NextTxnID c0 + 1,
      RTaskProcessingTxn := AList.update r \<lparr>txnID = NextTxnID c0, beginTime = now\<rparr> (RTaskProcessingTxn c0)\<rparr>"
    "coord_inv c" by (auto simp: GetTask_def)
  have "Index t = r" "\<not> IsMapTask t" using coord_invD(8) [OF inv] map_of_SomeD [OF r(2)] by auto
  moreover have "CloneTask zeroTask t = t\<lparr>TxnID := 0\<rparr>" by (simp add: CloneTask_def zeroTask_def)
  ultimately show ?thesis using r by auto
qed

lemma safe_start:
  assumes inv: "safe_inv J s" and got: "GetTask now stg (coord s) = Inr (Got task c)"
  shows "\<exists>x. start_task J task = Inr x \<and> safe_inv J (set_worker w x (s\<lparr>coord := c\<rparr>))"
proof (cases stg)
  case AskMap
  with got have "GetTask now AskMap (coord s) = Inr (Got task c)" by simp
  from GetTask_map [OF inv this] show ?thesis using inv
    by (auto simp: start_task_def safe_inv_def names_ok_def)
next
  case AskReduce
  with got have "GetTask now AskReduce (coord s) = Inr (Got task c)" by simp
  from GetTask_reduce [OF _ this] show ?thesis using inv
    by (auto simp: start_task_def safe_inv_def)
qed

lemma write_names_ok:
  assumes "names_ok J t names" "0 < nReduce J" "write_pair t kv names fs = (names', fs')"
  shows "names_ok J t names'"
  using assms reduce_index_range [OF assms(2), of "kv_Key kv"]
  by (auto simp: names_ok_def write_pair_def Let_def split: if_splits)

lemma safe_report:
  assumes inv: "safe_inv J s" and job: "job_ok J" and w: "workers s w = MapWriting t [] names"
  shows "\<exists>e c bs. MapTaskDone \<lparr>rp_Index = Index t, rp_TxnID = TxnID t, rp_Filenames = names\<rparr> (coord s) = Inr (e, c, bs) \<and>
    coord_inv c \<and> MapTasks c = MapTasks (coord s)"
proof -
  let ?req = "\<lparr>rp_Index = Index t, rp_TxnID = TxnID t, rp_Filenames = names\<rparr>"
  have c: "coord_inv (coord s)" and n: "names_ok J t names" using inv w by (auto simp: safe_inv_def)
  from n job obtain c1 where add: "add_files names (coord s) = Inr (True, c1)"
    using add_files_runs [of "Index t" "nReduce J" names] by (fastforce simp: names_ok_def job_ok_def)
  then obtain e c' bs where run: "MapTaskDone ?req (coord s) = Inr (e, c', bs)"
    by (cases "MapTaskDone ?req (coord s)") (auto simp: MapTaskDone_def Let_def split: if_splits)
  moreover have "MapTasks c' = MapTasks (coord s)"
    using run add add_files_inv [OF c add]
    by (auto simp: MapTaskDone_def Let_def same_maps_def split: if_splits)
  ultimately show ?thesis using MapTaskDone_inv [OF c run] by blast
qed

lemma safe_step:
  assumes inv: "safe_inv J s" and job: "job_ok J" and rng: "move_visits m" and step: "mr_step J m s = Some x"
  shows "\<exists>s'. x = Inr s' \<and> safe_inv J s'"
proof (cases m)
  case (Ask w now)
  with step obtain stg where w: "workers s w = Asking stg" by (auto split: Worker.splits)
  from inv GetTask_inv [of "coord s" now stg] obtain r where r: "GetTask now stg (coord s) = Inr r"
    by (auto simp: safe_inv_def)
  show ?thesis
  proof (cases r)
    case (Got task c)
    with r safe_start [OF inv, of now stg task c w] Ask w step show ?thesis by auto
  qed (use Ask w r step inv in \<open>auto simp: safe_inv_def\<close>)
next
  case (WritePair w)
  with step obtain t kv rest names where w: "workers s w = MapWriting t (kv # rest) names"
    by (auto split: Worker.splits list.splits)
  obtain names' fs where p: "write_pair t kv names (inter s) = (names', fs)" by fastforce
  have "names_ok J t names'" "t_NReduce t \<noteq> 0"
    using write_names_ok [OF _ _ p] inv job w by (auto simp: safe_inv_def job_ok_def names_ok_def)
  with WritePair w p step inv show ?thesis by (auto simp: safe_inv_def)
next
  case (ReportMap w)
  with step obtain t names where w: "workers s w = MapWriting t [] names" by (auto split: Worker.splits list.splits)
  from safe_report [OF inv job w] ReportMap w step inv show ?thesis by (auto simp: safe_inv_def)
next
  case (InspectMaps rng now)
  with step inv rng InspectMapTasks_inv [of "coord s" rng now] expire_map_fields show ?thesis
    by (auto simp: safe_inv_def InspectMapTasks_def Let_def)
next
  case (InspectReduces rng now)
  with step inv rng InspectReduceTasks_inv [of "coord s" rng now] expire_reduce_fields show ?thesis
    by (auto simp: safe_inv_def InspectReduceTasks_def Let_def)
next
  case (ReportReduce w)
  with step obtain t where w: "workers s w = ReduceWriting t []" by (auto split: Worker.splits list.splits)
  obtain e c bs where run: "ReduceTaskDone \<lparr>rp_Index = Index t, rp_TxnID = TxnID t, rp_Filenames = []\<rparr> (coord s) = (e, c, bs)"
    by (metis prod_cases3)
  from inv ReduceTaskDone_inv [OF _ run] have "coord_inv c" by (simp add: safe_inv_def)
  moreover have "MapTasks c = MapTasks (coord s)" using run by (auto simp: ReduceTaskDone_def Let_def split: if_splits)
  ultimately show ?thesis using ReportReduce w step inv run by (auto simp: safe_inv_def)
qed (use step inv in \<open>auto simp: safe_inv_def split: Worker.splits list.splits option.splits\<close>)

lemma safe_init: "safe_inv J (mr_init J)"
  by (simp add: safe_inv_def mr_init_def MakeCoordinator_inv)

lemma safe_run:
  assumes "safe_inv J s" "job_ok J" "\<forall>m \<in> set ms. move_visits m" "mr_run J ms s = Some x"
  shows "\<exists>s'. x = Inr s' \<and> safe_inv J s'"
  using assms
proof (induction ms arbitrary: s)
  case (Cons m ms)
  then obtain y where y: "mr_step J m s = Some y" by (auto split: option.splits)
  from safe_step [OF Cons.prems(1,2) _ y] Cons.prems(3) obtain s1 where "y = Inr s1" "safe_inv J s1" by auto
  with Cons y show ?case by auto
qed auto

text \<open>
  C15: no step of a job panics. Whatever the workers do, in whatever order, with crashes and timeouts
  at any time: no handler of the coordinator and no worker panics, and the coordinator keeps its invariant, in
  which every task is either queued once, or in progress with one transaction, or completed and counted.
\<close>

theorem mr_no_panic:
  assumes "job_ok J" "\<forall>m \<in> set ms. move_visits m" "mr_run J ms (mr_init J) = Some x"
  shows "\<exists>s. x = Inr s \<and> coord_inv (coord s)"
  using safe_run [OF safe_init assms] by (auto simp: safe_inv_def)

text \<open>
  A word count of one file into two reduce tasks. Worker 0 crashes after its first pair, the coordinator
  gives its task up, and worker 1 does the whole job and is told that there is no more to do.
\<close>

definition sample_job :: Job where
  "sample_job = \<lparr>inputs = [''f''], contents = (\<lambda>_. ''a b a''), mapf = wc_Map (\<lambda>c. c \<noteq> CHR '' ''),
     reducef = wc_Reduce, sortf = sort_key kv_Key, nReduce = 2\<rparr>"

definition sample_job_moves :: "MrMove list" where
  "sample_job_moves = [Ask 0 0, WritePair 0, Crash 0, InspectMaps (\<lambda>ks. ks) 11000000000,
     Ask 1 12000000000, WritePair 1, WritePair 1, WritePair 1, ReportMap 1,
     Ask 1 0, Ask 1 0, ReadFile 1, OpenOutput 1, WriteLine 1, ReportReduce 1,
     Ask 1 0, Ask 1 0, ReadFile 1, OpenOutput 1, WriteLine 1, ReportReduce 1, Ask 1 0, Ask 1 0]"

lemma run_result: "(case x of Some (Inr s) \<Rightarrow> True | _ \<Rightarrow> False) \<Longrightarrow> x = Some (Inr (projr (the x)))"
  by (auto split: option.splits sum.splits)

definition sample_job_state :: MrSys where
  "sample_job_state = projr (the (mr_run sample_job sample_job_moves (mr_init sample_job)))"

lemma sample_job_ok: "job_ok sample_job"
  by (simp add: job_ok_def sample_job_def wc_order_free sort_key_sorts)

lemma sample_job_run: "mr_run sample_job sample_job_moves (mr_init sample_job) = Some (Inr sample_job_state)"
  unfolding sample_job_state_def by (rule run_result) code_simp

theorem mr_no_panic_witness:
  "\<exists>s. mr_run sample_job sample_job_moves (mr_init sample_job) = Some (Inr s) \<and> coord_inv (coord s)"
proof -
  have "\<forall>m \<in> set sample_job_moves. move_visits m" by (simp add: sample_job_moves_def visits_def)
  from mr_no_panic [OF sample_job_ok this sample_job_run] sample_job_run show ?thesis by auto
qed

end
