(* ===== verification/MrCorrect.thy ===== *)
theory MrCorrect
  imports MrSystem
begin

text \<open>
  The result of a MapReduce job. In a run in which the coordinator gives up only tasks of workers that
  are gone, the output files of a finished job hold the lines of the sequential program
  (\<^verbatim>\<open>src/main/mrsequential.go\<close>): workers may crash in the middle of a file, and another worker then
  creates the file anew. Without that condition this fails: a worker that was given up but still runs
  truncates the files of a task that another one has completed.
\<close>

section \<open>Invariant\<close>

definition map_done :: "Coordinator \<Rightarrow> nat \<Rightarrow> bool" where
  "map_done c i \<longleftrightarrow> MapTaskStatus c (int i) = Some COMPLETED"

text \<open>The completed map tasks with pairs for reduce task \<open>r\<close>, and their files.\<close>

definition sources :: "Job \<Rightarrow> (nat \<Rightarrow> bool) \<Rightarrow> int \<Rightarrow> nat set" where
  "sources J done r = {i. i < length (inputs J) \<and> done i \<and> share J r (pairs_of J i) \<noteq> []}"

definition files_of :: "Job \<Rightarrow> (nat \<Rightarrow> bool) \<Rightarrow> int \<Rightarrow> string list \<Rightarrow> nat list \<Rightarrow> bool" where
  "files_of J done r fs idx \<longleftrightarrow> fs = map (\<lambda>i. iFileName (int i) r) idx \<and> distinct idx \<and> set idx = sources J done r"

definition map_hold :: "Coordinator \<Rightarrow> Task \<Rightarrow> bool" where
  "map_hold c t \<longleftrightarrow> TxnID t < NextTxnID c \<and> map_option txnID (map_of (MTaskProcessingTxn c) (Index t)) = Some (TxnID t)"

definition reduce_hold :: "Coordinator \<Rightarrow> Task \<Rightarrow> bool" where
  "reduce_hold c t \<longleftrightarrow> TxnID t < NextTxnID c \<and> map_option txnID (map_of (RTaskProcessingTxn c) (Index t)) = Some (TxnID t)"

definition written_ok :: "Job \<Rightarrow> (string \<rightharpoonup> KeyValue list) \<Rightarrow> Task \<Rightarrow> KeyValue list \<Rightarrow> string list \<Rightarrow> bool" where
  "written_ok J fs t rest names \<longleftrightarrow> (\<exists>written. pairs_of J (nat (Index t)) = written @ rest \<and> distinct names \<and>
     set names = (\<lambda>kv. iFileName (Index t) (reduce_index (nReduce J) (kv_Key kv))) ` set written \<and>
     (\<forall>r. share J r written \<noteq> [] \<longrightarrow> fs (iFileName (Index t) r) = Some (share J r written)))"

definition reading_ok :: "Job \<Rightarrow> Task \<Rightarrow> string list \<Rightarrow> KeyValue list \<Rightarrow> bool" where
  "reading_ok J t fs acc \<longleftrightarrow> (\<exists>idx k. files_of J (\<lambda>_. True) (Index t) (Filenames t) idx \<and> k \<le> length idx \<and>
     fs = drop k (Filenames t) \<and> acc = concat (map (\<lambda>i. share J (Index t) (pairs_of J i)) (take k idx)))"

definition writing_ok :: "Job \<Rightarrow> (string \<rightharpoonup> string list) \<Rightarrow> Task \<Rightarrow> string list \<Rightarrow> bool" where
  "writing_ok J out t ls \<longleftrightarrow> (\<exists>lines. out (oFileName (Index t)) = Some lines \<and> lines @ ls = out_lines J (Index t))"

definition worker_inv ::
    "Job \<Rightarrow> Coordinator \<Rightarrow> (string \<rightharpoonup> KeyValue list) \<Rightarrow> (string \<rightharpoonup> string list) \<Rightarrow> Worker \<Rightarrow> bool" where
  "worker_inv J c fs out x \<longleftrightarrow>
     (case x of
        MapWriting t rest names \<Rightarrow> map_hold c t \<and> written_ok J fs t rest names
      | ReduceReading t fs' acc \<Rightarrow> reduce_hold c t \<and> reading_ok J t fs' acc
      | ReduceWriting t ls \<Rightarrow> reduce_hold c t \<and> writing_ok J out t ls
      | _ \<Rightarrow> True)"

definition holds :: "Worker \<Rightarrow> Task option" where
  "holds x = (case holds_map x of Some t \<Rightarrow> Some t | None \<Rightarrow> holds_reduce x)"

definition own_txns :: "(nat \<Rightarrow> Worker) \<Rightarrow> bool" where
  "own_txns ws \<longleftrightarrow> (\<forall>w w' t t'. w \<noteq> w' \<longrightarrow> holds (ws w) = Some t \<longrightarrow> holds (ws w') = Some t' \<longrightarrow> TxnID t \<noteq> TxnID t')"

definition files_inv :: "Job \<Rightarrow> MrSys \<Rightarrow> bool" where
  "files_inv J s \<longleftrightarrow> (\<forall>i r. i \<in> sources J (map_done (coord s)) r \<longrightarrow>
     inter s (iFileName (int i) r) = Some (share J r (pairs_of J i)))"

definition reduce_inv :: "Job \<Rightarrow> Coordinator \<Rightarrow> bool" where
  "reduce_inv J c \<longleftrightarrow> fst ` set (ReduceTasks c) \<subseteq> {0..<nReduce J} \<and>
     (\<forall>r. case map_of (ReduceTasks c) r of
        None \<Rightarrow> sources J (map_done c) r = {}
      | Some t \<Rightarrow> sources J (map_done c) r \<noteq> {} \<and> (\<exists>idx. files_of J (map_done c) r (Filenames t) idx))"

definition output_inv :: "Job \<Rightarrow> MrSys \<Rightarrow> bool" where
  "output_inv J s \<longleftrightarrow>
     (\<forall>r \<in> fst ` set (ReduceTasks (coord s)). ReduceTaskStatus (coord s) r = Some COMPLETED \<longrightarrow>
        outf s (oFileName r) = Some (out_lines J r)) \<and>
     (\<forall>f. outf s f \<noteq> None \<longrightarrow> (\<exists>r \<in> fst ` set (ReduceTasks (coord s)). f = oFileName r))"

definition job_inv :: "Job \<Rightarrow> MrSys \<Rightarrow> bool" where
  "job_inv J s \<longleftrightarrow> safe_inv J s \<and> (\<forall>w. worker_inv J (coord s) (inter s) (outf s) (workers s w)) \<and> own_txns (workers s) \<and>
     files_inv J s \<and> reduce_inv J (coord s) \<and> output_inv J s"

lemma job_invD:
  assumes "job_inv J s"
  shows "safe_inv J s" "coord_inv (coord s)" "worker_inv J (coord s) (inter s) (outf s) (workers s w)"
    "own_txns (workers s)" "files_inv J s" "reduce_inv J (coord s)" "output_inv J s"
    "length (MapTasks (coord s)) = length (inputs J)"
  using assms by (simp_all add: job_inv_def safe_inv_def MakeCoordinator_fields)

section \<open>Tasks in progress\<close>

lemma map_hold_status:
  assumes "coord_inv c" "map_hold c t"
  shows "MapTaskStatus c (Index t) = Some INPROGRESS" "Index t \<in> fst ` set (MTaskProcessingTxn c)" "Index t \<notin> set (IdleMapTask c)"
proof -
  from assms(2) obtain tr where "map_of (MTaskProcessingTxn c) (Index t) = Some tr" by (auto simp: map_hold_def)
  from pool_inprogress [OF coord_invD(1) [OF assms(1)] this]
  show "MapTaskStatus c (Index t) = Some INPROGRESS" "Index t \<in> fst ` set (MTaskProcessingTxn c)"
    "Index t \<notin> set (IdleMapTask c)" by blast+
qed

lemma reduce_hold_status:
  assumes "coord_inv c" "reduce_hold c t"
  shows "ReduceTaskStatus c (Index t) = Some INPROGRESS" "Index t \<in> fst ` set (RTaskProcessingTxn c)"
    "Index t \<in> fst ` set (ReduceTasks c)" "Index t \<notin> set (IdleReduceTask c)"
proof -
  from assms(2) obtain tr where "map_of (RTaskProcessingTxn c) (Index t) = Some tr" by (auto simp: reduce_hold_def)
  from pool_inprogress [OF coord_invD(2) [OF assms(1)] this]
  show "ReduceTaskStatus c (Index t) = Some INPROGRESS" "Index t \<in> fst ` set (RTaskProcessingTxn c)"
    "Index t \<in> fst ` set (ReduceTasks c)" "Index t \<notin> set (IdleReduceTask c)" by blast+
qed

text \<open>Once a reduce task is in progress, all map tasks are completed.\<close>

lemma reduce_hold_maps:
  assumes "coord_inv c" "reduce_hold c t"
  shows "MTaskProcessingTxn c = []" "IdleMapTask c = []" "\<not> map_hold c t'"
proof -
  have "RTaskProcessingTxn c \<noteq> []" using reduce_hold_status(2) [OF assms] by auto
  with coord_invD(4) [OF assms(1)] have "int (length (MapTasks c)) \<le> MapTasksCompletedCnt c"
    by (auto simp: reduce_late_def)
  then show m: "MTaskProcessingTxn c = []" "IdleMapTask c = []" using map_done_iff [OF assms(1)] by auto
  show "\<not> map_hold c t'" by (simp add: map_hold_def m)
qed

text \<open>Two workers are never at the same task.\<close>

lemma holders_differ:
  assumes "own_txns ws" "w \<noteq> w'"
  shows "holds_map (ws w) = Some t \<Longrightarrow> holds_map (ws w') = Some t' \<Longrightarrow> map_hold c t \<Longrightarrow> map_hold c t' \<Longrightarrow> Index t \<noteq> Index t'"
    and "holds_reduce (ws w) = Some t \<Longrightarrow> holds_reduce (ws w') = Some t' \<Longrightarrow> reduce_hold c t \<Longrightarrow> reduce_hold c t' \<Longrightarrow> Index t \<noteq> Index t'"
proof -
  have r: "holds_reduce x = Some t \<Longrightarrow> holds x = Some t" for x t by (cases x) (simp_all add: holds_def)
  show "holds_map (ws w) = Some t \<Longrightarrow> holds_map (ws w') = Some t' \<Longrightarrow> map_hold c t \<Longrightarrow> map_hold c t' \<Longrightarrow> Index t \<noteq> Index t'"
    using assms unfolding own_txns_def map_hold_def by (fastforce simp: holds_def)
  show "holds_reduce (ws w) = Some t \<Longrightarrow> holds_reduce (ws w') = Some t' \<Longrightarrow> reduce_hold c t \<Longrightarrow> reduce_hold c t' \<Longrightarrow> Index t \<noteq> Index t'"
    using assms r unfolding own_txns_def reduce_hold_def by fastforce
qed

text \<open>What another worker has to leave alone.\<close>

lemma worker_inv_frame:
  assumes "worker_inv J c fs out x"
    and "\<And>t. holds_map x = Some t \<Longrightarrow> map_hold c t \<Longrightarrow> map_hold c' t \<and> (\<forall>r. fs' (iFileName (Index t) r) = fs (iFileName (Index t) r))"
    and "\<And>t. holds_reduce x = Some t \<Longrightarrow> reduce_hold c t \<Longrightarrow> reduce_hold c' t \<and> out' (oFileName (Index t)) = out (oFileName (Index t))"
  shows "worker_inv J c' fs' out' x"
  using assms by (cases x) (auto simp: worker_inv_def written_ok_def writing_ok_def)

lemma own_txns_keep:
  assumes "own_txns ws" "holds x = None \<or> holds x = holds (ws w)"
  shows "own_txns (ws(w := x))"
  using assms unfolding own_txns_def by (metis fun_upd_apply option.distinct(1))

lemma own_txns_new:
  assumes "own_txns ws" "holds x = Some t" "\<And>w' t'. holds (ws w') = Some t' \<Longrightarrow> TxnID t' \<noteq> TxnID t"
  shows "own_txns (ws(w := x))"
  using assms unfolding own_txns_def by (metis fun_upd_apply option.inject)
lemma reduce_invD:
  assumes "reduce_inv J c"
  shows "map_of (ReduceTasks c) r = None \<Longrightarrow> sources J (map_done c) r = {}"
    and "map_of (ReduceTasks c) r = Some t \<Longrightarrow> sources J (map_done c) r \<noteq> {} \<and> (\<exists>idx. files_of J (map_done c) r (Filenames t) idx)"
    and "r \<in> fst ` set (ReduceTasks c) \<Longrightarrow> 0 \<le> r \<and> r < nReduce J"
proof -
  have r: "case map_of (ReduceTasks c) r of None \<Rightarrow> sources J (map_done c) r = {}
      | Some t \<Rightarrow> sources J (map_done c) r \<noteq> {} \<and> (\<exists>idx. files_of J (map_done c) r (Filenames t) idx)"
    and "fst ` set (ReduceTasks c) \<subseteq> {0..<nReduce J}" using assms by (simp_all add: reduce_inv_def)
  then show "r \<in> fst ` set (ReduceTasks c) \<Longrightarrow> 0 \<le> r \<and> r < nReduce J" by auto
  from r show "map_of (ReduceTasks c) r = None \<Longrightarrow> sources J (map_done c) r = {}"
    "map_of (ReduceTasks c) r = Some t \<Longrightarrow> sources J (map_done c) r \<noteq> {} \<and> (\<exists>idx. files_of J (map_done c) r (Filenames t) idx)"
    by simp_all
qed

lemma results_frame:
  assumes inv: "job_inv J s" and s': "coord s' = c" "inter s' = inter s" "outf s' = outf s"
    and c: "map_done c = map_done (coord s)" "ReduceTasks c = ReduceTasks (coord s)"
    and st: "\<And>r. r \<in> fst ` set (ReduceTasks c) \<Longrightarrow> ReduceTaskStatus c r = Some COMPLETED \<Longrightarrow>
      ReduceTaskStatus (coord s) r = Some COMPLETED"
  shows "files_inv J s'" "reduce_inv J c" "output_inv J s'"
  using job_invD(5,6,7) [OF inv] st unfolding files_inv_def reduce_inv_def output_inv_def s' c by blast+

section \<open>Asking for a task\<close>

lemma ask_map_inv:
  assumes inv: "job_inv J s" and w: "workers s w = Asking AskMap"
    and got: "GetTask now AskMap (coord s) = Inr (Got task c)" and x: "start_task J task = Inr x"
  shows "job_inv J (set_worker w x (s\<lparr>coord := c\<rparr>))"
proof -
  note d = job_invD [OF inv]
  from GetTask_map [OF d(1) got] obtain i where i: "i < length (inputs J)" "int i \<in> set (IdleMapTask (coord s))"
    and task: "task = \<lparr>IsMapTask = True, Filenames = [inputs J ! i], Index = int i, t_NReduce = nReduce J,
      TxnID = NextTxnID (coord s)\<rparr>"
    and c: "c = (coord s)\<lparr>IdleMapTask := tl (IdleMapTask (coord s)),
      MapTaskStatus := (MapTaskStatus (coord s))(int i \<mapsto> INPROGRESS), NextTxnID := NextTxnID (coord s) + 1,
      MTaskProcessingTxn := AList.update (int i) \<lparr>txnID = NextTxnID (coord s), beginTime = now\<rparr>
        (MTaskProcessingTxn (coord s))\<rparr>" by blast
  have xe: "x = MapWriting task (pairs_of J i) []" using x by (simp add: start_task_def task pairs_of_def)
  have hold: "map_hold c t \<and> Index t \<noteq> int i" if "map_hold (coord s) t" for t
    using that map_hold_status(3) [OF d(2) that] i(2) by (auto simp: map_hold_def c update_conv')
  have self: "worker_inv J c (inter s) (outf s) x"
    by (auto simp: worker_inv_def xe map_hold_def written_ok_def task c update_conv' intro: exI [of _ "[]"])
  have other: "worker_inv J c (inter s) (outf s) (workers s w')" for w'
    by (rule worker_inv_frame [OF d(3)]) (use hold in \<open>auto simp: reduce_hold_def c\<close>)
  have "MapTaskStatus (coord s) (int i) \<noteq> Some COMPLETED"
    using pool_completed [OF coord_invD(1) [OF d(2)], of "int i"] i d(8) by simp
  then have "map_done c = map_done (coord s)" by (auto simp: map_done_def c fun_eq_iff)
  then have rest: "files_inv J (set_worker w x (s\<lparr>coord := c\<rparr>))" "reduce_inv J c" "output_inv J (set_worker w x (s\<lparr>coord := c\<rparr>))"
    using results_frame [OF inv, of "set_worker w x (s\<lparr>coord := c\<rparr>)" c] by (simp_all add: c)
  have "own_txns ((workers s)(w := x))"
  proof (rule own_txns_new [OF d(4)])
    show "holds x = Some task" by (simp add: holds_def xe)
    show "TxnID t' \<noteq> TxnID task" if "holds (workers s w') = Some t'" for w' t'
      using that d(3) [of w'] by (cases "workers s w'") (auto simp: worker_inv_def holds_def map_hold_def reduce_hold_def task)
  qed
  moreover obtain x' where "start_task J task = Inr x'" "safe_inv J (set_worker w x' (s\<lparr>coord := c\<rparr>))"
    using safe_start [OF d(1) got, of w] by blast
  ultimately show ?thesis using self other rest x by (auto simp: job_inv_def)
qed

lemma all_maps_done:
  assumes "coord_inv c" "int (length (MapTasks c)) \<le> MapTasksCompletedCnt c" "i < length (MapTasks c)"
  shows "map_done c i"
  using assms map_done_iff [OF assms(1)] pool_completed [OF coord_invD(1) [OF assms(1)], of "int i"]
  by (auto simp: map_done_def)

lemma ask_reduce_inv:
  assumes inv: "job_inv J s" and w: "workers s w = Asking AskReduce"
    and got: "GetTask now AskReduce (coord s) = Inr (Got task c)" and x: "start_task J task = Inr x"
  shows "job_inv J (set_worker w x (s\<lparr>coord := c\<rparr>))"
proof -
  note d = job_invD [OF inv]
  from GetTask_reduce [OF d(2) got] obtain r t where all: "int (length (MapTasks (coord s))) \<le> MapTasksCompletedCnt (coord s)"
    and r: "map_of (ReduceTasks (coord s)) r = Some t" "r \<in> set (IdleReduceTask (coord s))" "Index t = r" "\<not> IsMapTask t"
    and task: "task = t\<lparr>TxnID := NextTxnID (coord s)\<rparr>"
    and c: "c = (coord s)\<lparr>IdleReduceTask := tl (IdleReduceTask (coord s)),
      ReduceTaskStatus := (ReduceTaskStatus (coord s))(r \<mapsto> INPROGRESS), NextTxnID := NextTxnID (coord s) + 1,
      RTaskProcessingTxn := AList.update r \<lparr>txnID = NextTxnID (coord s), beginTime = now\<rparr>
        (RTaskProcessingTxn (coord s))\<rparr>" by blast
  have xe: "x = ReduceReading task (Filenames task) []" using x r by (simp add: start_task_def task)
  have "sources J (map_done (coord s)) r = sources J (\<lambda>_. True) r"
    using all_maps_done [OF d(2) all] d(8) by (auto simp: sources_def)
  then obtain idx where idx: "files_of J (\<lambda>_. True) r (Filenames t) idx"
    using reduce_invD(2) [OF d(6) r(1)] by (auto simp: files_of_def)
  have self: "worker_inv J c (inter s) (outf s) x"
    using idx r(3) by (auto simp: worker_inv_def xe reduce_hold_def reading_ok_def task c update_conv' intro!: exI [of _ idx] exI [of _ 0])
  have hold: "reduce_hold c u" if "reduce_hold (coord s) u" for u
    using that reduce_hold_status(4) [OF d(2) that] r(2) by (auto simp: reduce_hold_def c update_conv')
  have other: "worker_inv J c (inter s) (outf s) (workers s w')" for w'
    by (rule worker_inv_frame [OF d(3)]) (use hold in \<open>auto simp: map_hold_def c\<close>)
  have st: "ReduceTaskStatus (coord s) r' = Some COMPLETED" if "ReduceTaskStatus c r' = Some COMPLETED" for r'
    using that by (auto simp: c split: if_splits)
  have "map_done c = map_done (coord s)" "ReduceTasks c = ReduceTasks (coord s)" by (auto simp: c map_done_def fun_eq_iff)
  note rest = results_frame [OF inv _ _ _ this st, of "set_worker w x (s\<lparr>coord := c\<rparr>)", simplified]
  have "own_txns ((workers s)(w := x))"
  proof (rule own_txns_new [OF d(4)])
    show "holds x = Some task" by (simp add: holds_def xe)
    show "TxnID t' \<noteq> TxnID task" if "holds (workers s w') = Some t'" for w' t'
      using that d(3) [of w'] by (cases "workers s w'") (auto simp: worker_inv_def holds_def map_hold_def reduce_hold_def task)
  qed
  moreover obtain x' where "start_task J task = Inr x'" "safe_inv J (set_worker w x' (s\<lparr>coord := c\<rparr>))"
    using safe_start [OF d(1) got, of w] by blast
  ultimately show ?thesis using self other rest x by (auto simp: job_inv_def)
qed

section \<open>Map tasks\<close>

lemma write_pair_ok:
  assumes w: "written_ok J fs t (kv # rest) names" and p: "write_pair t kv names fs = (names', fs')"
    and t: "t_NReduce t = nReduce J" "0 \<le> Index t"
  shows "written_ok J fs' t rest names'"
proof -
  let ?r = "reduce_index (nReduce J) (kv_Key kv)" and ?name = "\<lambda>r. iFileName (Index t) r"
  from w obtain written where pairs: "pairs_of J (nat (Index t)) = written @ kv # rest" and dist: "distinct names"
    and names: "set names = (\<lambda>kv. ?name (reduce_index (nReduce J) (kv_Key kv))) ` set written"
    and files: "\<forall>r. share J r written \<noteq> [] \<longrightarrow> fs (?name r) = Some (share J r written)" by (auto simp: written_ok_def)
  have inj: "?name r = ?name r' \<longleftrightarrow> r = r'" for r r' using iFileName_inject [OF t(2) t(2)] by simp
  have known: "?name r \<in> set names \<longleftrightarrow> share J r written \<noteq> []" for r
    unfolding names bucket_nonempty by (auto simp: inj)
  have fs': "fs' (?name r) = Some (share J r (written @ [kv]))" if "share J r (written @ [kv]) \<noteq> []" for r
    using p files that known [of ?r] by (auto simp: write_pair_def Let_def t(1) inj split: if_splits)
  have "set names' = (\<lambda>kv. ?name (reduce_index (nReduce J) (kv_Key kv))) ` set (written @ [kv])" "distinct names'"
    using p names dist by (auto simp: write_pair_def Let_def t(1) split: if_splits)
  with pairs fs' show ?thesis by (auto simp: written_ok_def intro!: exI [of _ "written @ [kv]"])
qed

lemma write_pair_frame:
  assumes "write_pair t kv names fs = (names', fs')" "0 \<le> Index t" "0 \<le> i" "i \<noteq> Index t"
  shows "fs' (iFileName i r) = fs (iFileName i r)"
  using assms iFileName_inject [OF assms(3,2)] by (auto simp: write_pair_def Let_def split: if_splits)

lemma worker_range:
  assumes "safe_inv J s" "holds_map (workers s w) = Some t"
  shows "0 \<le> Index t" "Index t < int (length (inputs J))" "t_NReduce t = nReduce J"
  using assms by (cases "workers s w"; auto simp: safe_inv_def names_ok_def)+

lemma write_inv:
  assumes inv: "job_inv J s" and job: "job_ok J" and w: "workers s w = MapWriting t (kv # rest) names"
    and p: "write_pair t kv names (inter s) = (names', fs)"
  shows "job_inv J (set_worker w (MapWriting t rest names') (s\<lparr>inter := fs\<rparr>))" (is "job_inv J ?s")
proof -
  note d = job_invD [OF inv]
  have t: "0 \<le> Index t" "t_NReduce t = nReduce J" using worker_range [OF d(1), of w] w by simp_all
  have hold: "map_hold (coord s) t" "written_ok J (inter s) t (kv # rest) names"
    using d(3) [of w] by (simp_all add: w worker_inv_def)
  have "worker_inv J (coord s) fs (outf s) (MapWriting t rest names')"
    using hold(1) write_pair_ok [OF hold(2) p t(2,1)] by (simp add: worker_inv_def)
  moreover have "worker_inv J (coord s) fs (outf s) (workers s w')" if "w' \<noteq> w" for w'
  proof (rule worker_inv_frame [OF d(3)])
    fix t'
    assume t': "holds_map (workers s w') = Some t'" "map_hold (coord s) t'"
    have "Index t' \<noteq> Index t" using holders_differ(1) [OF d(4) that t'(1) _ t'(2) hold(1)] w by simp
    with write_pair_frame [OF p t(1) worker_range(1) [OF d(1) t'(1)]] t'(2)
    show "map_hold (coord s) t' \<and> (\<forall>r. fs (iFileName (Index t') r) = inter s (iFileName (Index t') r))" by simp
  qed simp
  moreover have "own_txns (workers ?s)"
    using own_txns_keep [OF d(4), of "MapWriting t rest names'" w] by (simp add: w holds_def)
  moreover have "files_inv J ?s"
  proof (unfold files_inv_def, intro allI impI)
    fix i r
    assume i: "i \<in> sources J (map_done (coord ?s)) r"
    then have "int i \<noteq> Index t" using map_hold_status(1) [OF d(2) hold(1)] by (auto simp: sources_def map_done_def)
    with write_pair_frame [OF p t(1), of "int i" r] i d(5)
    show "inter ?s (iFileName (int i) r) = Some (share J r (pairs_of J i))" by (simp add: files_inv_def)
  qed
  moreover have "safe_inv J ?s"
    using write_names_ok [OF _ _ p] d(1) w job by (auto simp: safe_inv_def job_ok_def)
  ultimately show ?thesis using d(6,7) by (simp add: job_inv_def output_inv_def)
qed

text \<open>The files of a report, added to their reduce tasks.\<close>

definition reduce_entry :: "Coordinator \<Rightarrow> int \<Rightarrow> Task" where
  "reduce_entry c r = (case map_of (ReduceTasks c) r of Some t \<Rightarrow> t | None \<Rightarrow> zeroTask\<lparr>Index := r\<rparr>)"

lemma map_entry_lookup: "map_of (AList.map_entry k f xs) r = (if r = k then map_option f (map_of xs k) else map_of xs r)"
  by (induction xs) auto

lemma add_file_lookup:
  "map_of (ReduceTasks (add_file idx f c)) r =
     (if r = idx then Some ((reduce_entry c idx)\<lparr>Filenames := Filenames (reduce_entry c idx) @ [f]\<rparr>)
      else map_of (ReduceTasks c) r)"
  by (auto simp: add_file_def Let_def reduce_entry_def map_entry_lookup update_conv' split: option.splits)

lemma add_file_status:
  "ReduceTaskStatus (add_file idx f c) r = Some COMPLETED \<Longrightarrow> ReduceTaskStatus c r = Some COMPLETED"
  by (auto simp: add_file_def Let_def split: if_splits)

lemma add_files_lookup:
  assumes "0 \<le> i" "distinct rs" "\<forall>r \<in> set rs. 0 \<le> r \<and> r < 2 ^ 63" "add_files (map (iFileName i) rs) c = Inr (ok, c')"
  shows "map_of (ReduceTasks c') r =
      (if r \<in> set rs then Some ((reduce_entry c r)\<lparr>Filenames := Filenames (reduce_entry c r) @ [iFileName i r]\<rparr>)
       else map_of (ReduceTasks c) r)"
    and "ReduceTaskStatus c' r = Some COMPLETED \<Longrightarrow> ReduceTaskStatus c r = Some COMPLETED"
proof -
  have "map_of (ReduceTasks c') r =
      (if r \<in> set rs then Some ((reduce_entry c r)\<lparr>Filenames := Filenames (reduce_entry c r) @ [iFileName i r]\<rparr>)
       else map_of (ReduceTasks c) r) \<and>
    (ReduceTaskStatus c' r = Some COMPLETED \<longrightarrow> ReduceTaskStatus c r = Some COMPLETED)"
    using assms(2-4)
  proof (induction rs arbitrary: c)
    case (Cons r0 rs)
    let ?c = "add_file r0 (iFileName i r0) c"
    have "add_files (map (iFileName i) rs) ?c = Inr (ok, c')"
      using Cons.prems assms(1) by (simp add: file_index_eq)
    with Cons have IH: "map_of (ReduceTasks c') r =
        (if r \<in> set rs then Some ((reduce_entry ?c r)\<lparr>Filenames := Filenames (reduce_entry ?c r) @ [iFileName i r]\<rparr>)
         else map_of (ReduceTasks ?c) r)"
      "ReduceTaskStatus c' r = Some COMPLETED \<longrightarrow> ReduceTaskStatus ?c r = Some COMPLETED" by simp_all
    have "reduce_entry ?c r = reduce_entry c r" if "r \<in> set rs"
      using that Cons.prems(1) by (auto simp: reduce_entry_def [of _ r] add_file_lookup)
    with IH Cons.prems(1) add_file_status show ?case by (auto simp: add_file_lookup)
  qed simp
  then show "map_of (ReduceTasks c') r =
      (if r \<in> set rs then Some ((reduce_entry c r)\<lparr>Filenames := Filenames (reduce_entry c r) @ [iFileName i r]\<rparr>)
       else map_of (ReduceTasks c) r)"
    "ReduceTaskStatus c' r = Some COMPLETED \<Longrightarrow> ReduceTaskStatus c r = Some COMPLETED" by blast+
qed

text \<open>When a map task has written all its pairs, its files are those of the reduce tasks it has pairs for.\<close>

lemma written_all:
  assumes "written_ok J fs t [] names" "0 \<le> Index t" "job_ok J"
  shows "\<exists>rs. names = map (iFileName (Index t)) rs \<and> distinct rs \<and> (\<forall>r \<in> set rs. 0 \<le> r \<and> r < nReduce J) \<and>
      set rs = {r. share J r (pairs_of J (nat (Index t))) \<noteq> []}"
    and "share J r (pairs_of J (nat (Index t))) \<noteq> [] \<Longrightarrow>
      fs (iFileName (Index t) r) = Some (share J r (pairs_of J (nat (Index t))))"
proof -
  let ?kvs = "pairs_of J (nat (Index t))"
  have dist: "distinct names" and names: "set names = (\<lambda>kv. iFileName (Index t) (reduce_index (nReduce J) (kv_Key kv))) ` set ?kvs"
    and files: "share J r ?kvs \<noteq> [] \<Longrightarrow> fs (iFileName (Index t) r) = Some (share J r ?kvs)" for r
    using assms(1) by (auto simp: written_ok_def)
  then show "share J r ?kvs \<noteq> [] \<Longrightarrow> fs (iFileName (Index t) r) = Some (share J r ?kvs)" by blast
  have "\<forall>f \<in> set names. \<exists>r. f = iFileName (Index t) r" unfolding names by blast
  then obtain rs where rs: "names = map (iFileName (Index t)) rs" unfolding ex_map_conv [symmetric] by blast
  have inj: "iFileName (Index t) r = iFileName (Index t) r' \<longleftrightarrow> r = r'" for r r'
    using iFileName_inject [OF assms(2) assms(2)] by simp
  have "r \<in> set rs \<longleftrightarrow> iFileName (Index t) r \<in> set names" for r unfolding rs by (simp add: inj image_iff)
  also have "iFileName (Index t) r \<in> set names \<longleftrightarrow> share J r ?kvs \<noteq> []" for r
    unfolding names bucket_nonempty by (simp add: inj image_iff)
  finally have "set rs = {r. share J r ?kvs \<noteq> []}" by blast
  moreover have "distinct rs" using dist rs by (simp add: distinct_map)
  moreover have "0 \<le> r \<and> r < nReduce J" if "share J r ?kvs \<noteq> []" for r
    using that reduce_index_range [of "nReduce J"] assms(3) unfolding bucket_nonempty job_ok_def by blast
  ultimately show "\<exists>rs. names = map (iFileName (Index t)) rs \<and> distinct rs \<and> (\<forall>r \<in> set rs. 0 \<le> r \<and> r < nReduce J) \<and>
      set rs = {r. share J r ?kvs \<noteq> []}" using rs by blast
qed

lemma sources_complete:
  assumes "\<not> done i" "i < length (inputs J)"
  shows "sources J (\<lambda>j. done j \<or> j = i) r = (if share J r (pairs_of J i) \<noteq> [] then insert i (sources J done r) else sources J done r)"
    and "i \<notin> sources J done r"
  using assms by (auto simp: sources_def)

lemma report_reduce_inv:
  assumes inv: "reduce_inv J c" and i: "i < length (inputs J)" "\<not> map_done c i"
    and rs: "distinct rs" "\<forall>r \<in> set rs. 0 \<le> r \<and> r < nReduce J" "set rs = {r. share J r (pairs_of J i) \<noteq> []}"
    and look: "\<And>r. map_of (ReduceTasks c') r =
      (if r \<in> set rs then Some ((reduce_entry c r)\<lparr>Filenames := Filenames (reduce_entry c r) @ [iFileName (int i) r]\<rparr>)
       else map_of (ReduceTasks c) r)"
    and md: "map_done c' = (\<lambda>j. map_done c j \<or> j = i)"
  shows "reduce_inv J c'"
proof -
  note src = sources_complete [of "map_done c" i J, OF i(2,1)]
  have keys: "fst ` set (ReduceTasks c') = fst ` set (ReduceTasks c) \<union> set rs"
    unfolding dom_map_of_conv_image_fst [symmetric] by (auto simp: look split: if_splits)
  have "case map_of (ReduceTasks c') r of None \<Rightarrow> sources J (map_done c') r = {}
    | Some t \<Rightarrow> sources J (map_done c') r \<noteq> {} \<and> (\<exists>idx. files_of J (map_done c') r (Filenames t) idx)" for r
  proof (cases "r \<in> set rs")
    case True
    then have s': "sources J (map_done c') r = insert i (sources J (map_done c) r)" using src(1) [of r] rs(3) md by simp
    obtain idx where idx: "files_of J (map_done c) r (Filenames (reduce_entry c r)) idx"
    proof (cases "map_of (ReduceTasks c) r")
      case None
      with reduce_invD(1) [OF inv] show ?thesis
        by (intro that [of "[]"]) (simp add: files_of_def reduce_entry_def zeroTask_def)
    next
      case (Some t)
      with reduce_invD(2) [OF inv Some] show ?thesis by (auto intro: that simp: reduce_entry_def)
    qed
    then have "files_of J (map_done c') r (Filenames (reduce_entry c r) @ [iFileName (int i) r]) (idx @ [i])"
      using src(2) [of r] by (auto simp: files_of_def s')
    with True s' show ?thesis by (auto simp: look)
  next
    case False
    then have s': "sources J (map_done c') r = sources J (map_done c) r" using src(1) [of r] rs(3) md by auto
    then have "files_of J (map_done c') r = files_of J (map_done c) r" by (simp add: files_of_def fun_eq_iff)
    with False s' reduce_invD(1,2) [OF inv, of r] show ?thesis by (cases "map_of (ReduceTasks c) r") (simp_all add: look)
  qed
  moreover have "fst ` set (ReduceTasks c') \<subseteq> {0..<nReduce J}" unfolding keys using inv rs(2) by (auto simp: reduce_inv_def)
  ultimately show ?thesis by (simp add: reduce_inv_def)
qed

lemma report_map_inv:
  assumes inv: "job_inv J s" and job: "job_ok J" and w: "workers s w = MapWriting t [] names"
    and run: "MapTaskDone \<lparr>rp_Index = Index t, rp_TxnID = TxnID t, rp_Filenames = names\<rparr> (coord s) = Inr (e, c, bs)"
  shows "job_inv J (set_worker w (if e = None then Asking AskMap else Gone) (s\<lparr>coord := c\<rparr>))"
proof -
  note d = job_invD [OF inv]
  define i where "i = nat (Index t)"
  have i: "Index t = int i" "i < length (inputs J)" using worker_range [OF d(1), of w t] w by (simp_all add: i_def)
  have hold: "map_hold (coord s) t" "written_ok J (inter s) t [] names" using d(3) [of w] by (simp_all add: w worker_inv_def)
  obtain rs where rs: "names = map (iFileName (int i)) rs" "distinct rs" "\<forall>r \<in> set rs. 0 \<le> r \<and> r < nReduce J"
    "set rs = {r. share J r (pairs_of J i) \<noteq> []}" using written_all(1) [OF hold(2) _ job] i by auto
  have "\<forall>f \<in> set names. \<exists>r. 0 \<le> r \<and> r < nReduce J \<and> f = iFileName (int i) r" using rs(1,3) by auto
  then obtain c1 where add: "add_files names (coord s) = Inr (True, c1)"
    using add_files_runs [of "int i" "nReduce J" names "coord s"] job by (auto simp: job_ok_def)
  have e: "e = None" using run hold(1) add by (auto simp: MapTaskDone_def Let_def map_hold_def)
  from run have "MapTaskDone \<lparr>rp_Index = Index t, rp_TxnID = TxnID t, rp_Filenames = names\<rparr> (coord s) = Inr (None, c, bs)"
    by (simp add: e)
  from MapTaskDone_accepted [OF this] add have c: "c = c1\<lparr>MapTaskStatus := (MapTaskStatus c1)(int i \<mapsto> COMPLETED),
      MapTasksCompletedCnt := MapTasksCompletedCnt c1 + 1, MTaskProcessingTxn := AList.delete (int i) (MTaskProcessingTxn c1)\<rparr>"
    by (auto simp: i(1))
  have same: "same_maps (coord s) c1" using add_files_inv [OF d(2) add] by simp
  note look = add_files_lookup [of "int i" rs "coord s" True c1]
  have bounds: "\<forall>r \<in> set rs. 0 \<le> r \<and> r < 2 ^ 63" using rs(3) job by (auto simp: job_ok_def)
  have md: "map_done c = (\<lambda>j. map_done (coord s) j \<or> j = i)"
    using same by (auto simp: map_done_def c same_maps_def fun_eq_iff)
  have nd: "\<not> map_done (coord s) i" using map_hold_status(1) [OF d(2) hold(1)] by (simp add: map_done_def i)
  have add': "add_files (map (iFileName (int i)) rs) (coord s) = Inr (True, c1)" using add rs(1) by simp
  have red: "reduce_inv J c"
    by (rule report_reduce_inv [OF d(6) i(2) nd rs(2,3,4) _ md]) (simp add: c look(1) [OF _ rs(2) bounds add'])
  have workers: "worker_inv J c (inter s) (outf s) (workers s w')" if "w' \<noteq> w" for w'
  proof (rule worker_inv_frame [OF d(3)])
    fix t'
    assume t': "holds_map (workers s w') = Some t'" "map_hold (coord s) t'"
    have "Index t' \<noteq> int i" using holders_differ(1) [OF d(4) that t'(1) _ t'(2) hold(1)] w i by simp
    with t'(2) same show "map_hold c t' \<and> (\<forall>r. inter s (iFileName (Index t') r) = inter s (iFileName (Index t') r))"
      by (simp add: map_hold_def c same_maps_def delete_conv')
  qed (use same in \<open>auto simp: reduce_hold_def c same_maps_def\<close>)
  have files: "inter s (iFileName (int j) r) = Some (share J r (pairs_of J j))" if "j \<in> sources J (map_done c) r" for j r
    using that d(5) written_all(2) [OF hold(2) _ job, of r] i nd md
    by (cases "j = i") (auto simp: files_inv_def sources_def)
  have keys: "fst ` set (ReduceTasks (coord s)) \<subseteq> fst ` set (ReduceTasks c)"
    unfolding dom_map_of_conv_image_fst [symmetric] by (auto simp: c look(1) [OF _ rs(2) bounds add'])
  have "ReduceTasksCompletedCnt c1 = 0"
    using coord_invD(4) [of c1] add_files_inv [OF d(2) add] map_hold_status(2) [OF d(2) hold(1)] map_done_iff [OF d(2)]
    by (auto simp: reduce_late_def same_maps_def)
  then have "ReduceTaskStatus c1 r \<noteq> Some COMPLETED" if "r \<in> fst ` set (ReduceTasks c1)" for r
    using pool_none_done [OF coord_invD(2) that] add_files_inv [OF d(2) add] by blast
  then have none: "ReduceTaskStatus c r \<noteq> Some COMPLETED" if "r \<in> fst ` set (ReduceTasks c)" for r using that by (simp add: c)
  have out: "output_inv J (set_worker w x (s\<lparr>coord := c\<rparr>))" for x
  proof -
    have "\<exists>r \<in> fst ` set (ReduceTasks c). f = oFileName r" if "outf s f \<noteq> None" for f
    proof -
      from d(7) that have "\<exists>r \<in> fst ` set (ReduceTasks (coord s)). f = oFileName r" unfolding output_inv_def by simp
      then show ?thesis using keys by (meson subsetD)
    qed
    with none show ?thesis by (simp add: output_inv_def)
  qed
  have "own_txns ((workers s)(w := Asking AskMap))" by (rule own_txns_keep [OF d(4)]) (simp add: holds_def)
  moreover have "safe_inv J (set_worker w (Asking AskMap) (s\<lparr>coord := c\<rparr>))"
    using safe_report [OF d(1) job w] run d(1) by (auto simp: safe_inv_def)
  ultimately show ?thesis using workers files red out
    by (auto simp: job_inv_def e files_inv_def worker_inv_def)
qed

section \<open>Reduce tasks\<close>

text \<open>A worker that reads, writes output or ends changes nothing that others rely on.\<close>

lemma worker_step_inv:
  assumes inv: "job_inv J s" and x: "worker_inv J (coord s) (inter s) out x" "holds_map x = None"
    and h: "holds x = None \<or> holds x = holds (workers s w)"
    and out: "\<And>w' t'. w' \<noteq> w \<Longrightarrow> holds_reduce (workers s w') = Some t' \<Longrightarrow> reduce_hold (coord s) t' \<Longrightarrow>
      out (oFileName (Index t')) = outf s (oFileName (Index t'))"
    and fin: "output_inv J (s\<lparr>outf := out\<rparr>)"
  shows "job_inv J (set_worker w x (s\<lparr>outf := out\<rparr>))"
proof -
  note d = job_invD [OF inv]
  have "worker_inv J (coord s) (inter s) out (workers s w')" if "w' \<noteq> w" for w'
    by (rule worker_inv_frame [OF d(3)]) (use out [OF that] in auto)
  moreover have "own_txns ((workers s)(w := x))" by (rule own_txns_keep [OF d(4) h])
  moreover have "safe_inv J (set_worker w x (s\<lparr>outf := out\<rparr>))"
    using d(1) x(2) by (auto simp: safe_inv_def)
  ultimately show ?thesis using d(5,6) x(1) fin by (simp add: job_inv_def files_inv_def output_inv_def)
qed

lemma quiet_step_inv:
  assumes inv: "job_inv J s" and "worker_inv J (coord s) (inter s) (outf s) x" "holds_map x = None"
    and "holds x = None \<or> holds x = holds (workers s w)"
  shows "job_inv J (set_worker w x s)"
  using worker_step_inv [OF inv, of "outf s" x w] assms job_invD(7) [OF inv] by simp

lemma read_inv:
  assumes inv: "job_inv J s" and w: "workers s w = ReduceReading t (f # fs) acc"
  shows "\<exists>kvs. inter s f = Some kvs \<and> job_inv J (set_worker w (ReduceReading t fs (acc @ kvs)) s)"
proof -
  note d = job_invD [OF inv]
  have hold: "reduce_hold (coord s) t" "reading_ok J t (f # fs) acc" using d(3) [of w] by (simp_all add: w worker_inv_def)
  from hold(2) obtain idx k where idx: "files_of J (\<lambda>_. True) (Index t) (Filenames t) idx" "k \<le> length idx"
    "f # fs = drop k (Filenames t)" "acc = concat (map (\<lambda>i. share J (Index t) (pairs_of J i)) (take k idx))"
    by (auto simp: reading_ok_def)
  have fn: "Filenames t = map (\<lambda>i. iFileName (int i) (Index t)) idx" using idx(1) by (simp add: files_of_def)
  have k: "k < length idx" using arg_cong [OF idx(3), of length] fn by simp
  have "drop k (Filenames t) = Filenames t ! k # drop (Suc k) (Filenames t)"
    using k fn by (intro Cons_nth_drop_Suc [symmetric]) simp
  then have f: "f = iFileName (int (idx ! k)) (Index t)" "fs = drop (Suc k) (Filenames t)" using idx(3) k by (simp_all add: fn)
  have "idx ! k \<in> sources J (\<lambda>_. True) (Index t)" using nth_mem [OF k] idx(1) unfolding files_of_def by blast
  moreover have "map_done (coord s) i" if "i < length (inputs J)" for i
    using that reduce_hold_maps(1,2) [OF d(2) hold(1)] pool_completed [OF coord_invD(1) [OF d(2)], of "int i"] d(8)
    by (simp add: map_done_def)
  ultimately have "idx ! k \<in> sources J (map_done (coord s)) (Index t)" by (auto simp: sources_def)
  then have kvs: "inter s f = Some (share J (Index t) (pairs_of J (idx ! k)))" using d(5) f by (simp add: files_inv_def)
  have "reading_ok J t fs (acc @ share J (Index t) (pairs_of J (idx ! k)))"
    unfolding reading_ok_def using idx f k by (intro exI [of _ idx] exI [of _ "Suc k"]) (simp add: take_Suc_conv_app_nth)
  then have "job_inv J (set_worker w (ReduceReading t fs (acc @ share J (Index t) (pairs_of J (idx ! k)))) s)"
    using hold by (intro quiet_step_inv [OF inv]) (simp_all add: worker_inv_def holds_def w)
  with kvs show ?thesis by blast
qed

lemma output_invD:
  assumes "output_inv J s"
  shows "r \<in> fst ` set (ReduceTasks (coord s)) \<Longrightarrow> ReduceTaskStatus (coord s) r = Some COMPLETED \<Longrightarrow>
      outf s (oFileName r) = Some (out_lines J r)"
    and "outf s f \<noteq> None \<Longrightarrow> \<exists>r \<in> fst ` set (ReduceTasks (coord s)). f = oFileName r"
  using assms unfolding output_inv_def by blast+

lemma output_update:
  assumes inv: "job_inv J s" and hold: "reduce_hold (coord s) t"
  shows "output_inv J (s\<lparr>outf := (outf s)(oFileName (Index t) := lines)\<rparr>)"
proof -
  note st = reduce_hold_status [OF job_invD(2) [OF inv] hold]
  have "\<exists>r \<in> fst ` set (ReduceTasks (coord s)). f = oFileName r" if "((outf s)(oFileName (Index t) := lines)) f \<noteq> None" for f
  proof (cases "f = oFileName (Index t)")
    case True
    with st(3) show ?thesis by blast
  next
    case False
    with that output_invD(2) [OF job_invD(7) [OF inv]] show ?thesis by simp
  qed
  moreover have "((outf s)(oFileName (Index t) := lines)) (oFileName r) = Some (out_lines J r)"
    if "r \<in> fst ` set (ReduceTasks (coord s))" "ReduceTaskStatus (coord s) r = Some COMPLETED" for r
  proof -
    have "r \<noteq> Index t" using that(2) st(1) by auto
    with output_invD(1) [OF job_invD(7) [OF inv] that] show ?thesis by simp
  qed
  ultimately show ?thesis unfolding output_inv_def by simp
qed

lemma output_others:
  assumes inv: "job_inv J s" and w: "holds_reduce (workers s w) = Some t" and hold: "reduce_hold (coord s) t"
    and w': "w' \<noteq> w" "holds_reduce (workers s w') = Some t'" "reduce_hold (coord s) t'"
  shows "((outf s)(oFileName (Index t) := lines)) (oFileName (Index t')) = outf s (oFileName (Index t'))"
  using holders_differ(2) [OF job_invD(4) [OF inv] w'(1) w'(2) w w'(3) hold] by simp

lemma open_inv:
  assumes inv: "job_inv J s" and job: "job_ok J" and w: "workers s w = ReduceReading t [] acc"
  shows "job_inv J (set_worker w (ReduceWriting t (map out_line (reduce_loop (reducef J) (sortf J acc) 0)))
    (s\<lparr>outf := (outf s)(oFileName (Index t) \<mapsto> [])\<rparr>))"
proof -
  have hold: "reduce_hold (coord s) t" "reading_ok J t [] acc" using job_invD(3) [OF inv, of w] by (simp_all add: w worker_inv_def)
  from hold(2) obtain idx k where idx: "files_of J (\<lambda>_. True) (Index t) (Filenames t) idx" "k \<le> length idx"
    "[] = drop k (Filenames t)" "acc = concat (map (\<lambda>i. share J (Index t) (pairs_of J i)) (take k idx))"
    by (auto simp: reading_ok_def)
  have "length (Filenames t) = length idx" using idx(1) by (simp add: files_of_def)
  with idx(2,3) have "k = length idx" by (metis drop_eq_Nil le_antisym)
  with idx have "mset acc = mset (share J (Index t) (all_pairs J))"
    using share_concat [of idx J "Index t"] by (simp add: files_of_def sources_def)
  from reduce_lines [OF job this] have l: "map out_line (reduce_loop (reducef J) (sortf J acc) 0) = out_lines J (Index t)" .
  show ?thesis unfolding l
  proof (rule worker_step_inv [OF inv])
    show "worker_inv J (coord s) (inter s) ((outf s)(oFileName (Index t) \<mapsto> [])) (ReduceWriting t (out_lines J (Index t)))"
      using hold(1) by (simp add: worker_inv_def writing_ok_def)
    show "output_inv J (s\<lparr>outf := (outf s)(oFileName (Index t) \<mapsto> [])\<rparr>)" by (rule output_update [OF inv hold(1)])
    show "((outf s)(oFileName (Index t) \<mapsto> [])) (oFileName (Index t')) = outf s (oFileName (Index t'))"
      if "w' \<noteq> w" "holds_reduce (workers s w') = Some t'" "reduce_hold (coord s) t'" for w' t'
      by (rule output_others [OF inv _ hold(1) that]) (simp add: w)
  qed (simp_all add: holds_def w)
qed

lemma line_inv:
  assumes inv: "job_inv J s" and w: "workers s w = ReduceWriting t (l # ls)"
  shows "job_inv J (set_worker w (ReduceWriting t ls)
    (s\<lparr>outf := (outf s)(oFileName (Index t) := map_option (\<lambda>c. c @ [l]) (outf s (oFileName (Index t))))\<rparr>))"
proof -
  have hold: "reduce_hold (coord s) t" "writing_ok J (outf s) t (l # ls)" using job_invD(3) [OF inv, of w]
    by (simp_all add: w worker_inv_def)
  let ?out = "(outf s)(oFileName (Index t) := map_option (\<lambda>c. c @ [l]) (outf s (oFileName (Index t))))"
  show ?thesis
  proof (rule worker_step_inv [OF inv])
    show "worker_inv J (coord s) (inter s) ?out (ReduceWriting t ls)"
      using hold by (auto simp: worker_inv_def writing_ok_def)
    show "output_inv J (s\<lparr>outf := ?out\<rparr>)" by (rule output_update [OF inv hold(1)])
    show "?out (oFileName (Index t')) = outf s (oFileName (Index t'))"
      if "w' \<noteq> w" "holds_reduce (workers s w') = Some t'" "reduce_hold (coord s) t'" for w' t'
      by (rule output_others [OF inv _ hold(1) that]) (simp add: w)
  qed (simp_all add: holds_def w)
qed

lemma report_reduce:
  assumes inv: "job_inv J s" and w: "workers s w = ReduceWriting t []"
    and run: "ReduceTaskDone \<lparr>rp_Index = Index t, rp_TxnID = TxnID t, rp_Filenames = []\<rparr> (coord s) = (e, c, bs)"
  shows "job_inv J (set_worker w (if e = None then Asking AskMap else Gone) (s\<lparr>coord := c\<rparr>))"
proof -
  note d = job_invD [OF inv]
  have hold: "reduce_hold (coord s) t" "writing_ok J (outf s) t []" using d(3) [of w] by (simp_all add: w worker_inv_def)
  have lines: "outf s (oFileName (Index t)) = Some (out_lines J (Index t))" using hold(2) by (auto simp: writing_ok_def)
  have e: "e = None" and c: "c = (coord s)\<lparr>ReduceTaskStatus := (ReduceTaskStatus (coord s))(Index t \<mapsto> COMPLETED),
      ReduceTasksCompletedCnt := ReduceTasksCompletedCnt (coord s) + 1,
      RTaskProcessingTxn := AList.delete (Index t) (RTaskProcessingTxn (coord s))\<rparr>"
    using run hold(1) by (auto simp: ReduceTaskDone_def Let_def reduce_hold_def)
  have workers: "worker_inv J c (inter s) (outf s) (workers s w')" if "w' \<noteq> w" for w'
  proof (rule worker_inv_frame [OF d(3)])
    fix t'
    assume t': "holds_reduce (workers s w') = Some t'" "reduce_hold (coord s) t'"
    have "Index t' \<noteq> Index t" using holders_differ(2) [OF d(4) that t'(1) _ t'(2) hold(1)] w by simp
    with t'(2) show "reduce_hold c t' \<and> outf s (oFileName (Index t')) = outf s (oFileName (Index t'))"
      by (simp add: reduce_hold_def c delete_conv')
  qed (auto simp: map_hold_def c)
  have md: "map_done c = map_done (coord s)" by (simp add: map_done_def c fun_eq_iff)
  have red: "reduce_inv J c" using d(6) unfolding reduce_inv_def md by (simp add: c)
  have "outf s (oFileName r) = Some (out_lines J r)"
    if "r \<in> fst ` set (ReduceTasks c)" "ReduceTaskStatus c r = Some COMPLETED" for r
    using that lines output_invD(1) [OF d(7), of r] by (auto simp: c split: if_splits)
  then have out: "output_inv J (set_worker w (Asking AskMap) (s\<lparr>coord := c\<rparr>))"
    using output_invD(2) [OF d(7)] unfolding output_inv_def by (simp add: c)
  have "own_txns ((workers s)(w := Asking AskMap))" by (rule own_txns_keep [OF d(4)]) (simp add: holds_def)
  moreover have "safe_inv J (set_worker w (Asking AskMap) (s\<lparr>coord := c\<rparr>))"
    using d(1) ReduceTaskDone_inv [OF d(2) run] by (simp add: safe_inv_def c)
  ultimately show ?thesis using workers red out d(5) by (auto simp: job_inv_def e files_inv_def worker_inv_def md)
qed

section \<open>Inspections\<close>

lemma expire_map_status:
  "MapTaskStatus (fold expire_map idx c) i = (if i \<in> set idx then Some IDLE else MapTaskStatus c i)"
  by (induction idx arbitrary: c) (auto simp: expire_map_def)

lemma expire_reduce_status:
  "ReduceTaskStatus (fold expire_reduce idx c) i = (if i \<in> set idx then Some IDLE else ReduceTaskStatus c i)"
  by (induction idx arbitrary: c) (auto simp: expire_reduce_def)

lemma map_of_filter_keys: "map_of (filter (\<lambda>p. fst p \<notin> A) xs) i = (if i \<in> A then None else map_of xs i)"
  by (induction xs) auto

lemma inspect_map_inv:
  assumes inv: "job_inv J s" and rng: "visits rng" and time: "timely (InspectMaps rng now) s"
  shows "job_inv J (s\<lparr>coord := fst (InspectMapTasks rng now (coord s))\<rparr>)"
proof -
  note d = job_invD [OF inv]
  define idx where "idx = expired rng now (MTaskProcessingTxn (coord s))"
  define c where "c = fold expire_map idx (coord s)"
  have c': "fst (InspectMapTasks rng now (coord s)) = c" by (simp add: InspectMapTasks_def Let_def c_def idx_def)
  have ci: "coord_inv c" using InspectMapTasks_inv [OF d(2) rng, of now c] c' by (simp add: prod_eq_iff)
  have "distinct (map fst (MTaskProcessingTxn (coord s)))" using coord_invD(1) [OF d(2)] by (simp add: pool_ok_def)
  from expired_keys(2) [OF rng this, of now] have keys: "set idx \<subseteq> fst ` set (MTaskProcessingTxn (coord s))"
    by (simp add: idx_def)
  have txns: "map_of (MTaskProcessingTxn c) i = (if i \<in> set idx then None else map_of (MTaskProcessingTxn (coord s)) i)" for i
    unfolding c_def maps.expire_txns by (rule map_of_filter_keys)
  have hold: "map_hold c t" if "map_hold (coord s) t" "Index t \<notin> set idx" for t
    using that by (simp add: map_hold_def txns) (simp add: c_def expire_map_fields)
  have workers: "worker_inv J c (inter s) (outf s) (workers s w)" for w
    by (rule worker_inv_frame [OF d(3)]) (use hold time in \<open>auto simp: idx_def reduce_hold_def c_def expire_map_fields\<close>)
  have md: "map_done c = map_done (coord s)"
  proof
    fix i
    have "MapTaskStatus c (int i) = (if int i \<in> set idx then Some IDLE else MapTaskStatus (coord s) (int i))"
      unfolding c_def by (rule expire_map_status)
    moreover have "MapTaskStatus (coord s) (int i) = Some INPROGRESS" if "int i \<in> set idx"
    proof -
      from keys that obtain tr where "map_of (MTaskProcessingTxn (coord s)) (int i) = Some tr"
        by (metis domD dom_map_of_conv_image_fst subsetD)
      from pool_inprogress(2) [OF coord_invD(1) [OF d(2)] this] show ?thesis .
    qed
    ultimately show "map_done c i = map_done (coord s) i" by (simp add: map_done_def)
  qed
  have fields: "ReduceTasks c = ReduceTasks (coord s)" "ReduceTaskStatus c = ReduceTaskStatus (coord s)"
    "MapTasks c = MapTasks (coord s)" by (simp_all add: c_def expire_map_fields)
  note rest = results_frame [OF inv, of "s\<lparr>coord := c\<rparr>" c, OF _ _ _ md fields(1), simplified fields, simplified]
  have "safe_inv J (s\<lparr>coord := c\<rparr>)" using d(1) ci by (simp add: safe_inv_def fields)
  then show ?thesis unfolding c' using workers rest d(4) by (simp add: job_inv_def)
qed

lemma inspect_reduce_inv:
  assumes inv: "job_inv J s" and rng: "visits rng" and time: "timely (InspectReduces rng now) s"
  shows "job_inv J (s\<lparr>coord := fst (InspectReduceTasks rng now (coord s))\<rparr>)"
proof -
  note d = job_invD [OF inv]
  define idx where "idx = expired rng now (RTaskProcessingTxn (coord s))"
  define c where "c = fold expire_reduce idx (coord s)"
  have c': "fst (InspectReduceTasks rng now (coord s)) = c" by (simp add: InspectReduceTasks_def Let_def c_def idx_def)
  have ci: "coord_inv c" using InspectReduceTasks_inv [OF d(2) rng, of now c] c' by (simp add: prod_eq_iff)
  have txns: "map_of (RTaskProcessingTxn c) i = (if i \<in> set idx then None else map_of (RTaskProcessingTxn (coord s)) i)" for i
    unfolding c_def reduces.expire_txns by (rule map_of_filter_keys)
  have hold: "reduce_hold c t" if "reduce_hold (coord s) t" "Index t \<notin> set idx" for t
    using that by (simp add: reduce_hold_def txns) (simp add: c_def expire_reduce_fields)
  have workers: "worker_inv J c (inter s) (outf s) (workers s w)" for w
    by (rule worker_inv_frame [OF d(3)]) (use hold time in \<open>auto simp: idx_def map_hold_def c_def expire_reduce_fields\<close>)
  have md: "map_done c = map_done (coord s)" by (simp add: map_done_def c_def expire_reduce_fields fun_eq_iff)
  have fields: "ReduceTasks c = ReduceTasks (coord s)" "MapTasks c = MapTasks (coord s)"
    by (simp_all add: c_def expire_reduce_fields)
  have st: "ReduceTaskStatus (coord s) r = Some COMPLETED" if "ReduceTaskStatus c r = Some COMPLETED" for r
    using that expire_reduce_status [of idx "coord s" r] by (simp add: c_def split: if_splits)
  note rest = results_frame [OF inv, of "s\<lparr>coord := c\<rparr>" c, OF _ _ _ md fields(1) st, simplified]
  have "safe_inv J (s\<lparr>coord := c\<rparr>)" using d(1) ci by (simp add: safe_inv_def fields)
  then show ?thesis unfolding c' using workers rest d(4) by (simp add: job_inv_def)
qed

section \<open>Runs\<close>

lemma job_init: "job_inv J (mr_init J)"
proof -
  have "reduce_inv J (MakeCoordinator (inputs J) (nReduce J))"
    by (auto simp: reduce_inv_def sources_def map_done_def MakeCoordinator_fields)
  then show ?thesis
    using safe_init [of J]
    by (simp add: job_inv_def mr_init_def worker_inv_def own_txns_def holds_def files_inv_def output_inv_def sources_def
        map_done_def MakeCoordinator_fields)
qed

lemma ask_inv:
  assumes inv: "job_inv J s" and step: "mr_step J (Ask w now) s = Some (Inr s')"
  shows "job_inv J s'"
proof -
  from step obtain stg where w: "workers s w = Asking stg" by (auto split: Worker.splits)
  from GetTask_inv [OF job_invD(2) [OF inv], of now stg] obtain r where r: "GetTask now stg (coord s) = Inr r" by blast
  have quiet: "job_inv J (set_worker w x s)" if "holds x = None" for x
    using that by (intro quiet_step_inv [OF inv]) (cases x; simp add: worker_inv_def holds_def)+
  show ?thesis
  proof (cases r)
    case (Got task c)
    with step w r obtain x where x: "start_task J task = Inr x" "s' = set_worker w x (s\<lparr>coord := c\<rparr>)"
      by (auto simp: go_bind_eq_Inr)
    with ask_map_inv [OF inv] ask_reduce_inv [OF inv] w r Got show ?thesis by (cases stg) auto
  qed (use step w r quiet in \<open>auto simp: holds_def\<close>)
qed

lemma job_step_inv:
  assumes inv: "job_inv J s" and job: "job_ok J" and rng: "move_visits m" and time: "timely m s"
    and step: "mr_step J m s = Some (Inr s')"
  shows "job_inv J s'"
proof (cases m)
  case (Ask w now)
  with ask_inv [OF inv] step show ?thesis by simp
next
  case (WritePair w)
  with step obtain t kv rest names where w: "workers s w = MapWriting t (kv # rest) names"
    by (auto split: Worker.splits list.splits)
  obtain names' fs where p: "write_pair t kv names (inter s) = (names', fs)" by fastforce
  from write_inv [OF inv job w p] WritePair step w p show ?thesis by (simp split: if_splits)
next
  case (ReportMap w)
  with step obtain t names where w: "workers s w = MapWriting t [] names" by (auto split: Worker.splits list.splits)
  from report_map_inv [OF inv job w] ReportMap step w show ?thesis by (auto simp: go_bind_eq_Inr)
next
  case (ReadFile w)
  with step obtain t f fs acc where w: "workers s w = ReduceReading t (f # fs) acc"
    by (auto split: Worker.splits list.splits)
  from read_inv [OF inv w] ReadFile step w show ?thesis by auto
next
  case (OpenOutput w)
  with step obtain t acc where w: "workers s w = ReduceReading t [] acc" by (auto split: Worker.splits list.splits)
  from open_inv [OF inv job w] OpenOutput step w show ?thesis by simp
next
  case (WriteLine w)
  with step obtain t l ls where w: "workers s w = ReduceWriting t (l # ls)" by (auto split: Worker.splits list.splits)
  from line_inv [OF inv w] WriteLine step w show ?thesis by simp
next
  case (ReportReduce w)
  with step obtain t where w: "workers s w = ReduceWriting t []" by (auto split: Worker.splits list.splits)
  from report_reduce [OF inv w] ReportReduce step w show ?thesis by (auto split: prod.splits)
next
  case (Crash w)
  with step quiet_step_inv [OF inv, of Gone w] show ?thesis by (simp add: worker_inv_def holds_def)
next
  case (InspectMaps rng now)
  with step rng time inspect_map_inv [OF inv] show ?thesis by auto
next
  case (InspectReduces rng now)
  with step rng time inspect_reduce_inv [OF inv] show ?thesis by auto
qed

lemma job_run_inv:
  assumes "job_inv J s" "job_ok J" "\<forall>m \<in> set ms. move_visits m" "timely_run J ms s" "mr_run J ms s = Some (Inr s')"
  shows "job_inv J s'"
  using assms
proof (induction ms arbitrary: s)
  case (Cons m ms)
  then obtain s1 where s1: "mr_step J m s = Some (Inr s1)" "mr_run J ms s1 = Some (Inr s')"
    by (auto split: option.splits sum.splits)
  with Cons.prems have "job_inv J s1" by (intro job_step_inv [OF Cons.prems(1,2) _ _ s1(1)]) simp_all
  with Cons s1 show ?case by simp
qed simp

section \<open>The result of a finished job\<close>

definition output_of :: "MrSys \<Rightarrow> int \<Rightarrow> string list" where
  "output_of s r = (case outf s (oFileName r) of Some ls \<Rightarrow> ls | None \<Rightarrow> [])"

lemma finished_output:
  assumes inv: "job_inv J s" and fin: "mr_Done (coord s)"
  shows "output_of s r = out_lines J r"
proof -
  note d = job_invD [OF inv]
  have all: "map_done (coord s) i" if "i < length (inputs J)" for i
    using all_maps_done [OF d(2)] fin that d(8) by (simp add: mr_Done_def)
  have red: "IdleReduceTask (coord s) = []" "RTaskProcessingTxn (coord s) = []"
    using reduce_done_iff [OF d(2)] fin by (simp_all add: mr_Done_def)
  show ?thesis
  proof (cases "r \<in> fst ` set (ReduceTasks (coord s))")
    case True
    with pool_completed [OF coord_invD(2) [OF d(2)] True] red
    have "ReduceTaskStatus (coord s) r = Some COMPLETED" by simp
    from output_invD(1) [OF d(7) True this] show ?thesis by (simp add: output_of_def)
  next
    case False
    then have "sources J (map_done (coord s)) r = {}" using reduce_invD(1) [OF d(6)] by (simp add: map_of_eq_None_iff)
    with all have "\<forall>i < length (inputs J). share J r (pairs_of J i) = []" by (auto simp: sources_def)
    then have "share J r (all_pairs J) = []"
      using share_concat [of "[]" J r] by simp
    moreover have "outf s (oFileName r) = None"
      using output_invD(2) [OF d(7), of "oFileName r"] False by auto
    ultimately show ?thesis by (simp add: output_of_def out_lines_def reduce_spec_def)
  qed
qed

lemma sequential_lines:
  assumes "job_ok J"
  shows "mrsequential (sortf J) (mapf J) (reducef J) (map (\<lambda>f. (f, contents J f)) (inputs J)) =
    map out_line (reduce_spec (reducef J) (all_pairs J))"
proof -
  have "map (pairs_of J) [0..<length (inputs J)] = map (\<lambda>f. mapf J f (contents J f)) (inputs J)"
    by (rule nth_equalityI) (simp_all add: pairs_of_def)
  then show ?thesis using assms by (simp add: mrsequential_spec job_ok_def all_pairs_def comp_def)
qed

text \<open>
  C4: a finished job computes what the sequential program computes. Run any workers on a job, in any
  interleaving, with crashes at any point, such that the coordinator gives up a task only when the worker
  that had it is gone. When \<^verbatim>\<open>Done\<close> says that the job is finished, the lines in the output files of all
  reduce tasks together are the lines that \<^verbatim>\<open>mrsequential\<close> writes, and every line is in the file of the reduce
  task of its key.
\<close>

theorem mr_equals_sequential:
  assumes job: "job_ok J" and moves: "\<forall>m \<in> set ms. move_visits m" "timely_run J ms (mr_init J)"
    and run: "mr_run J ms (mr_init J) = Some (Inr s)" and fin: "mr_Done (coord s)"
  shows "(\<Sum>r \<in> {0..<nReduce J}. mset (output_of s r)) =
      mset (mrsequential (sortf J) (mapf J) (reducef J) (map (\<lambda>f. (f, contents J f)) (inputs J))) \<and>
    (\<forall>r. output_of s r = map out_line (reduce_spec (reducef J) (bucket (nReduce J) r (all_pairs J))))"
proof -
  have inv: "job_inv J s" by (rule job_run_inv [OF job_init job moves run])
  have "(\<Sum>r \<in> {0..<nReduce J}. mset (output_of s r)) =
      image_mset out_line (\<Sum>r \<in> {0..<nReduce J}. mset (reduce_spec (reducef J) (bucket (nReduce J) r (all_pairs J))))"
    by (simp add: finished_output [OF inv fin] out_lines_def image_mset_Sum)
  also have "\<dots> = image_mset out_line (mset (reduce_spec (reducef J) (all_pairs J)))"
    using job by (simp add: buckets_output job_ok_def)
  finally show ?thesis by (simp add: sequential_lines [OF job] finished_output [OF inv fin] out_lines_def)
qed

text \<open>The moves that are always timely, and the worker that a move is about.\<close>

fun inspects :: "MrMove \<Rightarrow> bool" where
  "inspects (InspectMaps rng now) = True"
| "inspects (InspectReduces rng now) = True"
| "inspects _ = False"

lemma timely_run_quiet: "\<forall>m \<in> set ms. \<not> inspects m \<Longrightarrow> timely_run J ms s"
proof (induction ms arbitrary: s)
  case (Cons m ms)
  then have "timely m x" for x by (cases m) simp_all
  with Cons show ?case by (auto split: option.splits sum.splits)
qed simp

lemma timely_run_append:
  "\<forall>m \<in> set ms. \<not> inspects m \<Longrightarrow> mr_run J ms s = Some (Inr s') \<Longrightarrow> timely_run J (ms @ ms') s \<longleftrightarrow> timely_run J ms' s'"
proof (induction ms arbitrary: s)
  case (Cons m ms)
  then have "timely m x" for x by (cases m) simp_all
  with Cons show ?case by (auto split: option.splits sum.splits)
qed simp

lemma gone_alone:
  "workers s = (\<lambda>_. Asking AskMap)(w := Gone) \<Longrightarrow> timely (InspectMaps rng now) s"
  by (simp split: if_splits)

theorem mr_equals_sequential_witness:
  "(\<Sum>r \<in> {0..<2}. mset (output_of sample_job_state r)) =
     mset (mrsequential (sort_key kv_Key) (wc_Map (\<lambda>c. c \<noteq> CHR '' '')) wc_Reduce [(''f'', ''a b a'')]) \<and>
   output_of sample_job_state 0 = [''a 2'' @ [CHR 0x0A]] \<and> output_of sample_job_state 1 = [''b 1'' @ [CHR 0x0A]]"
proof -
  have "\<forall>m \<in> set sample_job_moves. move_visits m" by (simp add: sample_job_moves_def visits_def)
  moreover have "timely_run sample_job sample_job_moves (mr_init sample_job)"
  proof -
    let ?s = "projr (the (mr_run sample_job (take 3 sample_job_moves) (mr_init sample_job)))"
    have "mr_run sample_job (take 3 sample_job_moves) (mr_init sample_job) = Some (Inr ?s)"
      by (rule run_result) code_simp
    then have "timely_run sample_job (take 3 sample_job_moves @ drop 3 sample_job_moves) (mr_init sample_job) =
        timely_run sample_job (drop 3 sample_job_moves) ?s"
      by (intro timely_run_append) (simp_all add: sample_job_moves_def)
    moreover have "workers ?s = (\<lambda>_. Asking AskMap)(0 := Gone)"
      by (simp add: sample_job_moves_def mr_init_def MakeCoordinator_fields GetTask_def GetMapTask_def start_task_def
          sample_job_def zeroTask_def CloneTask_def go_index_def wc_Map_def FieldsFunc.simps Let_def split: prod.splits)
    then have "timely (InspectMaps (\<lambda>ks. ks) 11000000000) ?s" by (rule gone_alone)
    then have "timely_run sample_job (drop 3 sample_job_moves) ?s"
      using timely_run_quiet [of "drop 4 sample_job_moves" sample_job]
      by (simp add: sample_job_moves_def split: option.splits sum.splits)
    ultimately show ?thesis by simp
  qed
  moreover have "mr_Done (coord sample_job_state)" by code_simp
  ultimately have "(\<Sum>r \<in> {0..<nReduce sample_job}. mset (output_of sample_job_state r)) =
      mset (mrsequential (sortf sample_job) (mapf sample_job) (reducef sample_job)
        (map (\<lambda>f. (f, contents sample_job f)) (inputs sample_job)))"
    using mr_equals_sequential [OF sample_job_ok _ _ sample_job_run] by blast
  moreover have "output_of sample_job_state 0 = [''a 2'' @ [CHR 0x0A]]" "output_of sample_job_state 1 = [''b 1'' @ [CHR 0x0A]]"
    by code_simp+
  ultimately show ?thesis by (simp add: sample_job_def)
qed

text \<open>Worker 0 is slow, its map task is given up and completed by worker 1; then worker 0 goes on.\<close>

definition late_moves :: "MrMove list" where
  "late_moves = [Ask 0 0, InspectMaps (\<lambda>ks. ks) 11000000000,
     Ask 1 12000000000, WritePair 1, WritePair 1, WritePair 1, ReportMap 1, WritePair 0,
     Ask 1 0, Ask 1 0, ReadFile 1, OpenOutput 1, WriteLine 1, ReportReduce 1,
     Ask 1 0, Ask 1 0, ReadFile 1, OpenOutput 1, WriteLine 1, ReportReduce 1]"

definition late_state :: MrSys where
  "late_state = projr (the (mr_run sample_job late_moves (mr_init sample_job)))"

text \<open>
  C38: a worker that was given up can spoil the result. When a worker that the coordinator has given up
  still runs, it creates an intermediate file of a completed map task anew. The job finishes, but its
  output counts the word a once; the sequential program counts it twice.
\<close>

theorem late_worker_corrupts:
  "mr_run sample_job late_moves (mr_init sample_job) = Some (Inr late_state) \<and> mr_Done (coord late_state) \<and>
   output_of late_state 0 = [''a 1'' @ [CHR 0x0A]] \<and>
   mrsequential (sortf sample_job) (mapf sample_job) (reducef sample_job) [(''f'', ''a b a'')] =
     [''a 2'' @ [CHR 0x0A], ''b 1'' @ [CHR 0x0A]]"
proof (intro conjI)
  show "mr_run sample_job late_moves (mr_init sample_job) = Some (Inr late_state)"
    unfolding late_state_def by (rule run_result) code_simp
  show "mr_Done (coord late_state)" by code_simp
  show "output_of late_state 0 = [''a 1'' @ [CHR 0x0A]]" by code_simp
  show "mrsequential (sortf sample_job) (mapf sample_job) (reducef sample_job) [(''f'', ''a b a'')] =
      [''a 2'' @ [CHR 0x0A], ''b 1'' @ [CHR 0x0A]]" by code_simp
qed

end
