(* ===== verification/Spec2Isabelle.thy ===== *)
theory Spec2Isabelle
  imports RaftAnomalies ShardCtrler KvRaft ShardKvStuck Clerks KvSrv MrCorrect
begin

text \<open>
  A verification development for the distributed systems under \<^verbatim>\<open>src/\<close>: Raft, the services that are
  replicated with it, a key/value server on one machine, and MapReduce. All paths below are relative to
  \<^verbatim>\<open>src/src\<close>.

  \<^bold>\<open>The program.\<close> A Raft peer (\<^verbatim>\<open>raft/raft.go\<close>) replicates a log over a cluster and writes its term,
  vote, log and snapshot to a persister (\<^verbatim>\<open>raft/persister.go\<close>). Three services run on that log: the
  key/value server (\<^verbatim>\<open>kvraft\<close>), the shard controller (\<^verbatim>\<open>shardctrler\<close>), which keeps the history of
  configurations, and the sharded key/value service (\<^verbatim>\<open>shardkv\<close>), whose groups follow the
  configurations of the controller and hand shards to each other. Clerks (\<^verbatim>\<open>client.go\<close> of each service)
  repeat a request until a server has executed it, and the services keep a table of the last call of
  each client to execute it once. \<^verbatim>\<open>kvsrv\<close> is the same service on one machine, without replication.
  MapReduce (\<^verbatim>\<open>mr\<close>) has a coordinator that hands out tasks and takes them back after a timeout, and
  workers that exchange intermediate files.

  \<^bold>\<open>Conventions.\<close> Go code that may panic has the type \<open>'a go\<close>, a sum whose left side is the panic.
  Integers are \<open>int\<close> (a 64-bit counter of calls or terms does not overflow in practice; the hash of
  MapReduce, where the width matters, is computed on 32-bit words). A slice is a list and every index is
  checked. A handler that runs under one mutex is one function on the record of the state. The outcome
  of a remote call and the order in which Go ranges over a map are arguments of the functions that depend
  on them, and the theorems quantify over them. Loops that repeat a call until it succeeds are partial
  functions into \<open>option\<close>; no definition uses fuel.

  \<^bold>\<open>The theories.\<close>

  \<^item> \<open>Prelude\<close>: computations that may panic, transition systems with inductive invariants (locale
    \<open>inductive_invariant\<close>), quorums (locale \<open>quorum_system\<close>, interpreted for majorities).

  \<^item> \<open>RaftPersist\<close>: \<^verbatim>\<open>raft/persister.go\<close> and encoding with \<^verbatim>\<open>labgob\<close>, where a stream is the list of the
    encoded values; the contract of stable storage is the locale \<open>stable_storage\<close>.

  \<^item> \<open>RaftDefs\<close>: the peer of \<^verbatim>\<open>raft/raft.go\<close>, one function for each function of the source
    (\<open>RequestVote\<close>, \<open>ApplyEntries\<close>, \<open>InstallSnapshot\<close>, the reply handlers, \<open>updateCommittedIndex\<close>,
    \<open>Start\<close>, \<open>Snapshot\<close>, \<open>applyLog\<close>, \<open>Make\<close>). \<open>RaftLog\<close> equates its loops over the log with what they compute.
    \<open>RaftServer\<close> shows that every operation keeps the invariant of a peer and does not panic.
    \<open>RaftProps\<close> states what the operations achieve: the binary search, replication, votes, the commit
    rule, snapshots, recovery and delivery.

  \<^item> \<open>RaftCluster\<close>: any number of peers and a network that delays, reorders and loses messages (each is
    delivered at most once), with crashes and restarts. At most one leader is elected in a term, and no
    step panics. \<open>RaftAnomalies\<close>: an execution in which two peers deliver different commands at one index,
    because a stale append is acknowledged without being stored, and one in which a late snapshot is
    delivered behind commands that follow it.

  \<^item> \<open>Sessions\<close>: two interfaces that the replicated services share. A \<open>session_machine\<close> skips calls that
    its table of last calls has seen, hence executes every call once. A \<open>snapshot_machine\<close> is restored by
    its snapshots up to the parts that are not saved.

  \<^item> \<open>ShardBalance\<close>, \<open>ShardCtrler\<close>: \<^verbatim>\<open>shardctrler/server.go\<close> and \<^verbatim>\<open>common.go\<close>. The assignment made by
    \<open>makeShardBalance\<close> is balanced, moves as few shards as possible, and does not depend on the iteration
    order of maps, so replicas agree; histories of configurations stay well formed.

  \<^item> \<open>KvRaft\<close>: \<^verbatim>\<open>kvraft/server.go\<close>, \<^verbatim>\<open>common.go\<close> and the sequential model of \<^verbatim>\<open>models/kv.go\<close>. The log is a
    legal history of the model; restarts from snapshots lose nothing.

  \<^item> \<open>ShardKv\<close>: \<^verbatim>\<open>shardkv/server.go\<close> and \<^verbatim>\<open>common.go\<close>. \<open>ShardKvProps\<close>: closed forms of its commands, sessions,
    snapshots. \<open>ShardKvSystem\<close>: controller and groups as one transition system, in which a server of a
    group may lag behind and commands may be committed late and repeatedly. \<open>ShardKvSafety\<close> and
    \<open>ShardKvCorrect\<close>: no shard is served by two groups, the groups together refine one sequential store,
    every call takes effect once although shards move, and data on the move stays available.
    \<open>ShardKvStuck\<close>: a reachable state from which a group never serves its shards.

  \<^item> \<open>Clerks\<close>: the three \<^verbatim>\<open>client.go\<close> over arbitrary outcomes of calls. A call returns once a server keeps
    answering, and what it returns was executed.

  \<^item> \<open>Strconv\<close>: decimal printing and reading, and splitting of strings, as the sources use them.

  \<^item> \<open>KvSrv\<close>: \<^verbatim>\<open>kvsrv/server.go\<close>, \<^verbatim>\<open>client.go\<close>, \<^verbatim>\<open>common.go\<close>; clerks and one server over a network that loses
    requests and replies. The service is linearizable, and its memory of results is bounded by the number
    of clerks in a call.

  \<^item> \<open>MrWorker\<close>, \<open>MrCoordinator\<close>: \<^verbatim>\<open>mr/worker.go\<close>, \<^verbatim>\<open>mr/coordinator.go\<close>, \<^verbatim>\<open>mr/rpc.go\<close>, \<^verbatim>\<open>main/mrsequential.go\<close> and
    \<^verbatim>\<open>mrapps/wc.go\<close>. Map and reduce tasks are two interpretations of the locale \<open>task_side\<close>. \<open>MrSystem\<close>: the
    coordinator, worker processes that may crash between any two writes, and the shared files; nothing
    panics. \<open>MrCorrect\<close>: the output of a finished job is that of the sequential program, provided that only
    workers that are gone are given up; and an execution that shows why this is needed.

  \<^bold>\<open>Assumptions.\<close> A remote call fails or returns the reply of an execution of its handler, which may
  also run without its reply arriving. The services take from Raft that the servers of a group execute
  prefixes of one log; the cluster theory proves election safety but not this, and shows an execution of
  the given code in which it fails. Client ids, which the clerks draw at random, are different. The
  functions of a MapReduce application are arguments; the intermediate files give back the pairs that
  were encoded into them as JSON, which holds for keys and values that are valid UTF-8; \<^verbatim>\<open>sort.Sort\<close> returns a sorted permutation, and the reduce
  function is required not to depend on the order of the values of a key where a theorem needs it.

  \<^bold>\<open>Not modelled.\<close> The simulated network \<^verbatim>\<open>labrpc\<close> and the encoder \<^verbatim>\<open>labgob\<close> beyond the assumptions above: they
  are built on reflection, goroutines and random delays. The linearizability checker \<^verbatim>\<open>porcupine\<close> and its
  visualization, and the harnesses \<^verbatim>\<open>config.go\<close>: they belong to the tests. Commands under \<^verbatim>\<open>main\<close> that only parse
  arguments, applications under \<^verbatim>\<open>mrapps\<close> that sleep, crash or count files for the tests, sockets, debug output,
  timers (a timer may fire at any time) and random numbers.
\<close>

end
